(* ===== verification/Valkey_Prelude.thy ===== *)
theory Valkey_Prelude
  imports Main "HOL-Library.Word" "HOL-Library.Monad_Syntax"
begin

text \<open>
  Shared vocabulary of the development: bytes, byte buffers with checked access, the
  allocator, C integer conversions, and little-endian integers.

  C code is modelled in the \<open>option\<close> monad. The value \<open>None\<close> stands for every way in
  which the C function does not return normally: a failed \<^verbatim>\<open>assert\<close>, an access outside
  the allocation, or (for loops defined by \<^theory_text>\<open>partial_function\<close>) a loop that
  never ends. A theorem that an operation returns \<open>Some\<close> is therefore also a
  memory-safety and termination statement.
\<close>

named_theorems buf_simps \<open>evaluation of checked buffer accesses\<close>
named_theorems le_simps \<open>little-endian encoding and decoding\<close>

type_synonym byte = "8 word"
type_synonym buffer = "byte list"

text \<open>The allocator is external to the sources. A value of type \<open>allocator\<close> is any way to
  answer requests: \<open>fresh al n\<close> is the (uninitialised) memory that a request for \<open>n\<close> bytes
  yields. The only promise, the one \<^verbatim>\<open>malloc\<close> documents, is that at least \<open>n\<close> bytes are
  usable; it is the defining property of the type.\<close>

typedef allocator = "{al :: nat \<Rightarrow> buffer. \<forall>n. n \<le> length (al n)}"
  morphisms fresh Allocator
  by (intro exI [of _ "\<lambda>n. replicate n 0"]) simp

setup_lifting type_definition_allocator

lift_definition exact_allocator :: allocator is "\<lambda>n. replicate n 0"
  by simp

lemma length_fresh: "n \<le> length (fresh al n)"
  using fresh [of al] by simp

lemma fresh_exact [simp]: "fresh exact_allocator n = replicate n 0"
  by (simp add: exact_allocator.rep_eq)

subsection \<open>Operation sequences and refinement\<close>

text \<open>Running a sequence of operations on a concrete state, where every operation may fail, and on its
  abstraction.\<close>

fun run_ops :: "('op \<Rightarrow> 's \<Rightarrow> ('s \<times> 'r) option) \<Rightarrow> 'op list \<Rightarrow> 's \<Rightarrow> ('s \<times> 'r list) option" where
  "run_ops step [] s = Some (s, [])"
| "run_ops step (oper # opers) s = do {
     (s, r) \<leftarrow> step oper s;
     (s, rs) \<leftarrow> run_ops step opers s;
     Some (s, r # rs)
   }"

fun run_spec :: "('op \<Rightarrow> 'a \<Rightarrow> 'a \<times> 'r) \<Rightarrow> 'op list \<Rightarrow> 'a \<Rightarrow> 'a \<times> 'r list" where
  "run_spec spec [] a = (a, [])"
| "run_spec spec (oper # opers) a =
     (case spec oper a of (a, r) \<Rightarrow> case run_spec spec opers a of (a, rs) \<Rightarrow> (a, r # rs))"

text \<open>The contract of a component: on a well-formed state every admissible operation succeeds, keeps the state
  well-formed, and has the effect and the result that the abstract operation has.\<close>

locale guarded_refinement =
  fixes adm :: "'op \<Rightarrow> bool" and wf :: "'s \<Rightarrow> bool" and abst :: "'s \<Rightarrow> 'a"
    and step :: "'op \<Rightarrow> 's \<Rightarrow> ('s \<times> 'r) option" and spec :: "'op \<Rightarrow> 'a \<Rightarrow> 'a \<times> 'r"
  assumes guarded_step: "adm oper \<Longrightarrow> wf s \<Longrightarrow>
    \<exists>s' r. step oper s = Some (s', r) \<and> wf s' \<and> spec oper (abst s) = (abst s', r)"
begin

lemma guarded_run:
  "list_all adm opers \<Longrightarrow> wf s \<Longrightarrow>
   \<exists>s' rs. run_ops step opers s = Some (s', rs) \<and> wf s' \<and> run_spec spec opers (abst s) = (abst s', rs)"
proof (induction opers arbitrary: s)
  case (Cons oper opers)
  then have "adm oper" "list_all adm opers" by simp_all
  then show ?case using guarded_step [OF _ Cons.prems(2), of oper] Cons.IH by fastforce
qed simp

end

text \<open>The contract without a guard.\<close>

locale component_refinement =
  fixes wf :: "'s \<Rightarrow> bool" and abst :: "'s \<Rightarrow> 'a"
    and step :: "'op \<Rightarrow> 's \<Rightarrow> ('s \<times> 'r) option" and spec :: "'op \<Rightarrow> 'a \<Rightarrow> 'a \<times> 'r"
  assumes step_refines: "wf s \<Longrightarrow> \<exists>s' r. step oper s = Some (s', r) \<and> wf s' \<and> spec oper (abst s) = (abst s', r)"

sublocale component_refinement \<subseteq> always: guarded_refinement "\<lambda>_. True" wf abst step spec
  by unfold_locales (rule step_refines)

context component_refinement begin

lemma run_refines:
  "wf s \<Longrightarrow> \<exists>s' rs. run_ops step opers s = Some (s', rs) \<and> wf s' \<and> run_spec spec opers (abst s) = (abst s', rs)"
  by (rule always.guarded_run) (simp_all add: list_all_iff)

end

subsection \<open>Generic simplification\<close>

text \<open>Existential statements about a returned truth value.\<close>

lemma ex_bool_simps [simp]: "\<exists>b. b" "Ex Not" "\<exists>b. \<not> b"
  by blast+

lemma option_eqI: "(\<And>w. a = Some w \<longleftrightarrow> b = Some w) \<Longrightarrow> a = b"
  by (cases a) (metis option.exhaust, metis)

subsection \<open>Assertions and checked buffer access\<close>

definition c_assert :: "bool \<Rightarrow> unit option" where
  "c_assert P = (if P then Some () else None)"

definition rd :: "buffer \<Rightarrow> nat \<Rightarrow> nat \<Rightarrow> buffer option" where
  "rd b off n = (if off + n \<le> length b then Some (take n (drop off b)) else None)"

definition rd_byte :: "buffer \<Rightarrow> nat \<Rightarrow> byte option" where
  "rd_byte b off = (if off < length b then Some (b ! off) else None)"

definition wr :: "buffer \<Rightarrow> nat \<Rightarrow> buffer \<Rightarrow> buffer option" where
  "wr b off xs = (if off + length xs \<le> length b
     then Some (take off b @ xs @ drop (off + length xs) b) else None)"

text \<open>\<^verbatim>\<open>memmove(b + dst, b + src, n)\<close>: the regions may overlap.\<close>

definition memmove :: "buffer \<Rightarrow> nat \<Rightarrow> nat \<Rightarrow> nat \<Rightarrow> buffer option" where
  "memmove b dst src n = do { xs \<leftarrow> rd b src n; wr b dst xs }"

text \<open>\<^verbatim>\<open>realloc\<close> keeps the common prefix; what lies behind it is uninitialised.\<close>

definition realloc :: "allocator \<Rightarrow> nat \<Rightarrow> buffer \<Rightarrow> buffer" where
  "realloc al n b = take n b @ drop (length (take n b)) (fresh al n)"

lemma c_assert_simps [simp]: "c_assert True = Some ()" "c_assert False = None"
  by (simp_all add: c_assert_def)

lemma c_assert_eq_Some [simp]: "c_assert P = Some u \<longleftrightarrow> P"
  by (simp add: c_assert_def)

lemma c_assert_bind_Some [simp]: "Option.bind (c_assert P) f = Some r \<longleftrightarrow> P \<and> f () = Some r"
  by (simp add: c_assert_def)

lemma rd_Some [buf_simps]: "off + n \<le> length b \<Longrightarrow> rd b off n = Some (take n (drop off b))"
  by (simp add: rd_def)

lemma rd_byte_Some [buf_simps]: "off < length b \<Longrightarrow> rd_byte b off = Some (b ! off)"
  by (simp add: rd_byte_def)

lemma wr_Some [buf_simps]:
  "off + length xs \<le> length b \<Longrightarrow> wr b off xs = Some (take off b @ xs @ drop (off + length xs) b)"
  by (simp add: wr_def)

lemma rd_append:
  "off = length a \<Longrightarrow> n = length m \<Longrightarrow> rd (a @ m @ c) off n = Some m"
  by (simp add: rd_def)

lemma rd_byte_append:
  "off = length a \<Longrightarrow> rd_byte (a @ x # c) off = Some x"
  by (simp add: rd_byte_def)

lemma wr_append:
  "off = length a \<Longrightarrow> length m = length xs \<Longrightarrow> wr (a @ m @ c) off xs = Some (a @ xs @ c)"
  by (simp add: wr_def)

lemma rd_length: "rd b off n = Some xs \<Longrightarrow> length xs = n"
  by (auto simp: rd_def split: if_splits)

lemma wr_length: "wr b off xs = Some b' \<Longrightarrow> length b' = length b"
  by (auto simp: wr_def split: if_splits)

lemma memmove_length: "memmove b d s n = Some b' \<Longrightarrow> length b' = length b"
  by (auto simp: memmove_def bind_eq_Some_conv dest: wr_length)

lemma length_realloc_ge: "n \<le> length (realloc al n b)"
  using length_fresh [of n al] by (simp add: realloc_def min_def)

lemma take_realloc: "m \<le> n \<Longrightarrow> m \<le> length b \<Longrightarrow> take m (realloc al n b) = take m b"
  by (simp add: realloc_def min_def)

subsection \<open>C integer conversions\<close>

text \<open>Unsigned 32-bit arithmetic wraps; a conversion to \<^verbatim>\<open>int\<close> reinterprets the bits.\<close>

definition u32 :: "int \<Rightarrow> nat" where
  "u32 x = nat (x mod 2 ^ 32)"

definition s32 :: "nat \<Rightarrow> int" where
  "s32 n = (let m = n mod 2 ^ 32 in if m < 2 ^ 31 then int m else int m - 2 ^ 32)"

lemma u32_id: "0 \<le> x \<Longrightarrow> x < 2 ^ 32 \<Longrightarrow> u32 x = nat x"
  by (simp add: u32_def)

lemma u32_of_nat: "n < 2 ^ 32 \<Longrightarrow> u32 (int n) = n"
  by (simp add: u32_def)

lemma s32_id: "n < 2 ^ 31 \<Longrightarrow> s32 n = int n"
  by (simp add: s32_def)

abbreviation INT64_MIN :: int where "INT64_MIN \<equiv> - (2 ^ 63)"
abbreviation INT64_MAX :: int where "INT64_MAX \<equiv> 2 ^ 63 - 1"

definition is_int64 :: "int \<Rightarrow> bool" where
  "is_int64 v \<longleftrightarrow> INT64_MIN \<le> v \<and> v \<le> INT64_MAX"

subsection \<open>Little-endian integers\<close>

primrec nat_le :: "nat \<Rightarrow> nat \<Rightarrow> buffer" where
  "nat_le 0 v = []"
| "nat_le (Suc n) v = word_of_nat (v mod 256) # nat_le n (v div 256)"

primrec le_nat :: "buffer \<Rightarrow> nat" where
  "le_nat [] = 0"
| "le_nat (b # bs) = unat b + 256 * le_nat bs"

text \<open>Storing a signed value in \<open>n\<close> bytes keeps its low \<open>8 * n\<close> bits.\<close>

definition int_le :: "nat \<Rightarrow> int \<Rightarrow> buffer" where
  "int_le n v = nat_le n (nat (v mod 2 ^ (8 * n)))"

definition le_int :: "buffer \<Rightarrow> int" where
  "le_int bs = (let u = int (le_nat bs); w = 8 * length bs in
     if u < 2 ^ (w - 1) then u else u - 2 ^ w)"

definition fits :: "nat \<Rightarrow> int \<Rightarrow> bool" where
  "fits n v \<longleftrightarrow> - (2 ^ (8 * n - 1)) \<le> v \<and> v < 2 ^ (8 * n - 1)"

lemma length_nat_le [simp]: "length (nat_le n v) = n"
  by (induction n arbitrary: v) auto

lemma length_int_le [simp]: "length (int_le n v) = n"
  by (simp add: int_le_def)

lemma nat_le_numeral:
  "nat_le (numeral k) v = word_of_nat (v mod 256) # nat_le (pred_numeral k) (v div 256)"
  by (simp only: numeral_eq_Suc [of k] nat_le.simps)

lemma unat_byte_of_nat [simp]: "unat (word_of_nat (v mod 256) :: byte) = v mod 256"
  by (simp add: unat_of_nat)

lemma le_nat_nat_le [le_simps]: "le_nat (nat_le n v) = v mod 256 ^ n"
proof (induction n arbitrary: v)
  case (Suc n)
  have "v mod 256 + 256 * (v div 256 mod 256 ^ n) = v mod (256 * 256 ^ n)"
    by (simp add: mod_mult2_eq)
  with Suc show ?case by simp
qed simp

lemma le_nat_bound: "le_nat bs < 256 ^ length bs"
proof (induction bs)
  case (Cons b bs)
  have "unat b < 256"
    using unsigned_less [of b] by simp
  with Cons show ?case
    by (simp add: algebra_simps)
qed simp

lemma nat_le_le_nat [le_simps]: "nat_le (length bs) (le_nat bs) = bs"
proof (induction bs)
  case (Cons b bs)
  have "unat b < 256"
    using unsigned_less [of b] by simp
  then show ?case
    using Cons by (simp add: div_add1_eq)
qed simp

lemma pow256: "(256::'a::comm_semiring_1) ^ n = 2 ^ (8 * n)"
proof -
  have "(256::'a) = 2 ^ 8" by simp
  then show ?thesis by (simp only: power_mult)
qed

lemma le_nat_bound_int: "length bs = n \<Longrightarrow> int (le_nat bs) < 2 ^ (8 * n)"
proof -
  assume "length bs = n"
  then have "int (le_nat bs) < int (256 ^ n)"
    using le_nat_bound [of bs] by (simp only: of_nat_less_iff)
  also have "int (256 ^ n) = 2 ^ (8 * n)"
    by (simp add: pow256)
  finally show ?thesis .
qed

lemma le_int_int_le [le_simps]:
  assumes "fits n v" and "0 < n"
  shows "le_int (int_le n v) = v"
proof -
  let ?W = "(2::int) ^ (8 * n)" and ?H = "(2::int) ^ (8 * n - 1)"
  have W: "?W = 2 * ?H"
    using \<open>0 < n\<close> by (cases n) (simp_all add: power_add)
  have u: "int (le_nat (int_le n v)) = v mod ?W"
    by (simp add: int_le_def le_nat_nat_le pow256 of_nat_mod)
  show ?thesis
  proof (cases "0 \<le> v")
    case True
    then have "v mod ?W = v"
      using assms W by (simp add: fits_def)
    then show ?thesis
      using True assms by (simp add: le_int_def Let_def u fits_def)
  next
    case False
    then have "v mod ?W = v + ?W"
      using assms W by (intro int_mod_pos_eq [where q = "-1"]) (auto simp: fits_def)
    then show ?thesis
      using False assms W by (simp add: le_int_def Let_def u fits_def)
  qed
qed

lemma fits_le_int: "bs \<noteq> [] \<Longrightarrow> length bs = n \<Longrightarrow> fits n (le_int bs)"
proof -
  assume "bs \<noteq> []" and n: "length bs = n"
  then have W: "(2::int) ^ (8 * n) = 2 * 2 ^ (8 * n - 1)"
    by (cases n) (simp_all add: power_add)
  have "int (le_nat bs) < 2 ^ (8 * n)"
    using n by (rule le_nat_bound_int)
  then show ?thesis
    using n W by (simp add: le_int_def Let_def fits_def)
qed

lemma int_le_le_int [le_simps]:
  assumes "length bs = n" and "0 < n"
  shows "int_le n (le_int bs) = bs"
proof -
  have b: "int (le_nat bs) < 2 ^ (8 * n)"
    using assms(1) by (rule le_nat_bound_int)
  then have "le_int bs mod 2 ^ (8 * n) = int (le_nat bs)"
    using assms by (simp add: le_int_def Let_def)
  then show ?thesis
    using assms nat_le_le_nat [of bs] by (simp add: int_le_def)
qed

end
