(* ===== verification/Int_Array.thy ===== *)
theory Int_Array
  imports Valkey_Prelude
begin

text \<open>
  A byte buffer read as an array of fixed-width little-endian integers, the view that the
  integer set takes of its contents: \<open>chunk e b i\<close> is the \<open>i\<close>-th record of \<open>e\<close> bytes,
  \<open>view e b vs\<close> says that the first records of \<open>b\<close> hold the integers \<open>vs\<close>.
\<close>

definition chunk :: "nat \<Rightarrow> buffer \<Rightarrow> nat \<Rightarrow> buffer" where
  "chunk e b i = take e (drop (i * e) b)"

definition view :: "nat \<Rightarrow> buffer \<Rightarrow> int list \<Rightarrow> bool" where
  "view e b vs \<longleftrightarrow> length vs * e \<le> length b \<and>
     (\<forall>i < length vs. fits e (vs ! i) \<and> chunk e b i = int_le e (vs ! i))"

lemma chunk_end: "(j::nat) < k \<Longrightarrow> j * e + e \<le> k * e"
  by (metis Suc_leI add.commute mult_Suc mult_le_mono1)

lemma length_chunk: "(i + 1) * e \<le> length b \<Longrightarrow> length (chunk e b i) = e"
  by (simp add: chunk_def)

lemma chunk_take: "j < k \<Longrightarrow> chunk e (take (k * e) b) j = chunk e b j"
  using chunk_end [of j k e] by (simp add: chunk_def drop_take min_def)

lemma chunk_drop: "chunk e (drop (k * e) b) j = chunk e b (k + j)"
  by (simp add: chunk_def add.commute distrib_right)

lemma chunk_append1: "j < k \<Longrightarrow> length a = k * e \<Longrightarrow> chunk e (a @ b) j = chunk e a j"
  using chunk_end [of j k e] by (simp add: chunk_def)

lemma chunk_append2: "k \<le> j \<Longrightarrow> length a = k * e \<Longrightarrow> chunk e (a @ b) j = chunk e b (j - k)"
  by (simp add: chunk_def diff_mult_distrib)

text \<open>The effect of writing \<open>k\<close> whole records at record \<open>d\<close>.\<close>

lemma chunk_write:
  assumes "(d + k) * e \<le> length b" and "length xs = k * e"
  shows "chunk e (take (d * e) b @ xs @ drop (d * e + k * e) b) j =
    (if d \<le> j \<and> j < d + k then chunk e xs (j - d) else chunk e b j)"
proof -
  have ld: "length (take (d * e) b) = d * e"
    using assms(1) by (simp add: distrib_right)
  have dr: "drop (d * e + k * e) b = drop ((d + k) * e) b"
    by (simp add: distrib_right)
  consider "j < d" | "d \<le> j" "j < d + k" | "d + k \<le> j" by linarith
  then show ?thesis
  proof cases
    case 1
    then show ?thesis using ld by (simp add: chunk_append1 chunk_take)
  next
    case 2
    then have "j - d < k" by arith
    with 2 show ?thesis using ld assms(2) by (simp add: chunk_append2 chunk_append1)
  next
    case 3
    then have "d \<le> j" "k \<le> j - d" "d + k + (j - d - k) = j" by arith+
    with 3 show ?thesis
      using chunk_append2 [OF \<open>d \<le> j\<close> ld] chunk_append2 [OF \<open>k \<le> j - d\<close> assms(2)]
      by (simp add: dr chunk_drop)
  qed
qed

lemma viewD: "view e b vs \<Longrightarrow> i < length vs \<Longrightarrow> chunk e b i = int_le e (vs ! i)"
  by (simp add: view_def)

lemma view_fits: "view e b vs \<Longrightarrow> v \<in> set vs \<Longrightarrow> fits e v"
  by (auto simp: view_def in_set_conv_nth)

lemma view_length: "view e b vs \<Longrightarrow> length vs * e \<le> length b"
  by (simp add: view_def)

lemma view_inj: "0 < e \<Longrightarrow> view e b vs \<Longrightarrow> view e b ws \<Longrightarrow> length vs = length ws \<Longrightarrow> vs = ws"
proof (rule nth_equalityI)
  fix i assume "0 < e" "view e b vs" "view e b ws" "length vs = length ws" "i < length vs"
  then have "int_le e (vs ! i) = int_le e (ws ! i)" "fits e (vs ! i)" "fits e (ws ! i)"
    by (auto simp: view_def)
  with \<open>0 < e\<close> show "vs ! i = ws ! i"
    by (metis le_int_int_le)
qed

lemma view_take: "view e b vs \<Longrightarrow> view e b (take k vs)"
proof -
  assume v: "view e b vs"
  have "min (length vs) k * e \<le> length b"
    by (rule order_trans [OF mult_le_mono1 view_length [OF v]]) simp
  then show ?thesis
    using v by (auto simp: view_def)
qed

lemma view_appendD1: "view e b (vs @ ws) \<Longrightarrow> view e b vs"
  using view_take [of e b "vs @ ws" "length vs"] by simp

lemma view_Nil [simp]: "view e b []"
  by (simp add: view_def)

text \<open>Uninitialised records hold some integer or other.\<close>

lemma view_exists:
  assumes "0 < e" and "n * e \<le> length b"
  shows "view e b (map (\<lambda>i. le_int (chunk e b i)) [0..<n])"
proof -
  have len: "length (chunk e b i) = e" if "i < n" for i
    using that assms chunk_end [of i n e] by (intro length_chunk) simp
  show ?thesis
    using assms len by (fastforce simp: view_def int_le_le_int intro!: fits_le_int)
qed

lemma view_extend:
  assumes "0 < e" and "view e b vs" and "length vs \<le> n" and "n * e \<le> length b"
  obtains ws where "length ws = n - length vs" and "view e b (vs @ ws)"
proof -
  let ?us = "map (\<lambda>i. le_int (chunk e b i)) [0..<n]"
  have us: "view e b ?us"
    using assms by (simp add: view_exists)
  have "take (length vs) ?us = vs"
    using view_inj [OF assms(1) view_take [OF us, of "length vs"] assms(2)] assms(3) by simp
  then have "?us = vs @ drop (length vs) ?us"
    by (metis append_take_drop_id)
  with us show ?thesis
    by (intro that [of "drop (length vs) ?us"]) auto
qed

lemma view_cong:
  "view e b vs \<Longrightarrow> length vs * e \<le> n \<Longrightarrow> take n b' = take n b \<Longrightarrow> length vs * e \<le> length b' \<Longrightarrow> view e b' vs"
proof -
  assume v: "view e b vs" and n: "length vs * e \<le> n" and eq: "take n b' = take n b"
    and l: "length vs * e \<le> length b'"
  have "take (length vs * e) b' = take (length vs * e) b"
    using eq n by (metis min.absorb1 take_take)
  then have "chunk e b' i = chunk e b i" if "i < length vs" for i
    using that by (metis chunk_take)
  with v l show ?thesis by (simp add: view_def)
qed

lemma view_realloc:
  assumes "view e b vs" and "length vs * e \<le> n"
  shows "view e (realloc al n b) vs"
proof (rule view_cong [OF assms(1) order_refl])
  show "take (length vs * e) (realloc al n b) = take (length vs * e) b"
    using assms by (intro take_realloc) (auto simp: view_length)
  show "length vs * e \<le> length (realloc al n b)"
    using length_realloc_ge [of n al b] assms(2) by linarith
qed

lemma view_wr:
  assumes "view e b vs" and "i < length vs" and "fits e v"
  obtains b' where "wr b (i * e) (int_le e v) = Some b'" and "view e b' (vs[i := v])"
    and "length b' = length b" and "take (i * e) b' = take (i * e) b"
proof -
  let ?b = "take (i * e) b @ int_le e v @ drop (i * e + 1 * e) b"
  have le: "(i + 1) * e \<le> length b"
    using assms chunk_end [of i "length vs" e] by (auto simp: view_def)
  then have w: "wr b (i * e) (int_le e v) = Some ?b"
    by (simp add: wr_def)
  have ch: "chunk e ?b j = (if i \<le> j \<and> j < i + 1 then chunk e (int_le e v) (j - i) else chunk e b j)" for j
    by (rule chunk_write [OF le]) simp
  have c0: "chunk e (int_le e v) 0 = int_le e v"
    by (simp add: chunk_def)
  have lb: "length ?b = length b"
    using wr_length [OF w] .
  have "view e ?b (vs[i := v])"
    unfolding view_def ch using assms lb by (auto simp: view_def c0 nth_list_update)
  moreover have "take (i * e) ?b = take (i * e) b"
    using le by simp
  ultimately show ?thesis using that w lb by blast
qed

lemma view_memmove:
  assumes "0 < e" and "view e b vs" and "src + k \<le> length vs" and "dst + k \<le> length vs"
  obtains b' where "memmove b (dst * e) (src * e) (k * e) = Some b'" and "length b' = length b"
    and "view e b' (take dst vs @ take k (drop src vs) @ drop (dst + k) vs)"
proof -
  let ?xs = "take (k * e) (drop (src * e) b)"
  let ?b = "take (dst * e) b @ ?xs @ drop (dst * e + k * e) b"
  have ls: "(src + k) * e \<le> length b" and ld: "(dst + k) * e \<le> length b"
    using view_length [OF assms(2)] mult_le_mono1 [OF assms(3), of e] mult_le_mono1 [OF assms(4), of e]
    by linarith+
  then have lx: "length ?xs = k * e"
    by (simp add: distrib_right)
  have m: "memmove b (dst * e) (src * e) (k * e) = Some ?b"
    using ls ld lx by (simp add: memmove_def rd_def wr_def distrib_right)
  have ch: "chunk e ?b j = (if dst \<le> j \<and> j < dst + k then chunk e ?xs (j - dst) else chunk e b j)" for j
    by (rule chunk_write [OF ld lx])
  have cx: "chunk e ?xs j = chunk e b (src + j)" if "j < k" for j
    using that by (simp add: chunk_take chunk_drop)
  let ?ws = "take dst vs @ take k (drop src vs) @ drop (dst + k) vs"
  have lw: "length ?ws = length vs"
    using assms(3,4) by simp
  have nth: "?ws ! j = (if dst \<le> j \<and> j < dst + k then vs ! (src + (j - dst)) else vs ! j)"
    if "j < length vs" for j
    using that assms(3,4) by (auto simp: nth_append min_def intro!: arg_cong [where f = "nth vs"])
  have "view e ?b ?ws"
    unfolding view_def lw
  proof (intro conjI allI impI)
    show "length vs * e \<le> length ?b"
      using view_length [OF assms(2)] memmove_length [OF m] by simp
    fix j assume j: "j < length vs"
    have "src + (j - dst) < length vs" if "dst \<le> j" "j < dst + k"
      using that assms(3) by arith
    then show "fits e (?ws ! j)" "chunk e ?b j = int_le e (?ws ! j)"
      unfolding nth [OF j] ch using j assms(2) by (auto simp: view_def cx)
  qed
  then show ?thesis using that m memmove_length [OF m] by blast
qed

end
