(* ===== verification/Intset.thy ===== *)
theory Intset
  imports Int_Array
begin

text \<open>
  The integer set of \<^verbatim>\<open>src/intset.c\<close>: a sorted array of 16, 32 or 64 bit integers in one
  allocation. The contents are kept as bytes, every access is checked against the allocation,
  and the 32-bit arithmetic of the source is written out with its wrap-around.
\<close>

section \<open>Model\<close>

abbreviation (input) INTSET_ENC_INT16 :: nat where "INTSET_ENC_INT16 \<equiv> 2"
abbreviation (input) INTSET_ENC_INT32 :: nat where "INTSET_ENC_INT32 \<equiv> 4"
abbreviation (input) INTSET_ENC_INT64 :: nat where "INTSET_ENC_INT64 \<equiv> 8"

record intset =
  is_encoding :: nat
  is_length :: nat
  is_contents :: buffer

definition intsetValueEncoding :: "int \<Rightarrow> nat" where
  "intsetValueEncoding v =
    (if v < - (2 ^ 31) \<or> v > 2 ^ 31 - 1 then INTSET_ENC_INT64
     else if v < - (2 ^ 15) \<or> v > 2 ^ 15 - 1 then INTSET_ENC_INT32
     else INTSET_ENC_INT16)"

text \<open>Reading record \<open>pos\<close> (a C \<^verbatim>\<open>int\<close>, so possibly negative) of width \<open>n\<close>.\<close>

definition rd_record :: "buffer \<Rightarrow> int \<Rightarrow> nat \<Rightarrow> int option" where
  "rd_record b pos n = (if pos < 0 then None
     else do { xs \<leftarrow> rd b (nat pos * n) n; Some (le_int xs) })"

definition wr_record :: "buffer \<Rightarrow> int \<Rightarrow> nat \<Rightarrow> int \<Rightarrow> buffer option" where
  "wr_record b pos n v = (if pos < 0 then None else wr b (nat pos * n) (int_le n v))"

definition intsetGetEncoded :: "intset \<Rightarrow> int \<Rightarrow> nat \<Rightarrow> int option" where
  "intsetGetEncoded is pos enc =
    (if enc = INTSET_ENC_INT64 then rd_record (is_contents is) pos 8
     else if enc = INTSET_ENC_INT32 then rd_record (is_contents is) pos 4
     else rd_record (is_contents is) pos 2)"

definition intsetGet_static :: "intset \<Rightarrow> int \<Rightarrow> int option" where
  "intsetGet_static is pos = intsetGetEncoded is pos (is_encoding is)"

definition intsetSet_static :: "intset \<Rightarrow> int \<Rightarrow> int \<Rightarrow> intset option" where
  "intsetSet_static is pos value = do {
     b \<leftarrow> (if is_encoding is = INTSET_ENC_INT64 then wr_record (is_contents is) pos 8 value
           else if is_encoding is = INTSET_ENC_INT32 then wr_record (is_contents is) pos 4 value
           else wr_record (is_contents is) pos 2 value);
     Some (is\<lparr>is_contents := b\<rparr>) }"

definition intsetNew :: "allocator \<Rightarrow> intset" where
  "intsetNew al = \<lparr>is_encoding = INTSET_ENC_INT16, is_length = 0, is_contents = fresh al 0\<rparr>"

text \<open>\<open>len\<close> is a \<^verbatim>\<open>uint32_t\<close>; the product is computed in 64 bits. The constant is
  \<^verbatim>\<open>SIZE_MAX - sizeof(intset)\<close>.\<close>

definition intsetResize :: "allocator \<Rightarrow> intset \<Rightarrow> nat \<Rightarrow> intset option" where
  "intsetResize al is len = (let size = (len * is_encoding is) mod 2 ^ 64 in do {
     c_assert (size \<le> 2 ^ 64 - 1 - 8);
     Some (is\<lparr>is_contents := realloc al size (is_contents is)\<rparr>) })"

text \<open>\<^verbatim>\<open>((unsigned int)min + (unsigned int)max) >> 1\<close>, stored in an \<^verbatim>\<open>int\<close>.\<close>

definition intsetSearch_mid :: "int \<Rightarrow> int \<Rightarrow> int" where
  "intsetSearch_mid mn mx = s32 (((u32 mn + u32 mx) mod 2 ^ 32) div 2)"

text \<open>The bisection loop. It returns the final \<open>min\<close>, \<open>mid\<close> and \<open>cur\<close>.\<close>

partial_function (option) intsetSearch_loop ::
  "intset \<Rightarrow> int \<Rightarrow> int \<Rightarrow> int \<Rightarrow> int \<Rightarrow> int \<Rightarrow> (int \<times> int \<times> int) option" where
  "intsetSearch_loop is value mn mx mid cur =
    (if mx \<ge> mn then
       let mid' = intsetSearch_mid mn mx in
       Option.bind (intsetGet_static is mid') (\<lambda>cur'.
         if value > cur' then intsetSearch_loop is value (mid' + 1) mx mid' cur'
         else if value < cur' then intsetSearch_loop is value mn (mid' - 1) mid' cur'
         else Some (mn, mid', cur'))
     else Some (mn, mid, cur))"

definition intsetSearch :: "intset \<Rightarrow> int \<Rightarrow> (bool \<times> nat) option" where
  "intsetSearch is value =
    (if is_length is = 0 then Some (False, 0)
     else do {
       let mx = s32 (u32 (int (is_length is) - 1));
       last \<leftarrow> intsetGet_static is mx;
       if value > last then Some (False, is_length is)
       else do {
         first \<leftarrow> intsetGet_static is 0;
         if value < first then Some (False, 0)
         else do {
           (mn, mid, cur) \<leftarrow> intsetSearch_loop is value 0 mx (-1) (-1);
           if value = cur then Some (True, u32 mid) else Some (False, u32 mn) } } })"

text \<open>\<^verbatim>\<open>while (length--) _intsetSet(...)\<close>, from the back to the front and in place.\<close>

primrec intsetUpgrade_loop :: "intset \<Rightarrow> nat \<Rightarrow> nat \<Rightarrow> nat \<Rightarrow> intset option" where
  "intsetUpgrade_loop is curenc prepend 0 = Some is"
| "intsetUpgrade_loop is curenc prepend (Suc n) = do {
     v \<leftarrow> intsetGetEncoded is (int n) curenc;
     is' \<leftarrow> intsetSet_static is (int n + int prepend) v;
     intsetUpgrade_loop is' curenc prepend n }"

definition intsetUpgradeAndAdd :: "allocator \<Rightarrow> intset \<Rightarrow> int \<Rightarrow> intset option" where
  "intsetUpgradeAndAdd al is value = do {
     let curenc = is_encoding is;
     let newenc = intsetValueEncoding value;
     let length' = is_length is;
     let prepend = (if value < 0 then 1 else 0);
     let is1 = is\<lparr>is_encoding := newenc\<rparr>;
     is2 \<leftarrow> intsetResize al is1 (u32 (int (is_length is1) + 1));
     is3 \<leftarrow> intsetUpgrade_loop is2 curenc prepend length';
     is4 \<leftarrow> (if prepend = 1 then intsetSet_static is3 0 value
            else intsetSet_static is3 (s32 (is_length is3)) value);
     Some (is4\<lparr>is_length := u32 (int (is_length is4) + 1)\<rparr>) }"

definition intsetMoveTail :: "intset \<Rightarrow> nat \<Rightarrow> nat \<Rightarrow> intset option" where
  "intsetMoveTail is from to = do {
     let bytes = u32 (int (is_length is) - int from);
     let width = (if is_encoding is = INTSET_ENC_INT64 then 8
                  else if is_encoding is = INTSET_ENC_INT32 then 4 else 2);
     let bytes = u32 (int bytes * int width);
     b \<leftarrow> memmove (is_contents is) (to * width) (from * width) bytes;
     Some (is\<lparr>is_contents := b\<rparr>) }"

definition intsetAdd :: "allocator \<Rightarrow> intset \<Rightarrow> int \<Rightarrow> (intset \<times> bool) option" where
  "intsetAdd al is value = do {
     let valenc = intsetValueEncoding value;
     if valenc > is_encoding is then do {
       is' \<leftarrow> intsetUpgradeAndAdd al is value;
       Some (is', True) }
     else do {
       (found, pos) \<leftarrow> intsetSearch is value;
       if found then Some (is, False)
       else do {
         is1 \<leftarrow> intsetResize al is (u32 (int (is_length is) + 1));
         is2 \<leftarrow> (if pos < is_length is1 then intsetMoveTail is1 pos (u32 (int pos + 1)) else Some is1);
         is3 \<leftarrow> intsetSet_static is2 (s32 pos) value;
         Some (is3\<lparr>is_length := u32 (int (is_length is3) + 1)\<rparr>, True) } } }"

definition intsetRemove :: "allocator \<Rightarrow> intset \<Rightarrow> int \<Rightarrow> (intset \<times> bool) option" where
  "intsetRemove al is value = do {
     let valenc = intsetValueEncoding value;
     if valenc \<le> is_encoding is then do {
       (found, pos) \<leftarrow> intsetSearch is value;
       if found then do {
         let len = is_length is;
         is1 \<leftarrow> (if pos < u32 (int len - 1) then intsetMoveTail is (u32 (int pos + 1)) pos else Some is);
         is2 \<leftarrow> intsetResize al is1 (u32 (int len - 1));
         Some (is2\<lparr>is_length := u32 (int len - 1)\<rparr>, True) }
       else Some (is, False) }
     else Some (is, False) }"

definition intsetFind :: "intset \<Rightarrow> int \<Rightarrow> bool option" where
  "intsetFind is value =
    (if intsetValueEncoding value \<le> is_encoding is
     then do { (found, pos) \<leftarrow> intsetSearch is value; Some found }
     else Some False)"

text \<open>\<^verbatim>\<open>rand()\<close> is external; \<open>r\<close> is the number it returns.\<close>

definition intsetRandom :: "intset \<Rightarrow> nat \<Rightarrow> int option" where
  "intsetRandom is r = do {
     c_assert (is_length is \<noteq> 0);
     intsetGet_static is (s32 (r mod is_length is)) }"

definition intsetMax :: "intset \<Rightarrow> int option" where
  "intsetMax is = intsetGet_static is (s32 (u32 (int (is_length is) - 1)))"

definition intsetMin :: "intset \<Rightarrow> int option" where
  "intsetMin is = intsetGet_static is 0"

text \<open>The outer option is the model's; the inner one is the return code together with the
  value stored through the pointer.\<close>

definition intsetGet :: "intset \<Rightarrow> nat \<Rightarrow> int option option" where
  "intsetGet is pos = (if pos < is_length is
     then do { v \<leftarrow> intsetGet_static is (s32 pos); Some (Some v) } else Some None)"

definition intsetLen :: "intset \<Rightarrow> nat" where
  "intsetLen is = is_length is"





section \<open>The representation invariant\<close>

definition valid_enc :: "nat \<Rightarrow> bool" where
  "valid_enc e \<longleftrightarrow> e \<in> {2, 4, 8}"

text \<open>\<open>intset_rep is vs\<close>: \<open>is\<close> holds the integers \<open>vs\<close>, strictly increasing. The byte size
  stays below \<open>2 ^ 32\<close>, the range in which the 32-bit size arithmetic does not wrap.\<close>

definition intset_rep :: "intset \<Rightarrow> int list \<Rightarrow> bool" where
  "intset_rep is vs \<longleftrightarrow> valid_enc (is_encoding is) \<and> is_length is = length vs \<and>
     length vs * is_encoding is < 2 ^ 32 \<and>
     view (is_encoding is) (is_contents is) vs \<and> sorted_wrt (<) vs"

definition intset_room :: "intset \<Rightarrow> bool" where
  "intset_room is \<longleftrightarrow> (is_length is + 1) * 8 < 2 ^ 32"

lemma valid_enc_cases: "valid_enc e \<Longrightarrow> (e = 2 \<Longrightarrow> P) \<Longrightarrow> (e = 4 \<Longrightarrow> P) \<Longrightarrow> (e = 8 \<Longrightarrow> P) \<Longrightarrow> P"
  by (auto simp: valid_enc_def)

lemma valid_enc_pos: "valid_enc e \<Longrightarrow> 0 < e"
  by (auto simp: valid_enc_def)

lemma valid_ValueEncoding [simp]: "valid_enc (intsetValueEncoding v)"
  by (simp add: intsetValueEncoding_def valid_enc_def)

lemma fits_iff_ValueEncoding:
  "is_int64 v \<Longrightarrow> valid_enc e \<Longrightarrow> fits e v \<longleftrightarrow> intsetValueEncoding v \<le> e"
  by (erule valid_enc_cases) (auto simp: fits_def intsetValueEncoding_def is_int64_def)

lemma view_rd_record:
  assumes "view e b vs" and "0 < e" and "i < length vs"
  shows "rd_record b (int i) e = Some (vs ! i)"
proof -
  have "i * e + e \<le> length b"
    using assms chunk_end [of i "length vs" e] view_length [of e b vs] by linarith
  then show ?thesis
    using assms viewD [OF assms(1,3)]
    by (simp add: rd_record_def rd_def chunk_def view_def le_int_int_le)
qed

lemma GetEncoded_view:
  assumes "valid_enc e" and "view e (is_contents is) vs" and "i < length vs"
  shows "intsetGetEncoded is (int i) e = Some (vs ! i)"
  using assms view_rd_record [OF assms(2) valid_enc_pos [OF assms(1)] assms(3)]
  by (auto simp: intsetGetEncoded_def elim!: valid_enc_cases)

lemma Set_static_view:
  assumes "valid_enc (is_encoding is)" and "view (is_encoding is) (is_contents is) vs"
    and "i < length vs" and "fits (is_encoding is) v"
  obtains b where "intsetSet_static is (int i) v = Some (is\<lparr>is_contents := b\<rparr>)"
    and "view (is_encoding is) b (vs[i := v])" and "length b = length (is_contents is)"
    and "take (i * is_encoding is) b = take (i * is_encoding is) (is_contents is)"
proof -
  obtain b where b: "wr (is_contents is) (i * is_encoding is) (int_le (is_encoding is) v) = Some b"
    "view (is_encoding is) b (vs[i := v])" "length b = length (is_contents is)"
    "take (i * is_encoding is) b = take (i * is_encoding is) (is_contents is)"
    using view_wr [OF assms(2-4)] .
  then have "intsetSet_static is (int i) v = Some (is\<lparr>is_contents := b\<rparr>)"
    using assms(1) by (auto simp: intsetSet_static_def wr_record_def elim!: valid_enc_cases)
  then show ?thesis using that b by blast
qed

lemma intset_repD:
  assumes "intset_rep is vs"
  shows "valid_enc (is_encoding is)" "is_length is = length vs" "length vs < 2 ^ 31"
    "view (is_encoding is) (is_contents is) vs" "sorted_wrt (<) vs" "distinct vs"
    "length vs * is_encoding is < 2 ^ 32" "0 < is_encoding is"
proof -
  show *: "valid_enc (is_encoding is)" "is_length is = length vs"
    "view (is_encoding is) (is_contents is) vs" "sorted_wrt (<) vs"
    "length vs * is_encoding is < 2 ^ 32"
    using assms by (auto simp: intset_rep_def)
  then show "length vs < 2 ^ 31" "distinct vs" "0 < is_encoding is"
    by (auto simp: strict_sorted_iff elim!: valid_enc_cases)
qed

lemma Get_static_rep:
  "intset_rep is vs \<Longrightarrow> i < length vs \<Longrightarrow> intsetGet_static is (int i) = Some (vs ! i)"
  by (simp add: intsetGet_static_def GetEncoded_view intset_repD)

section \<open>Searching\<close>

lemma mid_no_wrap:
  assumes "0 \<le> mn" and "mn \<le> mx" and "mx < 2 ^ 31"
  shows "intsetSearch_mid mn mx = (mn + mx) div 2"
proof -
  have "u32 mn + u32 mx = nat (mn + mx)"
    using assms by (simp add: u32_id nat_add_distrib)
  moreover have "nat (mn + mx) mod 2 ^ 32 = nat (mn + mx)"
    using assms by simp
  moreover have "nat (mn + mx) div 2 = nat ((mn + mx) div 2)"
    using assms by (simp add: nat_div_distrib)
  ultimately show ?thesis
    using assms by (simp add: s32_id intsetSearch_mid_def)
qed

text \<open>What a search that ends with \<open>mn\<close>, \<open>mid\<close>, \<open>cur\<close> has established about \<open>vs\<close>.\<close>

definition search_post :: "int list \<Rightarrow> int \<Rightarrow> int \<times> int \<times> int \<Rightarrow> bool" where
  "search_post vs v = (\<lambda>(mn, mid, cur).
     if cur = v then 0 \<le> mid \<and> mid < int (length vs) \<and> vs ! nat mid = v
     else 0 \<le> mn \<and> mn \<le> int (length vs) \<and> (\<forall>i < nat mn. vs ! i < v) \<and>
       (\<forall>i. nat mn \<le> i \<longrightarrow> i < length vs \<longrightarrow> v < vs ! i))"

lemma sorted_less_nth: "sorted_wrt (<) (vs :: int list) \<Longrightarrow> i < j \<Longrightarrow> j < length vs \<Longrightarrow> vs ! i < vs ! j"
  by (simp add: sorted_wrt_nth_less)

lemma intsetSearch_loop_correct:
  assumes "intset_rep is vs"
    and "0 \<le> mn" and "mx < int (length vs)" and "mn \<le> mx + 1"
    and "\<forall>i < nat mn. vs ! i < v"
    and "\<forall>i. mx < int i \<longrightarrow> i < length vs \<longrightarrow> v < vs ! i"
    and "mx < mn \<Longrightarrow> cur \<noteq> v"
  shows "\<exists>r. intsetSearch_loop is v mn mx mid cur = Some r \<and> search_post vs v r"
  using assms(2-)
proof (induction "nat (mx + 1 - mn)" arbitrary: mn mx mid cur rule: less_induct)
  case less
  note rep = intset_repD [OF assms(1)]
  show ?case
  proof (cases "mn \<le> mx")
    case False
    with less.prems show ?thesis
      by (auto simp: intsetSearch_loop.simps search_post_def)
  next
    case True
    define m where "m = (mn + mx) div 2"
    have m: "mn \<le> m" "m \<le> mx" "0 \<le> m" and ml: "nat m < length vs"
      using True less.prems by (auto simp: m_def)
    have mid: "intsetSearch_mid mn mx = m"
      unfolding m_def using True less.prems rep(3) by (intro mid_no_wrap) auto
    have get: "intsetGet_static is m = Some (vs ! nat m)"
      using Get_static_rep [OF assms(1) ml] m by simp
    have below: "vs ! i < vs ! nat m" if "i < nat m" for i
      using that ml rep(5) by (simp add: sorted_less_nth)
    have above: "vs ! nat m < vs ! i" if "m < int i" "i < length vs" for i
      using that m rep(5) by (intro sorted_less_nth) auto
    have unfold: "intsetSearch_loop is v mn mx mid cur =
      (if v > vs ! nat m then intsetSearch_loop is v (m + 1) mx m (vs ! nat m)
       else if v < vs ! nat m then intsetSearch_loop is v mn (m - 1) m (vs ! nat m)
       else Some (mn, m, vs ! nat m))"
      using True by (subst intsetSearch_loop.simps) (simp add: Let_def mid get)
    consider "v > vs ! nat m" | "v < vs ! nat m" | "v = vs ! nat m" by linarith
    then show ?thesis
    proof cases
      case 1
      have "\<forall>i < nat (m + 1). vs ! i < v"
      proof (intro allI impI)
        fix i assume "i < nat (m + 1)"
        then have "i < nat m \<or> i = nat m" using m by auto
        then show "vs ! i < v" using below [of i] 1 by auto
      qed
      moreover have "vs ! nat m \<noteq> v" using 1 by simp
      ultimately have "\<exists>r. intsetSearch_loop is v (m + 1) mx m (vs ! nat m) = Some r \<and> search_post vs v r"
        using m less.prems by (intro less.hyps) auto
      with 1 unfold show ?thesis by simp
    next
      case 2
      have "\<forall>i. m - 1 < int i \<longrightarrow> i < length vs \<longrightarrow> v < vs ! i"
      proof (intro allI impI)
        fix i assume "m - 1 < int i" "i < length vs"
        then have "m < int i \<or> i = nat m" by auto
        then show "v < vs ! i" using above [of i] \<open>i < length vs\<close> 2 by auto
      qed
      moreover have "vs ! nat m \<noteq> v" using 2 by simp
      ultimately have "\<exists>r. intsetSearch_loop is v mn (m - 1) m (vs ! nat m) = Some r \<and> search_post vs v r"
        using m less.prems by (intro less.hyps) auto
      with 2 unfold show ?thesis by simp
    next
      case 3
      then show ?thesis
        unfolding unfold using m ml by (auto simp: search_post_def)
    qed
  qed
qed

text \<open>The position a search reports: where the value is, or where it has to be inserted.\<close>

definition search_pos :: "int list \<Rightarrow> int \<Rightarrow> bool \<Rightarrow> nat \<Rightarrow> bool" where
  "search_pos vs v found pos \<longleftrightarrow>
     (if found then pos < length vs \<and> vs ! pos = v
      else pos \<le> length vs \<and> (\<forall>i < pos. vs ! i < v) \<and>
        (\<forall>i. pos \<le> i \<longrightarrow> i < length vs \<longrightarrow> v < vs ! i))"

lemma search_pos_found: "search_pos vs v found pos \<Longrightarrow> found \<longleftrightarrow> v \<in> set vs"
proof (cases found)
  case False
  assume "search_pos vs v found pos"
  with False have "vs ! i \<noteq> v" if "i < length vs" for i
    using that by (cases "i < pos") (force simp: search_pos_def not_less)+
  with False show ?thesis by (auto simp: in_set_conv_nth)
qed (auto simp: search_pos_def)

lemma intsetSearch_rep:
  assumes "intset_rep is vs"
  shows "\<exists>found pos. intsetSearch is v = Some (found, pos) \<and> search_pos vs v found pos"
proof (cases "vs = []")
  case True
  then show ?thesis
    using intset_repD(2) [OF assms]
    by (intro exI [of _ False] exI [of _ 0]) (simp add: intsetSearch_def search_pos_def)
next
  case False
  note rep = intset_repD [OF assms]
  let ?n = "length vs - 1"
  have n: "?n < length vs" "0 < length vs" using False by auto
  have mx: "s32 (u32 (int (is_length is) - 1)) = int ?n"
    using rep(2,3) n by (simp add: u32_id s32_id Suc_leI)
  have last: "intsetGet_static is (int ?n) = Some (vs ! ?n)"
    using Get_static_rep [OF assms n(1)] .
  have first: "intsetGet_static is 0 = Some (vs ! 0)"
    using Get_static_rep [OF assms n(2)] by simp
  have le_last: "vs ! i \<le> vs ! ?n" if "i < length vs" for i
  proof (cases "i = ?n")
    case False
    with that have "i < ?n" by arith
    then show ?thesis using n sorted_less_nth [OF rep(5), of i ?n] by simp
  qed simp
  have ge_first: "vs ! 0 \<le> vs ! i" if "i < length vs" for i
    using that sorted_less_nth [OF rep(5), of 0 i] by (cases "i = 0") auto
  consider "vs ! ?n < v" | "\<not> vs ! ?n < v" "v < vs ! 0" | "\<not> vs ! ?n < v" "\<not> v < vs ! 0" by blast
  then show ?thesis
  proof cases
    case 1
    then have "\<forall>i < length vs. vs ! i < v"
      using le_last by (meson le_less_trans)
    with 1 show ?thesis
      using False rep(2) mx last
      by (intro exI [of _ False] exI [of _ "length vs"]) (simp add: intsetSearch_def search_pos_def)
  next
    case 2
    then have "\<forall>i < length vs. v < vs ! i"
      using ge_first by (meson less_le_trans)
    with 2 show ?thesis
      using False rep(2) mx last first
      by (intro exI [of _ False] exI [of _ 0]) (simp add: intsetSearch_def search_pos_def)
  next
    case 3
    obtain mn mid cur where r: "intsetSearch_loop is v 0 (int ?n) (-1) (-1) = Some (mn, mid, cur)"
      and post: "search_post vs v (mn, mid, cur)"
      using intsetSearch_loop_correct [OF assms, of 0 "int ?n" v "-1" "-1"] n by auto
    have s: "intsetSearch is v = (if v = cur then Some (True, u32 mid) else Some (False, u32 mn))"
      using 3 False rep(2) mx last first r by (simp add: intsetSearch_def)
    have "u32 mid = nat mid" if "v = cur"
      using that post rep(3) by (intro u32_id) (auto simp: search_post_def)
    moreover have "u32 mn = nat mn" if "v \<noteq> cur"
      using that post rep(3) by (intro u32_id) (auto simp: search_post_def)
    ultimately have "search_pos vs v (v = cur) (if v = cur then u32 mid else u32 mn)"
      using post by (auto simp: search_post_def search_pos_def split: if_splits)
    with s show ?thesis by (cases "v = cur") auto
  qed
qed

section \<open>Insertion\<close>

lemma intsetResize_Some:
  assumes "len * is_encoding is < 2 ^ 33"
  shows "intsetResize al is len = Some (is\<lparr>is_contents := realloc al (len * is_encoding is) (is_contents is)\<rparr>)"
  using assms by (simp add: intsetResize_def Let_def)

lemma intsetMoveTail_view:
  assumes "valid_enc (is_encoding is)" and "view (is_encoding is) (is_contents is) vs"
    and "is_length is * is_encoding is < 2 ^ 32" and "src \<le> is_length is"
    and "is_length is \<le> length vs" and "dst + (is_length is - src) \<le> length vs"
  obtains b where "intsetMoveTail is src dst = Some (is\<lparr>is_contents := b\<rparr>)"
    and "view (is_encoding is) b
      (take dst vs @ take (is_length is - src) (drop src vs) @ drop (dst + (is_length is - src)) vs)"
    and "length b = length (is_contents is)"
proof -
  let ?e = "is_encoding is" and ?k = "is_length is - src"
  have e: "0 < ?e" using assms(1) by (rule valid_enc_pos)
  have ke: "?k * ?e < 2 ^ 32"
    by (rule le_less_trans [OF mult_le_mono1 assms(3)]) simp
  have "?k \<le> ?k * ?e" using e by simp
  then have k: "?k < 2 ^ 32" using ke by linarith
  have b1: "u32 (int (is_length is) - int src) = ?k"
    using k assms(4) u32_of_nat [of ?k] by simp
  have b2: "u32 (int ?k * int ?e) = ?k * ?e"
    using u32_of_nat [OF ke] by simp
  have w: "(if ?e = 8 then 8 else if ?e = 4 then 4 else 2) = ?e"
    using assms(1) by (auto elim!: valid_enc_cases)
  obtain b where b: "memmove (is_contents is) (dst * ?e) (src * ?e) (?k * ?e) = Some b"
    "length b = length (is_contents is)"
    "view ?e b (take dst vs @ take ?k (drop src vs) @ drop (dst + ?k) vs)"
    using view_memmove [OF e assms(2), of src ?k dst] assms(4-6) by auto
  then have "intsetMoveTail is src dst = Some (is\<lparr>is_contents := b\<rparr>)"
    using b1 b2 w by (simp add: intsetMoveTail_def Let_def)
  then show ?thesis using that b by blast
qed

lemma sorted_insert_at:
  assumes "sorted_wrt (<) (vs :: int list)" and "search_pos vs v False pos"
  shows "sorted_wrt (<) (take pos vs @ v # drop pos vs)"
proof -
  have "x < v" if "x \<in> set (take pos vs)" for x
    using that assms(2) by (auto simp: search_pos_def in_set_conv_nth)
  moreover have "v < x" if "x \<in> set (drop pos vs)" for x
    using that assms(2) by (auto simp: search_pos_def in_set_conv_nth)
  moreover have "sorted_wrt (<) (take pos vs @ drop pos vs)"
    using assms(1) by simp
  ultimately show ?thesis
    by (force simp: sorted_wrt_append simp del: append_take_drop_id)
qed

lemma set_insert_at: "set (take pos vs @ v # drop pos vs) = insert v (set vs)"
  by (metis append_take_drop_id list.set(2) set_append Un_insert_right)

text \<open>Insertion into a set whose encoding is wide enough.\<close>

lemma intsetAdd_inplace:
  assumes rep: "intset_rep is vs" and room: "intset_room is"
    and enc: "fits (is_encoding is) v" "intsetValueEncoding v \<le> is_encoding is"
    and search: "intsetSearch is v = Some (False, pos)" and sp: "search_pos vs v False pos"
  shows "\<exists>is'. intsetAdd al is v = Some (is', True) \<and> intset_rep is' (take pos vs @ v # drop pos vs)"
proof -
  let ?e = "is_encoding is" and ?n = "length vs"
  note r = intset_repD [OF rep]
  have e8: "?e \<le> 8" using r(1) by (auto elim!: valid_enc_cases)
  have ne: "(?n + 1) * ?e < 2 ^ 32"
    using room r(2) mult_le_mono2 [OF e8, of "?n + 1"] by (simp add: intset_room_def)
  have n31: "?n + 1 < 2 ^ 31" using room r(2) by (simp add: intset_room_def)
  have pos: "pos \<le> ?n" using sp by (simp add: search_pos_def)
  define b1 where "b1 = realloc al ((?n + 1) * ?e) (is_contents is)"
  define is1 where "is1 = is\<lparr>is_contents := b1\<rparr>"
  have u: "u32 (int ?n + 1) = ?n + 1" using n31 by (simp add: u32_id nat_add_distrib)
  have res: "intsetResize al is (Suc ?n) = Some is1"
    using ne by (simp add: intsetResize_Some b1_def is1_def)
  have v1: "view ?e b1 vs"
    unfolding b1_def by (rule view_realloc [OF r(4)]) simp
  obtain ws where ws: "length ws = ?n + 1 - ?n" "view ?e b1 (vs @ ws)"
    using view_extend [OF r(8) v1, of "?n + 1"] length_realloc_ge [of "(?n + 1) * ?e" al "is_contents is"]
    unfolding b1_def by auto
  then obtain j where j: "view ?e b1 (vs @ [j])"
    by (auto simp: length_Suc_conv)
  obtain b2 us where m: "(if pos < is_length is1 then intsetMoveTail is1 pos (u32 (int pos + 1)) else Some is1)
      = Some (is1\<lparr>is_contents := b2\<rparr>)"
    and v2: "view ?e b2 (take pos vs @ us # drop pos vs)"
  proof (cases "pos < ?n")
    case True
    then have up: "u32 (int pos + 1) = pos + 1"
      using n31 by (simp add: u32_id nat_add_distrib)
    obtain b where b: "intsetMoveTail is1 pos (pos + 1) = Some (is1\<lparr>is_contents := b\<rparr>)"
      "view ?e b (take (pos + 1) (vs @ [j]) @ take (?n - pos) (drop pos (vs @ [j])) @ drop (pos + 1 + (?n - pos)) (vs @ [j]))"
      using intsetMoveTail_view [of is1 "vs @ [j]" pos "pos + 1"] r j True unfolding is1_def by auto
    have "take (pos + 1) (vs @ [j]) @ take (?n - pos) (drop pos (vs @ [j])) @ drop (pos + 1 + (?n - pos)) (vs @ [j])
      = take pos vs @ vs ! pos # drop pos vs"
      using True by (simp add: take_Suc_conv_app_nth)
    with b show ?thesis
      using that [of b "vs ! pos"] True up r(2) by (simp add: is1_def)
  next
    case False
    with pos j show ?thesis
      using that [of b1 j] r(2) by (simp add: is1_def)
  qed
  have pl: "pos < Suc ?n" using pos by simp
  obtain b3 where s: "intsetSet_static (is1\<lparr>is_contents := b2\<rparr>) (int pos) v = Some (is1\<lparr>is_contents := b3\<rparr>)"
    and v3: "view ?e b3 ((take pos vs @ us # drop pos vs)[pos := v])"
    using Set_static_view [of "is1\<lparr>is_contents := b2\<rparr>" "take pos vs @ us # drop pos vs" pos v] r(1) v2 pl enc(1)
    unfolding is1_def by auto
  have upd: "(take pos vs @ us # drop pos vs)[pos := v] = take pos vs @ v # drop pos vs"
    using pos by (simp add: list_update_append)
  define is' where "is' = is\<lparr>is_contents := b3, is_length := ?n + 1\<rparr>"
  have "intsetAdd al is v = Some (is', True)"
    using enc(2) search n31 pos u r(2)
    by (simp add: intsetAdd_def res m s s32_id is'_def not_less split del: if_split) (simp add: is1_def)
  moreover have "intset_rep is' (take pos vs @ v # drop pos vs)"
    using r v3 upd ne pos sorted_insert_at [OF r(5) sp] by (auto simp: intset_rep_def is'_def min_def)
  ultimately show ?thesis by blast
qed

text \<open>Upgrading in place, from the back: the records still to be read are never overwritten.\<close>

lemma intsetUpgrade_loop_view:
  assumes "valid_enc c" and "valid_enc (is_encoding is)" and "c \<le> is_encoding is"
    and "k \<le> length vs" and "view c (is_contents is) (take k vs)"
    and "(length vs + 1) * is_encoding is \<le> length (is_contents is)" and "p \<le> 1"
    and "\<forall>i. k \<le> i \<longrightarrow> i < length vs \<longrightarrow> chunk (is_encoding is) (is_contents is) (i + p) = int_le (is_encoding is) (vs ! i)"
    and "\<forall>x \<in> set vs. fits (is_encoding is) x"
  shows "\<exists>b. intsetUpgrade_loop is c p k = Some (is\<lparr>is_contents := b\<rparr>) \<and> length b = length (is_contents is) \<and>
    (\<forall>i < length vs. chunk (is_encoding is) b (i + p) = int_le (is_encoding is) (vs ! i))"
  using assms(2-)
proof (induction k arbitrary: "is")
  case 0
  then show ?case by (intro exI [of _ "is_contents is"]) simp
next
  case (Suc k)
  let ?N = "is_encoding is" and ?b = "is_contents is"
  have get: "intsetGetEncoded is (int k) c = Some (vs ! k)"
    using GetEncoded_view [OF assms(1) Suc.prems(4), of k] Suc.prems(3) by simp
  define us where "us = map (\<lambda>i. le_int (chunk ?N ?b i)) [0..<length vs + 1]"
  have us: "view ?N ?b us" "length us = length vs + 1"
    using view_exists [OF valid_enc_pos [OF Suc.prems(1)] Suc.prems(5)] by (simp_all add: us_def)
  obtain b where s: "intsetSet_static is (int (k + p)) (vs ! k) = Some (is\<lparr>is_contents := b\<rparr>)"
    and v: "view ?N b (us[k + p := vs ! k])" and l: "length b = length ?b"
    and tk: "take ((k + p) * ?N) b = take ((k + p) * ?N) ?b"
    using Set_static_view [OF Suc.prems(1) us(1), of "k + p" "vs ! k"] Suc.prems(3,6,8) us(2) by auto
  have kc: "k * c \<le> (k + p) * ?N"
    using Suc.prems(2) by (simp add: mult_le_mono)
  have lc: "k * c \<le> length ?b"
    using view_length [OF Suc.prems(4)] Suc.prems(3) by simp
  have "view c b (take k vs)"
  proof (rule view_cong)
    show "view c ?b (take k vs)"
      using view_take [OF Suc.prems(4), of k] by simp
  qed (use kc tk l lc Suc.prems(3) in auto)
  moreover have "chunk ?N b (i + p) = int_le ?N (vs ! i)" if "k \<le> i" "i < length vs" for i
  proof -
    have "chunk ?N b (i + p) = int_le ?N (us[k + p := vs ! k] ! (i + p))"
      using viewD [OF v, of "i + p"] that us(2) Suc.prems(6) by simp
    also have "\<dots> = int_le ?N (vs ! i)"
      using that Suc.prems(6,7) us(2) viewD [OF us(1), of "i + p"] by (cases "i = k") auto
    finally show ?thesis .
  qed
  ultimately obtain b' where "intsetUpgrade_loop (is\<lparr>is_contents := b\<rparr>) c p k = Some (is\<lparr>is_contents := b'\<rparr>)"
    and "length b' = length b" and "\<forall>i < length vs. chunk ?N b' (i + p) = int_le ?N (vs ! i)"
    using Suc.IH [of "is\<lparr>is_contents := b\<rparr>"] Suc.prems l by auto
  with get s l show ?case by auto
qed

lemma intsetUpgradeAndAdd_rep:
  assumes rep: "intset_rep is vs" and room: "intset_room is"
    and v: "is_int64 v" and enc: "is_encoding is < intsetValueEncoding v"
  shows "\<exists>is'. intsetUpgradeAndAdd al is v = Some is' \<and>
    intset_rep is' (if v < 0 then v # vs else vs @ [v])"
proof -
  let ?c = "is_encoding is" and ?N = "intsetValueEncoding v" and ?n = "length vs"
  let ?p = "if v < 0 then 1 else 0 :: nat"
  note r = intset_repD [OF rep]
  have N: "valid_enc ?N" "fits ?N v" "0 < ?N"
    using v fits_iff_ValueEncoding [of v ?N] valid_enc_pos [of ?N] by auto
  have N8: "?N \<le> 8" by (simp add: intsetValueEncoding_def)
  have nN: "(?n + 1) * ?N < 2 ^ 32"
    using room r(2) mult_le_mono2 [OF N8, of "?n + 1"] by (simp add: intset_room_def)
  have n31: "?n + 1 < 2 ^ 31" using room r(2) by (simp add: intset_room_def)
  have u: "u32 (int ?n + 1) = Suc ?n" using n31 by (simp add: u32_id nat_add_distrib)
  have old: "fits ?N x \<and> (if v < 0 then v < x else x < v)" if "x \<in> set vs" for x
  proof -
    have "fits ?c x" "\<not> fits ?c v"
      using view_fits [OF r(4) that] fits_iff_ValueEncoding [OF v r(1)] enc by auto
    then show ?thesis
      using r(1) N(1,2) enc by (auto simp: fits_def elim!: valid_enc_cases)
  qed
  define b1 where "b1 = realloc al ((?n + 1) * ?N) (is_contents is)"
  define is1 where "is1 = is\<lparr>is_encoding := ?N, is_contents := b1\<rparr>"
  have res: "intsetResize al (is\<lparr>is_encoding := ?N\<rparr>) (Suc ?n) = Some is1"
    using nN by (simp add: intsetResize_Some b1_def is1_def)
  have "?n * ?c \<le> (?n + 1) * ?N" using enc by (intro mult_le_mono) auto
  then have "view ?c b1 (take ?n vs)"
    unfolding b1_def using view_realloc [OF r(4)] by simp
  moreover have lb: "(?n + 1) * ?N \<le> length b1"
    unfolding b1_def by (rule length_realloc_ge)
  ultimately have "\<exists>b. intsetUpgrade_loop is1 ?c ?p ?n = Some (is1\<lparr>is_contents := b\<rparr>) \<and>
    length b = length (is_contents is1) \<and>
    (\<forall>i < ?n. chunk (is_encoding is1) b (i + ?p) = int_le (is_encoding is1) (vs ! i))"
    using r(1) enc old by (intro intsetUpgrade_loop_view) (auto simp: is1_def)
  then obtain b2 where lp: "intsetUpgrade_loop is1 ?c ?p ?n = Some (is1\<lparr>is_contents := b2\<rparr>)"
    and l2: "length b2 = length b1"
    and ch: "\<forall>i < ?n. chunk ?N b2 (i + ?p) = int_le ?N (vs ! i)"
    by (auto simp: is1_def)
  define us where "us = map (\<lambda>i. le_int (chunk ?N b2 i)) [0..<?n + 1]"
  have us: "view ?N b2 us" "length us = ?n + 1"
    using view_exists [OF N(3), of "?n + 1" b2] lb l2 by (simp_all add: us_def)
  have nth: "us ! (i + ?p) = vs ! i" if "i < ?n" for i
    using that ch old [of "vs ! i"] N by (auto simp: us_def le_int_int_le simp del: upt_Suc)
  define q where "q = (if v < 0 then 0 else ?n)"
  have q: "q < Suc ?n" by (simp add: q_def)
  obtain b3 where s: "intsetSet_static (is1\<lparr>is_contents := b2\<rparr>) (int q) v = Some (is1\<lparr>is_contents := b3\<rparr>)"
    and v3: "view ?N b3 (us[q := v])"
    using Set_static_view [of "is1\<lparr>is_contents := b2\<rparr>" us q v] N us q unfolding is1_def by auto
  have usq: "us[q := v] = (if v < 0 then v # vs else vs @ [v])"
  proof (cases "v < 0")
    case True
    with nth have "us ! Suc i = vs ! i" if "i < ?n" for i using that by fastforce
    then have "us = us ! 0 # vs"
      using us(2) by (intro nth_equalityI) (auto simp: nth_Cons split: nat.split)
    with True show ?thesis by (metis q_def list_update_code(2))
  next
    case False
    with nth have "us ! i = vs ! i" if "i < ?n" for i using that by fastforce
    then have "us = vs @ [us ! ?n]"
      using us(2) by (intro nth_equalityI) (auto simp: nth_append less_Suc_eq)
    with False show ?thesis by (metis q_def list_update_length)
  qed
  define is' where "is' = is1\<lparr>is_contents := b3, is_length := Suc ?n\<rparr>"
  have "intsetUpgradeAndAdd al is v = Some is'"
    using lp s r(2) u n31
    by (auto simp: intsetUpgradeAndAdd_def Let_def res s32_id q_def is'_def is1_def split: if_splits)
  moreover have "intset_rep is' (if v < 0 then v # vs else vs @ [v])"
    using N nN v3 r(5) old unfolding usq by (auto simp: intset_rep_def is'_def is1_def sorted_wrt_append)
  ultimately show ?thesis by blast
qed

lemma intsetAdd_rep:
  assumes rep: "intset_rep is vs" and v: "is_int64 v"
    and room: "v \<notin> set vs \<Longrightarrow> intset_room is"
  shows "\<exists>is' vs'. intsetAdd al is v = Some (is', v \<notin> set vs) \<and> intset_rep is' vs' \<and>
    set vs' = insert v (set vs)"
proof (cases "is_encoding is < intsetValueEncoding v")
  case True
  have nin: "v \<notin> set vs"
    using True view_fits [OF intset_repD(4) [OF rep]] fits_iff_ValueEncoding [OF v intset_repD(1) [OF rep]]
    by force
  obtain is' where "intsetUpgradeAndAdd al is v = Some is'"
    and "intset_rep is' (if v < 0 then v # vs else vs @ [v])"
    using intsetUpgradeAndAdd_rep [OF rep room [OF nin] v True] by blast
  with nin show ?thesis
    using True by (intro exI [of _ is'] exI [of _ "if v < 0 then v # vs else vs @ [v]"]) (simp add: intsetAdd_def)
next
  case False
  obtain found pos where s: "intsetSearch is v = Some (found, pos)" "search_pos vs v found pos"
    using intsetSearch_rep [OF rep] by blast
  show ?thesis
  proof (cases found)
    case True
    with s False show ?thesis
      using rep search_pos_found [OF s(2)] by (intro exI [of _ "is"] exI [of _ vs]) (auto simp: intsetAdd_def)
  next
    case nf: False
    have "fits (is_encoding is) v"
      using False fits_iff_ValueEncoding [OF v intset_repD(1) [OF rep]] by simp
    moreover have "intset_room is"
      using nf search_pos_found [OF s(2)] room by blast
    ultimately obtain is' where "intsetAdd al is v = Some (is', True)"
      "intset_rep is' (take pos vs @ v # drop pos vs)"
      using intsetAdd_inplace [OF rep, of v pos] nf False s by auto
    then show ?thesis
      using search_pos_found [OF s(2)] nf set_insert_at [of pos vs v] by auto
  qed
qed

section \<open>Removal and lookup\<close>

lemma sorted_delete_at:
  "sorted_wrt (<) (vs :: int list) \<Longrightarrow> sorted_wrt (<) (take pos vs @ drop (Suc pos) vs)"
proof -
  assume s: "sorted_wrt (<) vs"
  then have "sorted_wrt (<) (take pos vs @ drop pos vs)" by simp
  moreover have "set (drop (Suc pos) vs) \<subseteq> set (drop pos vs)"
    by (simp add: set_drop_subset_set_drop)
  ultimately show ?thesis
    using s sorted_wrt_drop [OF s, of "Suc pos"]
    by (auto simp: sorted_wrt_append simp del: append_take_drop_id)
qed

lemma set_delete_at:
  assumes "distinct vs" and "pos < length vs"
  shows "set (take pos vs @ drop (Suc pos) vs) = set vs - {vs ! pos}"
proof -
  have "vs = take pos vs @ vs ! pos # drop (Suc pos) vs"
    using assms(2) by (rule id_take_nth_drop)
  then show ?thesis
    using assms(1) by (metis Diff_insert_absorb Un_insert_right distinct_append distinct.simps(2)
        list.simps(15) not_distinct_conv_prefix set_append Un_iff)
qed

lemma intsetRemove_found:
  assumes rep: "intset_rep is vs" and enc: "intsetValueEncoding v \<le> is_encoding is"
    and search: "intsetSearch is v = Some (True, pos)" and pos: "pos < length vs"
  shows "\<exists>is'. intsetRemove al is v = Some (is', True) \<and> intset_rep is' (take pos vs @ drop (Suc pos) vs)"
proof -
  let ?e = "is_encoding is" and ?n = "length vs" and ?ws = "take pos vs @ drop (Suc pos) vs"
  note r = intset_repD [OF rep]
  have "int ?n - 1 = int (?n - 1)" using pos by auto
  then have u1: "u32 (int ?n - 1) = ?n - 1" and u2: "u32 (int pos + 1) = pos + 1"
    using pos r(3) u32_of_nat [of "?n - 1"] by (auto simp: u32_id nat_add_distrib)
  obtain b ys where m: "(if pos < ?n - 1 then intsetMoveTail is (u32 (int pos + 1)) pos else Some is)
      = Some (is\<lparr>is_contents := b\<rparr>)" and v1: "view ?e b (?ws @ ys)"
  proof (cases "pos < ?n - 1")
    case True
    obtain b where b: "intsetMoveTail is (pos + 1) pos = Some (is\<lparr>is_contents := b\<rparr>)"
      "view ?e b (take pos vs @ take (?n - (pos + 1)) (drop (pos + 1) vs) @ drop (pos + (?n - (pos + 1))) vs)"
      using intsetMoveTail_view [OF r(1,4), of "pos + 1" pos] r(2,7) Suc_leI [OF pos] by auto
    with True show ?thesis
      using that [of b "drop (pos + (?n - (pos + 1))) vs"] u2 by simp
  next
    case False
    with pos have "vs = take pos vs @ drop (Suc pos) vs @ [vs ! pos]"
      using id_take_nth_drop [OF pos] by simp
    with r(4) have "view ?e (is_contents is) (?ws @ [vs ! pos])" by simp
    with False show ?thesis
      using that [of "is_contents is" "[vs ! pos]"] by simp
  qed
  have le: "(?n - 1) * ?e < 2 ^ 32"
    by (rule le_less_trans [OF mult_le_mono1 r(7)]) simp
  define b' where "b' = realloc al ((?n - 1) * ?e) b"
  define is' where "is' = is\<lparr>is_contents := b', is_length := ?n - 1\<rparr>"
  have "intsetResize al (is\<lparr>is_contents := b\<rparr>) (?n - 1) = Some (is\<lparr>is_contents := b'\<rparr>)"
    using le r(7) by (simp add: intsetResize_Some b'_def)
  then have "intsetRemove al is v = Some (is', True)"
    using enc search m u1 u2 r(2) by (simp add: intsetRemove_def is'_def Let_def split del: if_split)
  moreover have "view ?e b ?ws"
    using v1 by (rule view_appendD1)
  then have "view ?e b' ?ws"
    unfolding b'_def using pos by (intro view_realloc) auto
  then have "intset_rep is' ?ws"
    using r le pos sorted_delete_at [OF r(5), of pos] by (auto simp: intset_rep_def is'_def min_def)
  ultimately show ?thesis by blast
qed

lemma intsetRemove_rep:
  assumes rep: "intset_rep is vs" and v: "is_int64 v"
  shows "\<exists>is' vs'. intsetRemove al is v = Some (is', v \<in> set vs) \<and> intset_rep is' vs' \<and>
    set vs' = set vs - {v}"
proof (cases "intsetValueEncoding v \<le> is_encoding is")
  case False
  then have "v \<notin> set vs"
    using view_fits [OF intset_repD(4) [OF rep]] fits_iff_ValueEncoding [OF v intset_repD(1) [OF rep]] by blast
  then show ?thesis
    using False rep by (intro exI [of _ "is"] exI [of _ vs]) (simp add: intsetRemove_def)
next
  case True
  obtain found pos where s: "intsetSearch is v = Some (found, pos)" "search_pos vs v found pos"
    using intsetSearch_rep [OF rep] by blast
  show ?thesis
  proof (cases found)
    case False
    then show ?thesis
      using s True rep search_pos_found [OF s(2)]
      by (intro exI [of _ "is"] exI [of _ vs]) (auto simp: intsetRemove_def)
  next
    case f: True
    then have pos: "pos < length vs" "vs ! pos = v" using s(2) by (auto simp: search_pos_def)
    obtain is' where "intsetRemove al is v = Some (is', True)" "intset_rep is' (take pos vs @ drop (Suc pos) vs)"
      using intsetRemove_found [OF rep True _ pos(1)] s f by auto
    then show ?thesis
      using set_delete_at [OF intset_repD(6) [OF rep] pos(1)] pos f search_pos_found [OF s(2)] by auto
  qed
qed

lemma intsetFind_rep:
  assumes "intset_rep is vs" and "is_int64 v"
  shows "intsetFind is v = Some (v \<in> set vs)"
proof (cases "intsetValueEncoding v \<le> is_encoding is")
  case True
  with intsetSearch_rep [OF assms(1), of v] show ?thesis
    by (auto simp: intsetFind_def dest: search_pos_found)
next
  case False
  then show ?thesis
    using view_fits [OF intset_repD(4) [OF assms(1)]] fits_iff_ValueEncoding [OF assms(2) intset_repD(1) [OF assms(1)]]
    by (auto simp: intsetFind_def)
qed

lemma intsetNew_rep: "intset_rep (intsetNew al) []"
  by (simp add: intset_rep_def intsetNew_def valid_enc_def)

section \<open>The abstract set\<close>

text \<open>The integers an intset holds, in order, and its invariant.\<close>

definition intset_vals :: "intset \<Rightarrow> int list" where
  "intset_vals is = map (\<lambda>i. le_int (chunk (is_encoding is) (is_contents is) i)) [0..<is_length is]"

definition intset_ok :: "intset \<Rightarrow> bool" where
  "intset_ok is \<longleftrightarrow> intset_rep is (intset_vals is)"

lemma intset_rep_vals: "intset_rep is vs \<Longrightarrow> intset_vals is = vs"
proof (rule view_inj [of "is_encoding is" "is_contents is"])
  assume rep: "intset_rep is vs"
  note r = intset_repD [OF this]
  show "0 < is_encoding is" "view (is_encoding is) (is_contents is) vs"
    "length (intset_vals is) = length vs"
    using r by (simp_all add: intset_vals_def)
  show "view (is_encoding is) (is_contents is) (intset_vals is)"
    unfolding intset_vals_def using r(2,8) view_length [OF r(4)] by (intro view_exists) auto
qed

lemma intset_okI: "intset_rep is vs \<Longrightarrow> intset_ok is"
  by (simp add: intset_ok_def intset_rep_vals)

lemma intset_repE: "intset_rep is vs \<Longrightarrow> intset_ok is \<and> intset_vals is = vs"
  by (simp add: intset_okI intset_rep_vals)

text \<open>The interface that a user of an integer set relies on.\<close>

locale int_set =
  fixes new :: 's
    and add :: "'s \<Rightarrow> int \<Rightarrow> ('s \<times> bool) option"
    and remove :: "'s \<Rightarrow> int \<Rightarrow> ('s \<times> bool) option"
    and find :: "'s \<Rightarrow> int \<Rightarrow> bool option"
    and members :: "'s \<Rightarrow> int set"
    and invar :: "'s \<Rightarrow> bool"
    and capacity :: nat
  assumes new_spec: "invar new \<and> members new = {}"
    and finite_members: "invar s \<Longrightarrow> finite (members s)"
    and add_spec: "invar s \<Longrightarrow> card (insert v (members s)) \<le> capacity \<Longrightarrow> is_int64 v \<Longrightarrow>
      \<exists>s'. add s v = Some (s', v \<notin> members s) \<and> invar s' \<and> members s' = insert v (members s)"
    and remove_spec: "invar s \<Longrightarrow> is_int64 v \<Longrightarrow>
      \<exists>s'. remove s v = Some (s', v \<in> members s) \<and> invar s' \<and> members s' = members s - {v}"
    and find_spec: "invar s \<Longrightarrow> is_int64 v \<Longrightarrow> find s v = Some (v \<in> members s)"

text \<open>Adding several values one after the other, counting the new ones.\<close>

primrec add_all :: "('s \<Rightarrow> int \<Rightarrow> ('s \<times> bool) option) \<Rightarrow> 's \<Rightarrow> int list \<Rightarrow> ('s \<times> nat) option" where
  "add_all f s [] = Some (s, 0)"
| "add_all f s (v # vs) = do {
     (s', new) \<leftarrow> f s v;
     (s'', n) \<leftarrow> add_all f s' vs;
     Some (s'', n + (if new then 1 else 0)) }"

context int_set begin

lemma add_all_spec:
  assumes "invar s" and "card (members s \<union> set vs) \<le> capacity" and "list_all is_int64 vs"
  shows "\<exists>s'. add_all add s vs = Some (s', card (members s \<union> set vs) - card (members s)) \<and> invar s' \<and>
    members s' = members s \<union> set vs"
  using assms
proof (induction vs arbitrary: s)
  case Nil
  then show ?case by simp
next
  case (Cons v vs)
  let ?M = "members s" and ?U = "members s \<union> set (v # vs)"
  have fin: "finite ?M" "finite ?U" using Cons.prems(1) by (auto simp: finite_members)
  have sub: "card (insert v ?M) \<le> card ?U" by (rule card_mono [OF fin(2)]) auto
  obtain s' where s': "add s v = Some (s', v \<notin> ?M)" "invar s'" "members s' = insert v ?M"
    using add_spec [of s v] Cons.prems sub by auto
  obtain s'' where "add_all add s' vs = Some (s'', card ?U - card (insert v ?M))" "invar s''" "members s'' = ?U"
    using Cons.IH [OF s'(2)] s'(3) Cons.prems by auto
  with s' show ?case
    using sub fin(1) by (auto simp: card_insert_if)
qed

end

text \<open>The capacity of an intset: beyond it, 64-bit records no longer have a 32-bit byte size.\<close>

abbreviation intset_capacity :: nat where "intset_capacity \<equiv> 2 ^ 29 - 1"

text \<open>The interface holds for the C code's operations, for every allocator.\<close>

lemma intset_room_card:
  assumes "intset_ok is" and "v \<notin> set (intset_vals is)"
    and "card (insert v (set (intset_vals is))) \<le> intset_capacity"
  shows "intset_room is"
proof -
  note r = intset_repD [OF assms(1) [unfolded intset_ok_def]]
  have "card (set (intset_vals is)) = is_length is"
    using r(2,6) by (simp add: distinct_card)
  then show ?thesis
    using assms(2,3) by (simp add: intset_room_def)
qed

interpretation iset: int_set "intsetNew al" "intsetAdd al" "intsetRemove al" intsetFind
  "\<lambda>is. set (intset_vals is)" intset_ok intset_capacity
  for al :: allocator
proof (unfold_locales, goal_cases)
  case 1
  then show ?case using intset_repE [OF intsetNew_rep] by simp
next
  case 2
  then show ?case by simp
next
  case (3 "is" v)
  then obtain is' vs' where "intsetAdd al is v = Some (is', v \<notin> set (intset_vals is))"
    "intset_rep is' vs'" "set vs' = insert v (set (intset_vals is))"
    using intsetAdd_rep [OF 3(1) [unfolded intset_ok_def] 3(3) intset_room_card [OF 3(1) _ 3(2)]] by blast
  then show ?case by (auto dest!: intset_repE)
next
  case (4 "is" v)
  then show ?case
    using intsetRemove_rep [OF 4(1) [unfolded intset_ok_def], of v al]
    by (auto dest!: intset_repE)
next
  case (5 "is" v)
  then show ?case by (simp add: intsetFind_rep intset_ok_def)
qed

section \<open>Validation of a serialised set\<close>




section \<open>Properties\<close>

text \<open>A concrete set for the witnesses: \<open>{-7, 5}\<close> in 16-bit records.\<close>

definition demo_intset :: intset where
  "demo_intset = \<lparr>is_encoding = 2, is_length = 2, is_contents = [249, 255, 5, 0]\<rparr>"

lemma demo_vals: "intset_vals demo_intset = [-7, 5]"
  by (simp add: intset_vals_def demo_intset_def chunk_def le_int_def Let_def upt_conv_Cons)

lemma demo_ok: "intset_ok demo_intset"
  by (simp add: intset_ok_def demo_vals intset_rep_def)
    (simp add: demo_intset_def valid_enc_def view_def fits_def chunk_def int_le_def less_Suc_eq nat_le_numeral)


text \<open>C24: inserting a 64-bit integer into a well-formed set of fewer than \<open>2 ^ 29 - 1\<close> members
  never fails, never touches memory outside the allocation, reports whether the value is new,
  and yields a well-formed (sorted, duplicate-free, minimally encodable) set with exactly that
  value added, also when every record has to be rewritten in a wider encoding.\<close>

theorem intset_add_correct:
  assumes "intset_ok is" and "is_int64 v" and "card (insert v (set (intset_vals is))) \<le> intset_capacity"
  shows "\<exists>is'. intsetAdd al is v = Some (is', v \<notin> set (intset_vals is)) \<and> intset_ok is' \<and>
    set (intset_vals is') = insert v (set (intset_vals is))"
  using assms by (intro iset.add_spec)

theorem intset_add_correct_witness:
  "intset_ok demo_intset \<and> is_int64 70000 \<and>
   (\<exists>is'. intsetAdd exact_allocator demo_intset 70000 = Some (is', True) \<and> intset_ok is' \<and>
     set (intset_vals is') = {70000, -7, 5})"
  using intset_add_correct [of demo_intset 70000 exact_allocator] demo_ok
  by (simp add: demo_vals is_int64_def)

text \<open>C35: removing a value never fails, reports whether it was present, and yields a
  well-formed set with exactly that value removed.\<close>

theorem intset_remove_correct:
  assumes "intset_ok is" and "is_int64 v"
  shows "\<exists>is'. intsetRemove al is v = Some (is', v \<in> set (intset_vals is)) \<and> intset_ok is' \<and>
    set (intset_vals is') = set (intset_vals is) - {v}"
  using assms by (rule iset.remove_spec)

theorem intset_remove_correct_witness:
  "intset_ok demo_intset \<and> is_int64 (-7) \<and>
   (\<exists>is'. intsetRemove exact_allocator demo_intset (-7) = Some (is', True) \<and> intset_ok is' \<and>
     set (intset_vals is') = {5})"
  using intset_remove_correct [of demo_intset "-7" exact_allocator] demo_ok
  by (simp add: demo_vals is_int64_def)

text \<open>adding any list of 64-bit integers one by one to a new set succeeds, counts the
  distinct values, and afterwards a lookup answers membership exactly.\<close>

theorem intset_add_all_find:
  assumes "list_all is_int64 vs" and "card (set vs) \<le> intset_capacity" and "is_int64 v"
  shows "\<exists>is. add_all (intsetAdd al) (intsetNew al) vs = Some (is, card (set vs)) \<and>
    intsetFind is v = Some (v \<in> set vs)"
proof -
  note new = iset.new_spec [of al]
  obtain "is" where "add_all (intsetAdd al) (intsetNew al) vs = Some (is, card (set vs))"
    and "intset_ok is" and "set (intset_vals is) = set vs"
    using iset.add_all_spec [of "intsetNew al" vs al] new assms by auto
  with assms(3) show ?thesis
    by (simp add: iset.find_spec)
qed

theorem intset_add_all_find_witness:
  "\<exists>is. add_all (intsetAdd exact_allocator) (intsetNew exact_allocator) [3, -5000000000, 3, 70000] = Some (is, 3) \<and>
    intsetFind is 70000 = Some True"
  using intset_add_all_find [of "[3, -5000000000, 3, 70000]" 70000 exact_allocator]
  by (simp add: is_int64_def card_insert_if numeral_3_eq_3 del: add_all.simps)



text \<open>C40: the byte count of a tail move is computed in 32 bits. For a set of 64-bit records with
  \<open>2 ^ 29\<close> of them behind the insertion point, the count is 0 and nothing is moved, although
  the configuration admits sets of up to \<open>2 ^ 30\<close> members.\<close>

theorem intset_move_tail_wraps:
  assumes "is_encoding is = 8" and "is_length is = from + 2 ^ 29" and "from * 8 \<le> length (is_contents is)"
    and "(from + 1) * 8 \<le> length (is_contents is)"
  shows "intsetMoveTail is from (from + 1) = Some is"
proof -
  have "u32 (int (u32 (int (is_length is) - int from)) * 8) = 0"
    using assms(2) by (simp add: u32_def)
  then show ?thesis
    using assms by (simp add: intsetMoveTail_def Let_def memmove_def rd_def wr_def)
qed

theorem intset_move_tail_wraps_witness:
  "intsetMoveTail \<lparr>is_encoding = 8, is_length = 2 ^ 29, is_contents = [1, 2, 3, 4, 5, 6, 7, 8]\<rparr> 0 1 =
   Some \<lparr>is_encoding = 8, is_length = 2 ^ 29, is_contents = [1, 2, 3, 4, 5, 6, 7, 8]\<rparr>"
  using intset_move_tail_wraps [of "\<lparr>is_encoding = 8, is_length = 2 ^ 29, is_contents = [1, 2, 3, 4, 5, 6, 7, 8]\<rparr>" 0]
  by simp

end
