(* ===== verification/Util_Numbers.thy ===== *)
theory Util_Numbers
  imports Valkey_Prelude
begin

text \<open>
  Number formatting and parsing of \<^verbatim>\<open>util.c\<close>: \<^verbatim>\<open>digits10\<close>, \<^verbatim>\<open>sdigits10\<close>, \<^verbatim>\<open>ull2string\<close>,
  \<^verbatim>\<open>ll2string\<close>, \<^verbatim>\<open>string2ll\<close>, \<^verbatim>\<open>string2l\<close>, \<^verbatim>\<open>string2ull\<close>, \<^verbatim>\<open>memtoull\<close>, and the buffer
  helpers \<^verbatim>\<open>mempbrk\<close> and \<^verbatim>\<open>memmapchars\<close>.

  A \<^verbatim>\<open>char *\<close> is a buffer and an offset. A function that returns 0 on failure and stores its
  value through a pointer otherwise returns \<open>None\<close> or \<open>Some value\<close> inside the option that models
  memory safety. Characters are compared as unsigned bytes; the comparisons of the source
  only test the ASCII range, where signedness makes no difference.
\<close>

abbreviation (input) ULLONG_MAX :: nat where "ULLONG_MAX \<equiv> 18446744073709551615"
abbreviation (input) LLONG_MAX :: nat where "LLONG_MAX \<equiv> 9223372036854775807"

text \<open>Conversions between the 64-bit integer types.\<close>

definition u64 :: "int \<Rightarrow> nat" where
  "u64 x = nat (x mod 18446744073709551616)"

definition s64 :: "nat \<Rightarrow> int" where
  "s64 n = (let m = n mod 18446744073709551616 in
     if m \<le> LLONG_MAX then int m else int m - 18446744073709551616)"

definition chr :: "nat \<Rightarrow> byte" where
  "chr n = word_of_nat n"

subsection \<open>Formatting\<close>

fun digits10 :: "nat \<Rightarrow> nat" where
  "digits10 v =
     (if v < 10 then 1
      else if v < 100 then 2
      else if v < 1000 then 3
      else if v < 1000000000000 then
        (if v < 100000000 then
           (if v < 1000000 then
              (if v < 10000 then 4 else 5 + of_bool (v \<ge> 100000))
            else 7 + of_bool (v \<ge> 10000000))
         else if v < 10000000000 then 9 + of_bool (v \<ge> 1000000000)
         else 11 + of_bool (v \<ge> 100000000000))
      else 12 + digits10 (v div 1000000000000))"

declare digits10.simps [simp del]

text \<open>The magnitude of a negative \<^verbatim>\<open>long long\<close>, with the special case the source makes.\<close>

definition neg_magnitude :: "int \<Rightarrow> nat" where
  "neg_magnitude v = (if v \<noteq> INT64_MIN then u64 (- v) else LLONG_MAX + 1)"

definition sdigits10 :: "int \<Rightarrow> nat" where
  "sdigits10 v =
     (if v < 0 then
        digits10 (neg_magnitude v) + 1
      else digits10 (u64 v))"

definition digits_table :: "byte list" where
  "digits_table = map of_char
     (''0001020304050607080910111213141516171819'' @
      ''2021222324252627282930313233343536373839'' @
      ''4041424344454647484950515253545556575859'' @
      ''6061626364656667686970717273747576777879'' @
      ''8081828384858687888990919293949596979899'') @ [0]"

text \<open>The loop that emits two digits at a time, from the right. \<open>off\<close> is the offset of \<^verbatim>\<open>dst\<close>.\<close>

function ull2string_loop :: "buffer \<Rightarrow> nat \<Rightarrow> nat \<Rightarrow> nat \<Rightarrow> (buffer \<times> nat \<times> nat) option" where
  "ull2string_loop dst off nxt val =
     (if val \<ge> 100 then do {
        let i = (val mod 100) * 2;
        let val = val div 100;
        c1 \<leftarrow> rd_byte digits_table (i + 1);
        dst \<leftarrow> wr dst (off + nxt) [c1];
        c0 \<leftarrow> rd_byte digits_table i;
        dst \<leftarrow> wr dst (off + u32 (int nxt - 1)) [c0];
        ull2string_loop dst off (u32 (int nxt - 2)) val
      }
      else Some (dst, nxt, val))"
  by pat_completeness auto
termination by (relation "measure (\<lambda>(_, _, _, v). v)") auto

declare ull2string_loop.simps [simp del]

text \<open>The last one or two digits.\<close>

definition ull2string_last :: "buffer \<Rightarrow> nat \<Rightarrow> nat \<Rightarrow> nat \<Rightarrow> buffer option" where
  "ull2string_last dst off nxt val =
     (if val < 10 then wr dst (off + nxt) [48 + chr val]
      else do {
        let i = val * 2;
        c1 \<leftarrow> rd_byte digits_table (i + 1);
        dst \<leftarrow> wr dst (off + nxt) [c1];
        c0 \<leftarrow> rd_byte digits_table i;
        wr dst (off + u32 (int nxt - 1)) [c0]
      })"

definition ull2string :: "buffer \<Rightarrow> nat \<Rightarrow> nat \<Rightarrow> nat \<Rightarrow> (buffer \<times> nat) option" where
  "ull2string dst off dstlen val =
     (let len = digits10 val in
      if len \<ge> dstlen then
        (if dstlen > 0 then do { dst \<leftarrow> wr dst off [0]; Some (dst, 0) } else Some (dst, 0))
      else do {
        let nxt = len - 1;
        dst \<leftarrow> wr dst (off + (nxt + 1)) [0];
        (dst, nxt, val) \<leftarrow> ull2string_loop dst off nxt val;
        dst \<leftarrow> ull2string_last dst off nxt val;
        Some (dst, len)
      })"

definition ll2string :: "buffer \<Rightarrow> nat \<Rightarrow> nat \<Rightarrow> int \<Rightarrow> (buffer \<times> nat) option" where
  "ll2string dst off dstlen svalue =
     (if svalue < 0 then
        (let val = neg_magnitude svalue in
         if dstlen < 2 then
           (if dstlen > 0 then do { dst \<leftarrow> wr dst off [0]; Some (dst, 0) } else Some (dst, 0))
         else do {
           dst \<leftarrow> wr dst off [45];
           (dst, len) \<leftarrow> ull2string dst (off + 1) (dstlen - 1) val;
           Some (dst, if len = 0 then 0 else len + 1)
         })
      else do {
        (dst, len) \<leftarrow> ull2string dst off dstlen (u64 svalue);
        Some (dst, if len = 0 then 0 else len)
      })"

subsection \<open>Strict parsing\<close>

abbreviation (input) LONG_STR_SIZE :: nat where "LONG_STR_SIZE \<equiv> 21"

text \<open>The digit loop of \<^verbatim>\<open>string2ll\<close>. The inner result is \<open>None\<close> when an overflow check
  returns, and otherwise the number of bytes read and the value.\<close>

function string2ll_loop :: "buffer \<Rightarrow> nat \<Rightarrow> nat \<Rightarrow> nat \<Rightarrow> (nat \<times> nat) option option" where
  "string2ll_loop s slen plen v =
     (if plen < slen then do {
        c \<leftarrow> rd_byte s plen;
        if c \<ge> 48 \<and> c \<le> 57 then
          if v > ULLONG_MAX div 10 then Some None
          else let v = u64 (int v * 10) in
            if v > ULLONG_MAX - unat (c - 48) then Some None
            else string2ll_loop s slen (plen + 1) (u64 (int v + int (unat (c - 48))))
        else Some (Some (plen, v))
      }
      else Some (Some (plen, v)))"
  by pat_completeness auto
termination by (relation "measure (\<lambda>(_, slen, plen, _). slen - plen)") auto

declare string2ll_loop.simps [simp del]

text \<open>The checks behind the loop: all bytes used, and the value within the range of
  \<^verbatim>\<open>long long\<close>.\<close>

definition string2ll_finish :: "nat \<Rightarrow> bool \<Rightarrow> (nat \<times> nat) option \<Rightarrow> int option" where
  "string2ll_finish slen negative r =
     (case r of
        None \<Rightarrow> None
      | Some (plen, v) \<Rightarrow>
          if plen < slen then None
          else if negative then
            (if v > LLONG_MAX + 1 then None else Some (s64 (u64 (- int v))))
          else (if v > LLONG_MAX then None else Some (s64 v)))"

definition string2ll :: "buffer \<Rightarrow> nat \<Rightarrow> int option option" where
  "string2ll s slen =
     (if 0 = slen \<or> slen \<ge> LONG_STR_SIZE then Some None
      else do {
        c0 \<leftarrow> rd_byte s 0;
        if slen = 1 \<and> c0 = 48 then Some (Some 0)
        else
          let negative = (c0 = 45); plen = (if negative then 1 else 0) in
          if negative \<and> plen = slen then Some None
          else do {
            c \<leftarrow> rd_byte s plen;
            if c \<ge> 49 \<and> c \<le> 57 then do {
              r \<leftarrow> string2ll_loop s slen (plen + 1) (unat (c - 48));
              Some (string2ll_finish slen negative r)
            }
            else Some None
          }
      })"

text \<open>On the LP64 targets of the sources \<^verbatim>\<open>long\<close> and \<^verbatim>\<open>long long\<close> have the same range.\<close>

definition string2l :: "buffer \<Rightarrow> nat \<Rightarrow> int option option" where
  "string2l s slen = do {
     r \<leftarrow> string2ll s slen;
     case r of None \<Rightarrow> Some None
     | Some v \<Rightarrow> if v < INT64_MIN \<or> v > INT64_MAX then Some None else Some (Some v)
   }"

subsection \<open>Conversions through \<^verbatim>\<open>strtoull\<close>\<close>

definition is_digit :: "byte \<Rightarrow> bool" where
  "is_digit c \<longleftrightarrow> 48 \<le> c \<and> c \<le> 57"

definition undec :: "byte list \<Rightarrow> nat" where
  "undec = foldl (\<lambda>v c. v * 10 + unat (c - 48)) 0"

text \<open>A C string is modelled by the bytes before its terminator. \<^verbatim>\<open>strtoull(s, &endptr, 10)\<close> is
  the function of the C standard: it skips white space, reads an optional sign and the longest
  run of digits; the result of a minus sign is negated in the unsigned type, and a value that
  does not fit gives the largest value and \<^verbatim>\<open>ERANGE\<close>. When there are no digits nothing is
  consumed, and POSIX leaves open whether \<^verbatim>\<open>EINVAL\<close> is set; the flag \<open>einval\<close> says which
  choice the C library makes. The result is the value, the errors, and the number of bytes
  that \<^verbatim>\<open>endptr\<close> has advanced.\<close>

datatype errno = EINVAL | ERANGE

definition isspace :: "byte \<Rightarrow> bool" where
  "isspace c \<longleftrightarrow> c = 32 \<or> (9 \<le> c \<and> c \<le> 13)"

definition strtoull :: "bool \<Rightarrow> buffer \<Rightarrow> nat \<times> errno option \<times> nat" where
  "strtoull einval s =
     (let s1 = dropWhile isspace s;
          sgn = (if s1 \<noteq> [] \<and> (hd s1 = 43 \<or> hd s1 = 45) then 1 else 0);
          ds = takeWhile is_digit (drop sgn s1);
          m = undec ds in
      if ds = [] then (0, if einval then Some EINVAL else None, 0)
      else (if m > ULLONG_MAX then ULLONG_MAX else if s1 \<noteq> [] \<and> hd s1 = 45 then u64 (- int m) else m,
            if m > ULLONG_MAX then Some ERANGE else None,
            length s - length s1 + sgn + length ds))"

definition string2ull :: "bool \<Rightarrow> buffer \<Rightarrow> nat option option" where
  "string2ull einval s = do {
     r \<leftarrow> string2ll s (length s);
     case r of
       Some ll \<Rightarrow> if ll < 0 then Some None else Some (Some (u64 ll))
     | None \<Rightarrow>
         (case strtoull einval s of (v, err, n) \<Rightarrow>
            if err = Some EINVAL \<or> err = Some ERANGE \<or> \<not> (s \<noteq> [] \<and> n = length s) then Some None
            else Some (Some v))
   }"

definition tolower :: "byte \<Rightarrow> byte" where
  "tolower c = (if 65 \<le> c \<and> c \<le> 90 then c + 32 else c)"

definition strcaseeq :: "buffer \<Rightarrow> string \<Rightarrow> bool" where
  "strcaseeq u lit \<longleftrightarrow> map tolower u = map of_char lit"

text \<open>The unit suffix of \<^verbatim>\<open>memtoull\<close>: \<open>None\<close> is the error branch.\<close>

definition memtoull_unit :: "buffer \<Rightarrow> nat option" where
  "memtoull_unit u =
     (if u = [] \<or> strcaseeq u ''b'' then Some 1
      else if strcaseeq u ''k'' then Some 1000
      else if strcaseeq u ''kb'' then Some 1024
      else if strcaseeq u ''m'' then Some (1000 * 1000)
      else if strcaseeq u ''mb'' then Some (1024 * 1024)
      else if strcaseeq u ''g'' then Some (1000 * 1000 * 1000)
      else if strcaseeq u ''gb'' then Some (1024 * 1024 * 1024)
      else None)"

text \<open>The result is the returned value and whether \<^verbatim>\<open>*err\<close> is set.\<close>

definition memtoull :: "bool \<Rightarrow> buffer \<Rightarrow> nat \<times> bool" where
  "memtoull einval p =
     (if p \<noteq> [] \<and> hd p = 45 then (0, True)
      else let ds = takeWhile is_digit p; u = dropWhile is_digit p in
        case memtoull_unit u of
          None \<Rightarrow> (0, True)
        | Some mul \<Rightarrow>
            if length ds \<ge> 128 then (0, True)
            else (case strtoull einval ds of (val, err, n) \<Rightarrow>
              if (val = 0 \<and> err = Some EINVAL) \<or> n \<noteq> length ds then (0, True)
              else (u64 (int val * int mul), False)))"

subsection \<open>Base 16\<close>

definition base_16_char_type :: "byte \<Rightarrow> int" where
  "base_16_char_type c =
     (if 48 \<le> c \<and> c \<le> 57 then 0
      else if 97 \<le> c \<and> c \<le> 102 then 1
      else if 65 \<le> c \<and> c \<le> 70 then 2 else -1)"

definition ascii_to_dec :: "byte list" where
  "ascii_to_dec = [48, 97 - 10, 65 - 10]"

text \<open>The loop of \<^verbatim>\<open>string2ul_base16_async_signal_safe\<close>. Its condition reads the character before
  it compares the index with \<^verbatim>\<open>slen\<close>. The inner option is \<open>None\<close> for the return value -1.\<close>

function base16_loop :: "buffer \<Rightarrow> nat \<Rightarrow> nat \<Rightarrow> nat \<Rightarrow> nat option option" where
  "base16_loop src slen idx res = do {
     c \<leftarrow> rd_byte src idx;
     let char_type = base_16_char_type c;
     if char_type \<noteq> -1 \<and> idx < slen then
       let curr_val = unat (c - ascii_to_dec ! nat char_type) in
       if res > ULLONG_MAX div 16 \<or> res > (ULLONG_MAX - curr_val) div 16 then Some None
       else base16_loop src slen (idx + 1) (u64 (int res * 16 + int curr_val))
     else Some (Some res)
   }"
  by pat_completeness auto
termination by (relation "measure (\<lambda>(src, _, idx, _). length src - idx)")
  (auto simp: rd_byte_def split: if_splits)

declare base16_loop.simps [simp del]

definition string2ul_base16_async_signal_safe :: "buffer \<Rightarrow> nat \<Rightarrow> nat option option" where
  "string2ul_base16_async_signal_safe src slen = base16_loop src slen 0 0"

subsection \<open>Decimal notation, the reference\<close>

fun dec :: "nat \<Rightarrow> byte list" where
  "dec n = (if n < 10 then [48 + chr n] else dec (n div 10) @ [48 + chr (n mod 10)])"

declare dec.simps [simp del]

definition sdec :: "int \<Rightarrow> byte list" where
  "sdec v = (if v < 0 then 45 # dec (nat (- v)) else dec (nat v))"

lemma unat_chr [simp]: "n < 256 \<Longrightarrow> unat (chr n) = n"
  by (simp add: chr_def unat_of_nat)

lemma chr_unat [simp]: "chr (unat c) = c"
  by (simp add: chr_def)

lemma unat_digit: "d < 10 \<Longrightarrow> unat (48 + chr d) = 48 + d"
  by (subst unat_plus_simple [THEN iffD1]) (simp_all add: word_le_nat_alt unat_word_ariths)

lemma is_digit_unat: "is_digit c \<longleftrightarrow> 48 \<le> unat c \<and> unat c \<le> 57"
  by (simp add: is_digit_def word_le_nat_alt)

lemma unat_minus_digit: "is_digit c \<Longrightarrow> unat (c - 48) = unat c - 48"
  by (simp add: is_digit_def unat_sub)

lemma is_digit_chr [simp]: "d < 10 \<Longrightarrow> is_digit (48 + chr d)"
  by (simp add: is_digit_unat unat_digit)

lemma digit_val_chr [simp]: "d < 10 \<Longrightarrow> unat (48 + chr d - 48) = d"
  by simp

lemma digit_val_less: "is_digit c \<Longrightarrow> unat (c - 48) < 10"
  by (auto simp: unat_minus_digit is_digit_unat)

lemma digit_of_val: "is_digit c \<Longrightarrow> 48 + chr (unat (c - 48)) = c"
  by simp

lemma undec_Nil [simp]: "undec [] = 0"
  by (simp add: undec_def)

lemma undec_snoc [simp]: "undec (xs @ [c]) = undec xs * 10 + unat (c - 48)"
  by (simp add: undec_def)

lemma undec_single [simp]: "undec [c] = unat (c - 48)"
  using undec_snoc [of "[]" c] by simp

lemma dec_small: "n < 10 \<Longrightarrow> dec n = [48 + chr n]"
  by (simp add: dec.simps)

lemma dec_big: "10 \<le> n \<Longrightarrow> dec n = dec (n div 10) @ [48 + chr (n mod 10)]"
  by (subst dec.simps) simp

lemma dec_not_Nil [simp]: "dec n \<noteq> []"
  by (subst dec.simps) simp

lemma undec_dec [simp]: "undec (dec n) = n"
proof (induction n rule: dec.induct)
  case (1 n)
  then show ?case
    by (cases "n < 10") (simp_all add: dec_small dec_big)
qed

lemma dec_digits: "list_all is_digit (dec n)"
proof (induction n rule: dec.induct)
  case (1 n)
  then show ?case
    by (cases "n < 10") (simp_all add: dec_small dec_big)
qed

lemma hd_dec: "0 < n \<Longrightarrow> hd (dec n) \<noteq> 48"
proof (induction n rule: dec.induct)
  case (1 n)
  have "48 + chr n \<noteq> 48" if "n < 10"
  proof
    assume "48 + chr n = 48"
    then have "unat (48 + chr n) = 48" by simp
    with unat_digit [OF that] \<open>0 < n\<close> show False by simp
  qed
  with 1 show ?case
    by (cases "n < 10") (simp_all add: dec_small dec_big)
qed

lemma undec_pos: "list_all is_digit xs \<Longrightarrow> xs \<noteq> [] \<Longrightarrow> hd xs \<noteq> 48 \<Longrightarrow> 0 < undec xs"
proof (induction xs rule: rev_induct)
  case (snoc c xs)
  show ?case
  proof (cases "xs = []")
    case True
    then have "c \<noteq> 48" "is_digit c" using snoc.prems by auto
    then have "unat (c - 48) \<noteq> 0"
      by (metis right_minus_eq unat_eq_0)
    with True show ?thesis by simp
  next
    case False
    then show ?thesis using snoc by simp
  qed
qed simp

lemma dec_undec:
  "list_all is_digit xs \<Longrightarrow> xs \<noteq> [] \<Longrightarrow> hd xs \<noteq> 48 \<Longrightarrow> dec (undec xs) = xs"
proof (induction xs rule: rev_induct)
  case (snoc c xs)
  have c: "is_digit c" "unat (c - 48) < 10"
    using snoc.prems digit_val_less by auto
  show ?case
  proof (cases "xs = []")
    case True
    then show ?thesis using c by (simp add: dec_small)
  next
    case False
    then have "0 < undec xs" using snoc.prems by (intro undec_pos) auto
    with c have "10 \<le> undec (xs @ [c])" by simp
    then have "dec (undec (xs @ [c])) = dec (undec xs) @ [48 + chr (unat (c - 48))]"
      using c by (simp add: dec_big)
    then show ?thesis using snoc False by simp
  qed
qed simp

lemma length_dec_step: "10 \<le> n \<Longrightarrow> length (dec n) = Suc (length (dec (n div 10)))"
  by (simp add: dec_big)

lemma length_dec_range: "10 ^ k \<le> n \<Longrightarrow> n < 10 ^ Suc k \<Longrightarrow> length (dec n) = Suc k"
proof (induction k arbitrary: n)
  case (Suc k)
  have a: "10 * 10 ^ k \<le> n" and b: "n < 10 * (10 * 10 ^ k)"
    using Suc.prems by simp_all
  have "10 ^ k \<le> n div 10"
    using a by (simp add: less_eq_div_iff_mult_less_eq mult.commute)
  moreover have "n div 10 < 10 ^ Suc k"
    using b by (simp add: div_less_iff_less_mult mult.commute)
  ultimately have "length (dec (n div 10)) = Suc k" by (rule Suc.IH)
  moreover have "10 \<le> n" using a by (metis One_nat_def Suc_leI le_trans mult.right_neutral mult_le_mono2 zero_less_numeral zero_less_power)
  ultimately show ?case by (simp add: length_dec_step)
qed (simp add: dec_small)

lemma length_dec_add: "10 ^ k \<le> n \<Longrightarrow> length (dec n) = k + length (dec (n div 10 ^ k))"
proof (induction k arbitrary: n)
  case (Suc k)
  have a: "10 * 10 ^ k \<le> n" using Suc.prems by simp
  then have "10 ^ k \<le> n div 10"
    by (simp add: less_eq_div_iff_mult_less_eq mult.commute)
  moreover have "10 \<le> n" using a by (metis One_nat_def Suc_leI le_trans mult.right_neutral mult_le_mono2 zero_less_numeral zero_less_power)
  ultimately show ?case
    using Suc.IH [of "n div 10"] by (simp add: length_dec_step div_mult2_eq)
qed simp

lemma dec_upper: "v < 10 ^ length (dec v)"
proof (induction v rule: dec.induct)
  case (1 v)
  then show ?case
    by (cases "v < 10") (simp_all add: dec_small length_dec_step)
qed

lemma dec_lower: "0 < v \<Longrightarrow> 10 ^ (length (dec v) - 1) \<le> v"
proof (induction v rule: dec.induct)
  case (1 v)
  show ?case
  proof (cases "v < 10")
    case False
    then have "10 ^ (length (dec (v div 10)) - 1) \<le> v div 10" using 1 by simp
    moreover obtain k where "length (dec (v div 10)) = Suc k"
      using dec_not_Nil by (metis length_0_conv not0_implies_Suc)
    ultimately show ?thesis
      using False by (simp add: length_dec_step)
  qed (use 1 in \<open>simp add: dec_small\<close>)
qed

lemma digits10_small:
  assumes "0 < v" and "v < 10 ^ 12"
  shows "digits10 v = length (dec v)"
proof -
  define n where "n = length (dec v)"
  have b: "v < 10 ^ n" "10 ^ (n - 1) \<le> v"
    using dec_upper dec_lower [OF assms(1)] by (simp_all add: n_def)
  have "n - 1 < 12"
    using b(2) assms(2) by (metis le_less_trans one_less_numeral_iff power_strict_increasing_iff semiring_norm(76))
  moreover have "n \<noteq> 0" by (simp add: n_def)
  ultimately have "n \<in> {1, 2, 3, 4, 5, 6, 7, 8, 9, 10, 11, 12}"
    unfolding insert_iff empty_iff by presburger
  then have "digits10 v = n"
    by (elim insertE emptyE; use b in \<open>subst digits10.simps; simp\<close>)
  then show ?thesis by (simp add: n_def)
qed

lemma digits10_length_dec: "digits10 v = length (dec v)"
proof (induction v rule: less_induct)
  case (less v)
  consider "v = 0" | "0 < v" "v < 10 ^ 12" | "10 ^ 12 \<le> v" by linarith
  then show ?case
  proof cases
    case 1
    then show ?thesis by (simp add: digits10.simps dec_small)
  next
    case 2
    then show ?thesis by (rule digits10_small)
  next
    case 3
    then have "digits10 v = 12 + digits10 (v div 10 ^ 12)" by (subst digits10.simps) simp
    moreover have "v div 10 ^ 12 < v" using 3 by (intro div_less_dividend) simp_all
    ultimately show ?thesis using less length_dec_add [OF 3] by simp
  qed
qed

lemma digits_table_eq:
  "digits_table = concat (map (\<lambda>i. [48 + chr (i div 10), 48 + chr (i mod 10)]) [0..<100]) @ [0]"
  by (simp add: digits_table_def chr_def upt_rec)

lemma length_concat_pairs: "length (concat (map (\<lambda>i. [f i, g i]) xs)) = length xs * 2"
  by (induction xs) simp_all

lemma nth_concat_pairs:
  "i < n \<Longrightarrow> concat (map (\<lambda>i. [f i, g i]) [0..<n]) ! (i * 2) = f i"
  "i < n \<Longrightarrow> concat (map (\<lambda>i. [f i, g i]) [0..<n]) ! Suc (i * 2) = g i"
  by (induction n) (auto simp: nth_append length_concat_pairs less_Suc_eq)

lemma rd_digits_table:
  assumes "i < 100"
  shows "rd_byte digits_table (i * 2) = Some (48 + chr (i div 10))"
    and "rd_byte digits_table (Suc (i * 2)) = Some (48 + chr (i mod 10))"
  using assms
  by (simp_all add: rd_byte_def digits_table_eq length_concat_pairs nth_append nth_concat_pairs
      del: upt_rec_numeral)

lemma wr_wr:
  "n = off + length xs \<Longrightarrow> Option.bind (wr b n ys) (\<lambda>b. wr b off xs) = wr b off (xs @ ys)"
  by (auto simp: wr_def add.assoc)

lemma wr_Cons: "Option.bind (wr b off [c]) (\<lambda>b. wr b (Suc off) xs) = wr b off (c # xs)"
proof (cases "off + Suc (length xs) \<le> length b")
  case True
  then have "take (Suc off) (take off b @ c # drop (Suc off) b) = take off b @ [c]"
    by (simp add: min_def)
  moreover have "drop (Suc off + length xs) (take off b @ c # drop (Suc off) b) =
      drop (off + Suc (length xs)) b"
    using True by (simp add: min_def add.commute)
  ultimately show ?thesis using True by (simp add: wr_def)
qed (auto simp: wr_def)

lemma dec_two: "10 \<le> n \<Longrightarrow> n < 100 \<Longrightarrow> dec n = [48 + chr (n div 10), 48 + chr (n mod 10)]"
  by (simp add: dec_big dec_small)

lemma dec_hundred:
  "100 \<le> n \<Longrightarrow> dec n = dec (n div 100) @
     [48 + chr (n mod 100 div 10), 48 + chr (n mod 100 mod 10)]"
proof -
  assume "100 \<le> n"
  moreover have "n div 10 mod 10 = n mod 100 div 10" "n mod 100 mod 10 = n mod 10"
    using mod_mult2_eq [of n 10 10] by simp_all
  moreover have "n div 10 div 10 = n div 100" by (simp flip: div_mult2_eq)
  moreover have "10 \<le> n div 10"
    using \<open>100 \<le> n\<close> by (simp add: less_eq_div_iff_mult_less_eq)
  ultimately show ?thesis
    by (simp add: dec_big [of n] dec_big [of "n div 10"])
qed

lemma ull2string_loop_end: "val < 100 \<Longrightarrow> ull2string_loop dst off nxt val = Some (dst, nxt, val)"
  by (subst ull2string_loop.simps) simp

lemma ull2string_loop_step:
  assumes "100 \<le> val" and "2 \<le> nxt" and "nxt < 2 ^ 32"
  shows "ull2string_loop dst off nxt val =
     Option.bind (wr dst (off + (nxt - 1))
       [48 + chr (val mod 100 div 10), 48 + chr (val mod 100 mod 10)])
       (\<lambda>dst. ull2string_loop dst off (nxt - 2) (val div 100))"
proof -
  have u: "u32 (int nxt - 1) = nxt - 1" "u32 (int nxt - 2) = nxt - 2"
    using assms by (simp_all add: u32_def)
  have w: "Option.bind (wr dst (off + nxt) [c1]) (\<lambda>b. Option.bind (wr b (off + (nxt - Suc 0)) [c0]) g) =
      Option.bind (wr dst (off + (nxt - Suc 0)) [c0, c1]) g"
    for c0 c1 :: byte and g :: "buffer \<Rightarrow> (buffer \<times> nat \<times> nat) option"
    using assms arg_cong [OF wr_wr [of "off + nxt" "off + (nxt - 1)" "[c0]" dst "[c1]"],
        of "\<lambda>x. Option.bind x g"] by simp
  show ?thesis
    using assms(1) by (subst ull2string_loop.simps) (simp add: rd_digits_table u w)
qed

lemma ull2string_loop_wr:
  assumes "Suc nxt = length (dec val)" and "length (dec val) < 2 ^ 32"
  shows "Option.bind (ull2string_loop dst off nxt val)
     (\<lambda>(dst, nxt, val). ull2string_last dst off nxt val) = wr dst off (dec val)"
  using assms
proof (induction val arbitrary: dst nxt rule: less_induct)
  case (less val)
  consider "val < 10" | "10 \<le> val" "val < 100" | "100 \<le> val" by linarith
  then show ?case
  proof cases
    case 1
    then show ?thesis
      using less.prems by (simp add: ull2string_loop_end ull2string_last_def dec_small)
  next
    case 2
    then have "nxt = 1" using less.prems by (simp add: dec_two)
    then show ?thesis
      using 2 by (simp add: ull2string_loop_end ull2string_last_def dec_two rd_digits_table u32_def
          wr_wr)
  next
    case 3
    note d = dec_hundred [OF 3]
    have n: "nxt = Suc (length (dec (val div 100)))" "nxt < 2 ^ 32"
      using less.prems by (simp_all add: d)
    have "2 \<le> nxt"
      using n(1) dec_not_Nil [of "val div 100"] by (cases "dec (val div 100)") auto
    moreover have "Option.bind (ull2string_loop b off (nxt - 2) (val div 100))
      (\<lambda>(dst, nxt, val). ull2string_last dst off nxt val) = wr b off (dec (val div 100))" for b
      using less.IH [of "val div 100" "nxt - 2" b] 3 n \<open>2 \<le> nxt\<close> by simp
    ultimately show ?thesis
      using 3 n by (simp add: ull2string_loop_step wr_wr d)
  qed
qed

lemma length_dec_le: "v < 10 ^ k \<Longrightarrow> 0 < k \<Longrightarrow> length (dec v) \<le> k"
proof (induction k arbitrary: v)
  case (Suc k)
  show ?case
  proof (cases "v < 10")
    case False
    then have "k \<noteq> 0" using Suc.prems by (cases k) auto
    moreover have "v div 10 < 10 ^ k"
      using Suc.prems by (simp add: div_less_iff_less_mult mult.commute)
    ultimately show ?thesis using Suc.IH [of "v div 10"] False by (simp add: length_dec_step)
  qed (simp add: dec_small)
qed simp

lemma length_dec_u64: "v < 2 ^ 64 \<Longrightarrow> length (dec v) \<le> 20"
  by (rule length_dec_le) simp_all

lemma ull2string_spec:
  assumes "v < 2 ^ 64"
  shows "ull2string dst off dstlen v =
     (if length (dec v) < dstlen then map_option (\<lambda>b. (b, length (dec v))) (wr dst off (dec v @ [0]))
      else if dstlen > 0 then map_option (\<lambda>b. (b, 0)) (wr dst off [0])
      else Some (dst, 0))"
proof (cases "length (dec v) < dstlen")
  case True
  let ?n = "length (dec v)"
  have l: "Suc (?n - 1) = ?n" by simp
  then have e: "off + (?n - 1 + 1) = off + ?n" by simp
  have s: "?n < 2 ^ 32" using length_dec_u64 [OF assms] by simp
  have *: "Option.bind (ull2string_loop b off (?n - 1) v) (\<lambda>(dst, nxt, val).
      Option.bind (ull2string_last dst off nxt val) (\<lambda>dst. Some (dst, ?n))) =
      Option.bind (wr b off (dec v)) (\<lambda>dst. Some (dst, ?n))" for b
    unfolding ull2string_loop_wr [OF l s, symmetric] by (simp add: split_def)
  have "ull2string dst off dstlen v =
      Option.bind (Option.bind (wr dst (off + ?n) [0]) (\<lambda>b. wr b off (dec v))) (\<lambda>dst. Some (dst, ?n))"
    unfolding ull2string_def digits10_length_dec Let_def e using True by (simp add: * [unfolded One_nat_def])
  also have "Option.bind (wr dst (off + ?n) [0]) (\<lambda>b. wr b off (dec v)) = wr dst off (dec v @ [0])"
    by (rule wr_wr) simp
  finally show ?thesis
    using True by (simp add: map_conv_bind_option comp_def)
next
  case False
  then show ?thesis
    unfolding ull2string_def digits10_length_dec Let_def by (simp add: map_conv_bind_option comp_def)
qed

subsection \<open>Formatting is correct\<close>

lemma u64_id: "0 \<le> x \<Longrightarrow> x < 2 ^ 64 \<Longrightarrow> u64 x = nat x"
  by (simp add: u64_def)

lemma u64_of_nat: "n < 2 ^ 64 \<Longrightarrow> u64 (int n) = n"
  by (simp add: u64_id)

lemma s64_id: "n < 2 ^ 63 \<Longrightarrow> s64 n = int n"
  by (simp add: s64_def)

lemma s64_u64_neg: "0 < n \<Longrightarrow> n \<le> 2 ^ 63 \<Longrightarrow> s64 (u64 (- int n)) = - int n"
proof -
  assume n: "0 < n" "n \<le> 2 ^ 63"
  then have "- int n mod 18446744073709551616 = 18446744073709551616 - int n"
    by (intro int_mod_pos_eq [where q = "-1"]) auto
  then show ?thesis
    using n by (simp add: u64_def s64_def Let_def nat_le_iff)
qed

lemma neg_magnitude: "is_int64 v \<Longrightarrow> v < 0 \<Longrightarrow> neg_magnitude v = nat (- v)"
  by (auto simp: is_int64_def u64_id neg_magnitude_def)

lemma u64_nonneg: "is_int64 v \<Longrightarrow> \<not> v < 0 \<Longrightarrow> u64 v = nat v"
  by (auto simp: is_int64_def u64_id)

lemma sdigits10_length_sdec: "is_int64 v \<Longrightarrow> sdigits10 v = length (sdec v)"
  by (auto simp: sdigits10_def sdec_def digits10_length_dec neg_magnitude u64_nonneg)

lemma ll2string_fits:
  assumes "is_int64 v" and "length (sdec v) < dstlen"
  shows "ll2string dst off dstlen v =
     map_option (\<lambda>b. (b, length (sdec v))) (wr dst off (sdec v @ [0]))"
proof (cases "v < 0")
  case True
  have "nat (- v) < 2 ^ 64" using assms(1) by (auto simp: is_int64_def)
  note s = ull2string_spec [OF this]
  have c: "length (dec (nat (- v))) < dstlen - Suc 0"
    using assms(2) True by (simp add: sdec_def)
  have "ll2string dst off dstlen v = Option.bind
      (Option.bind (wr dst off [45]) (\<lambda>b. wr b (Suc off) (dec (nat (- v)) @ [0])))
      (\<lambda>b. Some (b, length (sdec v)))"
    using assms True c
    by (simp add: ll2string_def sdec_def neg_magnitude s c map_conv_bind_option comp_def)
  then show ?thesis
    using True by (simp only: wr_Cons) (simp add: sdec_def map_conv_bind_option comp_def)
next
  case False
  then have "u64 v = nat v" "nat v < 2 ^ 64" using assms(1) by (auto simp: is_int64_def u64_id)
  then show ?thesis
    using assms False ull2string_spec [of "nat v" dst off dstlen]
    by (simp add: ll2string_def sdec_def map_conv_bind_option comp_def)
qed

text \<open>\<open>frame dst off e b\<close>: \<open>b\<close> differs from \<open>dst\<close> at most between the offsets \<open>off\<close> and \<open>e\<close>.\<close>

definition frame :: "buffer \<Rightarrow> nat \<Rightarrow> nat \<Rightarrow> buffer \<Rightarrow> bool" where
  "frame dst off e b \<longleftrightarrow>
     length b = length dst \<and> take off b = take off dst \<and> drop e b = drop e dst"

lemma wr_frame:
  assumes "wr b p xs = Some b'" and "off \<le> p" and "p + length xs \<le> e"
  shows "frame b off e b'"
  using assms by (auto simp: wr_def frame_def min_def split: if_splits)

lemma frame_trans: "frame a off e b \<Longrightarrow> frame b off e c \<Longrightarrow> frame a off e c"
  by (simp add: frame_def)

lemma frame_refl: "frame a off e a"
  by (simp add: frame_def)

lemma wr_within: "off + length xs \<le> length b \<Longrightarrow> \<exists>b'. wr b off xs = Some b'"
  by (simp add: wr_def)

lemma ull2string_small:
  assumes "v < 2 ^ 64" and "dstlen \<le> length (dec v)" and "off + dstlen \<le> length dst"
  shows "\<exists>b. ull2string dst off dstlen v = Some (b, 0) \<and> frame dst off (off + dstlen) b"
proof (cases "dstlen = 0")
  case False
  then obtain b where "wr dst off [0] = Some b"
    using assms wr_within [of off "[0]" dst] by auto
  then show ?thesis
    using assms False wr_frame [of dst off "[0]" b off "off + dstlen"]
    by (simp add: ull2string_spec)
qed (use assms in \<open>simp add: ull2string_spec frame_refl\<close>)

lemma ll2string_small:
  assumes "is_int64 v" and "dstlen \<le> length (sdec v)" and "off + dstlen \<le> length dst"
  shows "\<exists>b. ll2string dst off dstlen v = Some (b, 0) \<and> frame dst off (off + dstlen) b"
proof (cases "v < 0 \<and> 2 \<le> dstlen")
  case True
  have lt: "nat (- v) < 2 ^ 64" using assms(1) by (auto simp: is_int64_def)
  obtain b where b: "wr dst off [45] = Some b"
    using assms True wr_within [of off "[45]" dst] by auto
  then have f: "frame dst off (off + dstlen) b" and l: "length b = length dst"
    using True wr_frame [of dst off "[45]" b off "off + dstlen"] by (simp_all add: frame_def)
  have s: "dstlen - 1 \<le> length (dec (nat (- v)))" "off + 1 + (dstlen - 1) \<le> length b"
    using assms True l by (simp_all add: sdec_def)
  obtain b' where b': "ull2string b (off + 1) (dstlen - 1) (nat (- v)) = Some (b', 0)"
    "frame b (off + 1) (off + 1 + (dstlen - 1)) b'"
    using ull2string_small [OF lt s] by blast
  then have "frame b off (off + dstlen) b'"
    using True by (auto simp: frame_def dest: arg_cong [of _ _ "take off"])
  then show ?thesis
    using True b b' f assms(1) by (auto simp: ll2string_def neg_magnitude intro: frame_trans)
next
  case False
  show ?thesis
  proof (cases "v < 0")
    case True
    then have "dstlen = 0 \<or> dstlen = 1" using False by linarith
    moreover have "\<exists>b. wr dst off [0] = Some b \<and> frame dst off (off + 1) b" if "dstlen = 1"
      using assms(3) that wr_within [of off "[0]" dst] wr_frame [of dst off "[0]" _ off "off + 1"]
      by auto
    ultimately show ?thesis
      using True by (auto simp: ll2string_def frame_refl)
  next
    case nn: False
    then have "u64 v = nat v" "nat v < 2 ^ 64" using assms(1) by (auto simp: is_int64_def u64_id)
    then show ?thesis
      using assms nn ull2string_small [of "nat v" dstlen off dst]
      by (auto simp: ll2string_def sdec_def)
  qed
qed

subsection \<open>Parsing is correct\<close>

definition parse_int64 :: "byte list \<Rightarrow> int option" where
  "parse_int64 xs =
     (if xs = [48] then Some 0
      else let neg = (xs \<noteq> [] \<and> hd xs = 45); ds = (if neg then tl xs else xs) in
        if ds \<noteq> [] \<and> hd ds \<noteq> 48 \<and> list_all is_digit ds \<and>
          undec ds \<le> (if neg then 9223372036854775808 else 9223372036854775807)
        then Some (if neg then - int (undec ds) else int (undec ds)) else None)"

lemma not_digit_minus [simp]: "\<not> is_digit 45"
  by (simp add: is_digit_def)

lemma hd_dec_not_minus [simp]: "hd (dec n) \<noteq> 45"
  using dec_digits [of n] not_digit_minus by (cases "dec n") auto

lemma parse_int64_iff: "parse_int64 xs = Some v \<longleftrightarrow> is_int64 v \<and> xs = sdec v"
proof
  assume p: "parse_int64 xs = Some v"
  show "is_int64 v \<and> xs = sdec v"
  proof (cases "xs = [48]")
    case True
    then show ?thesis
      using p by (auto simp: parse_int64_def sdec_def dec_small is_int64_def chr_def)
  next
    case False
    define ds where "ds = (if xs \<noteq> [] \<and> hd xs = 45 then tl xs else xs)"
    have ds: "ds \<noteq> []" "hd ds \<noteq> 48" "list_all is_digit ds"
      using p False by (auto simp: parse_int64_def ds_def Let_def split: if_splits)
    have "dec (undec ds) = ds" "0 < undec ds" using ds by (auto intro: dec_undec undec_pos)
    then show ?thesis
      using p False
      by (auto simp: parse_int64_def ds_def Let_def sdec_def is_int64_def split: if_splits)
        (metis list.collapse)
  qed
next
  assume a: "is_int64 v \<and> xs = sdec v"
  show "parse_int64 xs = Some v"
  proof (cases "v = 0")
    case True
    then show ?thesis using a by (simp add: sdec_def parse_int64_def dec_small chr_def)
  next
    case False
    then have "hd (dec (nat \<bar>v\<bar>)) \<noteq> 48" by (intro hd_dec) simp
    moreover have "dec (nat v) \<noteq> [48]" if "0 < v"
      using hd_dec [of "nat v"] that by auto
    ultimately show ?thesis
      using a False dec_digits
      by (auto simp: sdec_def parse_int64_def is_int64_def Let_def)
  qed
qed

abbreviation (input) add_digit :: "nat \<Rightarrow> byte \<Rightarrow> nat" where
  "add_digit v c \<equiv> v * 10 + unat (c - 48)"

lemma foldl_add_digit_ge: "v \<le> foldl add_digit v ds"
proof (induction ds arbitrary: v)
  case (Cons c ds)
  have "v \<le> add_digit v c" by simp
  also note Cons.IH
  finally show ?case by simp
qed simp

lemma string2ll_loop_spec:
  assumes "slen \<le> length s" and "v < 2 ^ 64" and "plen \<le> slen"
  shows "string2ll_loop s slen plen v =
     (let ds = takeWhile is_digit (drop plen (take slen s)); w = foldl add_digit v ds in
      Some (if w < 2 ^ 64 then Some (plen + length ds, w) else None))"
  using assms
proof (induction "slen - plen" arbitrary: plen v)
  case 0
  then show ?case by (subst string2ll_loop.simps) simp
next
  case (Suc n)
  then have lt: "plen < slen" by simp
  define c where "c = s ! plen"
  have rd: "rd_byte s plen = Some c"
    using Suc.prems lt by (simp add: rd_byte_def c_def)
  have dr: "drop plen (take slen s) = c # drop (Suc plen) (take slen s)"
    using Suc.prems lt by (subst Cons_nth_drop_Suc [symmetric]) (auto simp: c_def)
  show ?case
  proof (cases "is_digit c")
    case False
    then show ?thesis
      using rd lt dr Suc.prems by (subst string2ll_loop.simps) (simp flip: is_digit_def)
  next
    case True
    then have d: "unat (c - 48) < 10" by (rule digit_val_less)
    let ?ds = "takeWhile is_digit (drop (Suc plen) (take slen s))"
    show ?thesis
    proof (cases "add_digit v c < 2 ^ 64")
      case fits: True
      then have u1: "u64 (int v * 10) = v * 10" and
        u2: "u64 (int v * 10 + uint (c - 48)) = add_digit v c"
        using u64_of_nat [of "v * 10"] u64_of_nat [of "add_digit v c"] by simp_all
      from fits have "string2ll_loop s slen plen v = string2ll_loop s slen (plen + 1) (add_digit v c)"
        using rd lt True fits
        by (subst string2ll_loop.simps) (auto simp: u1 u2 Let_def simp flip: is_digit_def)
      then show ?thesis
        using Suc.hyps(1) [of "plen + 1" "add_digit v c"] Suc.hyps(2) Suc.prems fits lt dr True
        by (simp add: Let_def)
    next
      case over: False
      have "foldl add_digit (add_digit v c) ?ds \<ge> 2 ^ 64"
        using foldl_add_digit_ge [of "add_digit v c" ?ds] over by linarith
      moreover have "string2ll_loop s slen plen v = Some None"
        using rd lt True d over Suc.prems(2)
        by (subst string2ll_loop.simps) (auto simp: is_digit_def u64_id Let_def not_less)
      ultimately show ?thesis
        using dr True by (simp add: Let_def)
    qed
  qed
qed

lemma string2ll_loop_undec:
  assumes "slen \<le> length s" and "plen < slen" and "is_digit (s ! plen)"
  shows "string2ll_loop s slen (Suc plen) (unat (s ! plen - 48)) =
     (let ds = takeWhile is_digit (drop plen (take slen s)) in
      Some (if undec ds < 2 ^ 64 then Some (plen + length ds, undec ds) else None))"
proof -
  have dr: "drop plen (take slen s) = s ! plen # drop (Suc plen) (take slen s)"
    using assms by (subst Cons_nth_drop_Suc [symmetric]) auto
  have "unat (s ! plen - 48) < 2 ^ 64"
    using digit_val_less [OF assms(3)] by simp
  then show ?thesis
    using assms string2ll_loop_spec [of slen s "unat (s ! plen - 48)" "Suc plen"]
    by (simp add: dr Let_def undec_def)
qed

lemma takeWhile_length_less:
  "length (takeWhile P xs) < length xs \<longleftrightarrow> \<not> list_all P xs"
  by (induction xs) auto

lemma sdec_length_int64:
  assumes "is_int64 v"
  shows "0 < length (sdec v)" and "length (sdec v) < 21"
proof -
  have "length (dec (nat \<bar>v\<bar>)) \<le> 19"
    using assms by (intro length_dec_le) (auto simp: is_int64_def)
  then show "length (sdec v) < 21" by (cases "v < 0") (auto simp: sdec_def)
qed (simp add: sdec_def)

lemma first_digit: "49 \<le> c \<and> c \<le> 57 \<longleftrightarrow> is_digit c \<and> c \<noteq> 48" for c :: byte
  unfolding is_digit_unat word_le_nat_alt word_unat_eq_iff by auto

text \<open>The final checks of \<^verbatim>\<open>string2ll\<close>, on the digits \<open>ds\<close> that remain after the sign.\<close>

lemma string2ll_final:
  assumes "length ds = slen - pl" and "pl < slen" and "hd ds \<noteq> 48"
  shows "string2ll_finish slen neg (let tw = takeWhile is_digit ds in
        if undec tw < 2 ^ 64 then Some (pl + length tw, undec tw) else None) =
     (if list_all is_digit ds \<and>
         undec ds \<le> (if neg then 9223372036854775808 else 9223372036854775807)
       then Some (if neg then - int (undec ds) else int (undec ds)) else None)"
proof (cases "list_all is_digit ds")
  case False
  then show ?thesis
    using assms takeWhile_length_less [of is_digit ds] by (auto simp: Let_def string2ll_finish_def)
next
  case True
  then have tw: "takeWhile is_digit ds = ds"
    by (simp add: list_all_iff)
  have "0 < undec ds" using True assms by (intro undec_pos) auto
  then show ?thesis
    using True assms s64_u64_neg [of "undec ds"] s64_id [of "undec ds"]
    by (simp add: Let_def tw string2ll_finish_def)
qed

theorem string2ll_parse:
  assumes "slen \<le> length s"
  shows "string2ll s slen = Some (parse_int64 (take slen s))"
proof (cases "slen = 0 \<or> 21 \<le> slen")
  case True
  then have "parse_int64 (take slen s) = None"
    using parse_int64_iff [of "take slen s" "the (parse_int64 (take slen s))"]
      sdec_length_int64 [of "the (parse_int64 (take slen s))"] assms length_take [of slen s]
    by (cases "parse_int64 (take slen s)") auto
  then show ?thesis using True by (auto simp: string2ll_def)
next
  case len: False
  define xs where "xs = take slen s"
  have x0: "xs \<noteq> []" "hd xs = s ! 0" "rd_byte s 0 = Some (s ! 0)" and lx: "length xs = slen"
    using len assms by (cases s; cases slen; auto simp: xs_def rd_byte_def)+
  define neg where "neg = (s ! 0 = 45)"
  define pl :: nat where "pl = (if neg then 1 else 0)"
  define ds where "ds = drop pl xs"
  have p: "parse_int64 xs = (if xs = [48] then Some 0 else
      if ds \<noteq> [] \<and> hd ds \<noteq> 48 \<and> list_all is_digit ds \<and>
        undec ds \<le> (if neg then 9223372036854775808 else 9223372036854775807)
      then Some (if neg then - int (undec ds) else int (undec ds)) else None)"
    using x0 by (cases xs) (auto simp: parse_int64_def ds_def pl_def neg_def Let_def)
  have one: "xs = [48] \<longleftrightarrow> slen = 1 \<and> s ! 0 = 48"
    using x0 lx by (cases xs) auto
  show ?thesis
  proof (cases "xs = [48] \<or> ds = []")
    case True
    then have "xs = [48] \<or> neg \<and> slen = 1"
      using x0 lx len by (auto simp: ds_def pl_def le_Suc_eq split: if_splits)
    then show ?thesis
      using True len x0 one p by (auto simp: string2ll_def neg_def ds_def pl_def simp flip: xs_def)
  next
    case False
    then have pl: "pl < slen" "length ds = slen - pl" using lx by (auto simp: ds_def)
    then have c: "rd_byte s pl = Some (s ! pl)" "hd ds = s ! pl"
      using assms lx by (auto simp: rd_byte_def ds_def hd_drop_conv_nth xs_def)
    have "string2ll s slen =
        (if s ! pl \<ge> 49 \<and> s ! pl \<le> 57 then do {
            r \<leftarrow> string2ll_loop s slen (Suc pl) (unat (s ! pl - 48));
            Some (string2ll_finish slen neg r) }
         else Some None)"
      using len one x0 c False pl by (simp add: string2ll_def Let_def pl_def neg_def)
    also have "\<dots> = Some (parse_int64 xs)"
    proof (cases "is_digit (s ! pl) \<and> s ! pl \<noteq> 48")
      case True
      have "string2ll_loop s slen (Suc pl) (unat (s ! pl - 48)) = Some (let tw = takeWhile is_digit ds in
        if undec tw < 2 ^ 64 then Some (pl + length tw, undec tw) else None)"
        using string2ll_loop_undec [OF assms pl(1)] True by (simp add: ds_def xs_def Let_def)
      then show ?thesis
        using True c False string2ll_final [OF pl(2,1), of neg] p by (simp add: first_digit)
    next
      case False
      then show ?thesis
        using c \<open>\<not> (xs = [48] \<or> ds = [])\<close>
        by (cases ds) (auto simp: p first_digit split: if_splits)
    qed
    finally show ?thesis by (simp add: xs_def)
  qed
qed


subsection \<open>Properties\<close>

text \<open>C33: \<^verbatim>\<open>string2ll\<close> accepts exactly the canonical decimal notation of the 64-bit signed integers:
  for a string of at most the size of the buffer it always returns without reading outside, and it
  returns 1 with the value \<open>v\<close> if and only if \<open>v\<close> is in range and the string is the decimal
  notation of \<open>v\<close> (no leading zeros, no blanks, no plus sign, no minus zero).\<close>

theorem string2ll_iff:
  assumes "slen \<le> length s"
  shows "\<exists>r. string2ll s slen = Some r \<and> (\<forall>v. r = Some v \<longleftrightarrow> is_int64 v \<and> take slen s = sdec v)"
  using assms by (auto simp: string2ll_parse parse_int64_iff)

theorem string2ll_iff_witness:
  "\<exists>r. string2ll [45, 55, 0] 2 = Some r \<and>
     (\<forall>v. r = Some v \<longleftrightarrow> is_int64 v \<and> take 2 [45, 55, 0] = sdec v)"
  by (rule string2ll_iff) simp

text \<open>C34: \<^verbatim>\<open>ll2string\<close> stays within the \<open>dstlen\<close> bytes it is given. It returns the number of
  characters that \<^verbatim>\<open>sdigits10\<close> announces if they fit together with the terminator, and 0
  otherwise; what it writes is terminated, and \<^verbatim>\<open>string2ll\<close> reads the number back.\<close>

theorem ll2string_roundtrip:
  assumes "is_int64 v" and "off + dstlen \<le> length dst"
  shows "\<exists>b n. ll2string dst off dstlen v = Some (b, n) \<and> frame dst off (off + dstlen) b \<and>
     n = (if sdigits10 v < dstlen then sdigits10 v else 0) \<and>
     (n \<noteq> 0 \<longrightarrow> b ! (off + n) = 0 \<and> string2ll (drop off b) n = Some (Some v))"
proof (cases "length (sdec v) < dstlen")
  case True
  then obtain b where b: "wr dst off (sdec v @ [0]) = Some b"
    using assms wr_within [of off "sdec v @ [0]" dst] by auto
  then have "frame dst off (off + dstlen) b"
    using True by (intro wr_frame [OF b]) auto
  moreover have "b ! (off + length (sdec v)) = 0" "take (length (sdec v)) (drop off b) = sdec v"
    "length (sdec v) \<le> length (drop off b)"
    using b by (auto simp: wr_def nth_append min_def split: if_splits)
  moreover have "parse_int64 (sdec v) = Some v"
    using assms(1) by (simp add: parse_int64_iff)
  ultimately show ?thesis
    using True b assms(1) by (simp add: ll2string_fits sdigits10_length_sdec string2ll_parse)
next
  case False
  then show ?thesis
    using assms ll2string_small [of v dstlen off dst] by (simp add: sdigits10_length_sdec)
qed

theorem ll2string_roundtrip_witness:
  "\<exists>b n. ll2string [1, 2, 3, 4, 5] 1 3 (-7) = Some (b, n) \<and> frame [1, 2, 3, 4, 5] 1 4 b \<and>
     n = (if sdigits10 (-7) < 3 then sdigits10 (-7) else 0) \<and>
     (n \<noteq> 0 \<longrightarrow> b ! (1 + n) = 0 \<and> string2ll (drop 1 b) n = Some (Some (-7)))"
  using ll2string_roundtrip [of "-7" 1 3 "[1, 2, 3, 4, 5]"] by (simp add: is_int64_def)

text \<open>Auxiliary facts on \<^verbatim>\<open>strtoull\<close>.\<close>

lemma digit_not_space: "is_digit c \<Longrightarrow> \<not> isspace c \<and> c \<noteq> 43 \<and> c \<noteq> 45"
  unfolding is_digit_unat isspace_def word_le_nat_alt word_unat_eq_iff by auto

lemma takeWhile_all: "list_all P xs \<Longrightarrow> takeWhile P xs = xs"
  by (simp add: list_all_iff)

lemma strtoull_digits:
  assumes "list_all is_digit ds" and "ds \<noteq> []"
  shows "strtoull einval ds =
     (if undec ds < 2 ^ 64 then undec ds else 18446744073709551615,
      if undec ds < 2 ^ 64 then None else Some ERANGE, length ds)"
proof -
  obtain c cs where "ds = c # cs" and c: "is_digit c"
    using assms by (cases ds) auto
  then have "dropWhile isspace ds = ds" "hd ds \<noteq> 43" "hd ds \<noteq> 45"
    using digit_not_space [OF c] by simp_all
  then show ?thesis
    using assms by (simp add: strtoull_def Let_def takeWhile_all not_less)
qed

lemma strtoull_neg_digits:
  assumes "list_all is_digit ds" and "ds \<noteq> []" and "undec ds < 2 ^ 64"
  shows "strtoull einval (45 # ds) = (u64 (- int (undec ds)), None, Suc (length ds))"
  using assms by (simp add: strtoull_def isspace_def Let_def takeWhile_all)

lemma parse_int64_dec: "parse_int64 (dec n) = (if n < 2 ^ 63 then Some (int n) else None)"
proof (cases "n < 2 ^ 63")
  case True
  then show ?thesis by (simp add: parse_int64_iff is_int64_def sdec_def)
next
  case False
  have "parse_int64 (dec n) \<noteq> Some v" for v
  proof
    assume "parse_int64 (dec n) = Some v"
    then have v: "is_int64 v" "dec n = sdec v" by (simp_all add: parse_int64_iff)
    then have "\<not> v < 0" using hd_dec_not_minus [of n] by (auto simp: sdec_def)
    with v(2) have "dec n = dec (nat v)" by (simp add: sdec_def)
    then have "n = nat v" by (metis undec_dec)
    with v(1) False show False by (auto simp: is_int64_def)
  qed
  with False show ?thesis by (cases "parse_int64 (dec n)") auto
qed

lemma undec_Cons0: "undec (48 # ds) = undec ds"
  by (simp add: undec_def)

lemma parse_int64_minus_zero: "parse_int64 (45 # 48 # ds) = None"
  by (simp add: parse_int64_def)

text \<open>\<^verbatim>\<open>string2ull\<close> reads back the decimal notation of every unsigned 64-bit integer and
  rejects the decimal notation of every larger number.\<close>

theorem string2ull_dec:
  "string2ull einval (dec n) = Some (if n < 2 ^ 64 then Some n else None)"
  using strtoull_digits [OF dec_digits dec_not_Nil, of einval n]
  by (simp add: string2ull_def string2ll_parse parse_int64_dec u64_of_nat)

text \<open>\<^verbatim>\<open>string2ull\<close> means to reject negative numbers, and does so when \<^verbatim>\<open>string2ll\<close> can read them;
  but a minus sign followed by a leading zero falls through to \<^verbatim>\<open>strtoull\<close>, which negates in the
  unsigned type, and the call succeeds with a huge value.\<close>

theorem string2ull_accepts_negative:
  assumes "0 < n" and "n < 2 ^ 64"
  shows "string2ull einval (45 # 48 # dec n) = Some (Some (2 ^ 64 - n))"
proof -
  have "list_all is_digit (48 # dec n)"
    using dec_digits by (simp add: is_digit_def)
  moreover have "u64 (- int n) = 2 ^ 64 - n"
  proof -
    have "- int n mod 18446744073709551616 = 18446744073709551616 - int n"
      using assms by (intro int_mod_pos_eq [where q = "-1"]) auto
    then show ?thesis by (simp add: u64_def nat_diff_distrib)
  qed
  ultimately show ?thesis
    using assms strtoull_neg_digits [of "48 # dec n" einval]
    by (simp add: string2ull_def string2ll_parse parse_int64_minus_zero undec_Cons0)
qed

theorem string2ull_accepts_negative_witness:
  "string2ull False (45 # 48 # dec 1) = Some (Some (2 ^ 64 - 1))"
  using string2ull_accepts_negative [of 1 False] by simp

lemma takeWhile_digits_app:
  "list_all is_digit ds \<Longrightarrow> u = [] \<or> \<not> is_digit (hd u) \<Longrightarrow>
     takeWhile is_digit (ds @ u) = ds \<and> dropWhile is_digit (ds @ u) = u"
  by (induction ds) (cases u; auto)+

text \<open>\<^verbatim>\<open>memtoull\<close> multiplies the number by its unit without any overflow check: a decimal
  number of up to 64 bits followed by a unit is accepted, and the result is the product
  modulo 2 to the 64.\<close>

theorem memtoull_wraps:
  assumes "n < 2 ^ 64" and "memtoull_unit u = Some mul" and "u = [] \<or> \<not> is_digit (hd u)"
  shows "memtoull einval (dec n @ u) = (n * mul mod 2 ^ 64, False)"
proof -
  have "hd (dec n @ u) \<noteq> 45" by simp
  moreover have "length (dec n) < 128"
    using length_dec_u64 [OF assms(1)] by simp
  moreover have "u64 (int n * int mul) = n * mul mod 2 ^ 64"
    by (simp add: u64_def nat_mod_distrib nat_mult_distrib)
  ultimately show ?thesis
    using assms takeWhile_digits_app [OF dec_digits assms(3), of n]
      strtoull_digits [OF dec_digits dec_not_Nil, of einval n]
    by (simp add: memtoull_def)
qed

theorem memtoull_wraps_witness:
  "memtoull False (dec 17179869184 @ [103, 98]) = (0, False)"
  using memtoull_wraps [of 17179869184 "[103, 98]" "1024 * 1024 * 1024" False]
  by (simp add: memtoull_unit_def strcaseeq_def tolower_def is_digit_def)

definition is_hex :: "byte \<Rightarrow> bool" where
  "is_hex c \<longleftrightarrow> base_16_char_type c \<noteq> -1"

definition hex_val :: "byte \<Rightarrow> nat" where
  "hex_val c = unat (c - ascii_to_dec ! nat (base_16_char_type c))"

definition unhex :: "nat \<Rightarrow> byte list \<Rightarrow> nat" where
  "unhex = foldl (\<lambda>v c. v * 16 + hex_val c)"

lemma hex_val_less: "is_hex c \<Longrightarrow> hex_val c < 16"
  unfolding is_hex_def hex_val_def base_16_char_type_def ascii_to_dec_def
  by (auto simp: word_le_nat_alt unat_sub split: if_splits)

lemma unhex_ge: "v \<le> unhex v hs"
proof (induction hs arbitrary: v)
  case (Cons c hs)
  have "v \<le> v * 16 + hex_val c" by simp
  also note Cons.IH
  finally show ?case by (simp add: unhex_def)
qed (simp add: unhex_def)

lemma hex_overflow:
  fixes res d :: nat
  assumes "d < 16"
  shows "(18446744073709551615 div 16 < res \<or> (18446744073709551615 - d) div 16 < res) \<longleftrightarrow>
     2 ^ 64 \<le> res * 16 + d"
  using assms by (auto simp: div_less_iff_less_mult)

lemma base16_loop_spec:
  assumes "slen \<le> length src" and "idx \<le> slen" and "res < 2 ^ 64"
  shows "base16_loop src slen idx res =
     (let hs = takeWhile is_hex (drop idx (take slen src)); w = unhex res hs in
      if 2 ^ 64 \<le> w then Some None
      else if idx + length hs = length src then None else Some (Some w))"
  using assms
proof (induction "slen - idx" arbitrary: idx res)
  case 0
  then show ?case
    by (subst base16_loop.simps) (simp add: unhex_def rd_byte_def)
next
  case (Suc n)
  then have lt: "idx < slen" by simp
  define c where "c = src ! idx"
  have rd: "rd_byte src idx = Some c"
    using Suc.prems lt by (simp add: rd_byte_def c_def)
  have dr: "drop idx (take slen src) = c # drop (Suc idx) (take slen src)"
    using Suc.prems lt by (subst Cons_nth_drop_Suc [symmetric]) (auto simp: c_def)
  let ?hs = "takeWhile is_hex (drop (Suc idx) (take slen src))"
  show ?case
  proof (cases "is_hex c")
    case False
    then show ?thesis
      using rd lt dr Suc.prems by (subst base16_loop.simps) (simp add: is_hex_def unhex_def)
  next
    case True
    note d = hex_val_less [OF True]
    show ?thesis
    proof (cases "res * 16 + hex_val c < 2 ^ 64")
      case fits: True
      then have u: "u64 (int res * 16 + int (hex_val c)) = res * 16 + hex_val c"
        using u64_of_nat [of "res * 16 + hex_val c"] by simp
      have "base16_loop src slen idx res = base16_loop src slen (idx + 1) (res * 16 + hex_val c)"
        using rd lt True fits hex_overflow [OF d, of res] u
        by (subst base16_loop.simps) (simp add: is_hex_def Let_def flip: hex_val_def)
      then show ?thesis
        using Suc.hyps(1) [of "idx + 1" "res * 16 + hex_val c"] Suc.hyps(2) Suc.prems fits lt dr True
        by (simp add: Let_def unhex_def)
    next
      case over: False
      then have "2 ^ 64 \<le> unhex res (c # ?hs)"
        using unhex_ge [of "res * 16 + hex_val c" ?hs] by (simp add: unhex_def)
      moreover have "base16_loop src slen idx res = Some None"
        using rd lt True over hex_overflow [OF d, of res]
        by (subst base16_loop.simps) (auto simp: is_hex_def Let_def simp flip: hex_val_def)
      ultimately show ?thesis
        using dr True by (simp add: Let_def)
    qed
  qed
qed

text \<open>The loop of \<^verbatim>\<open>string2ul_base16_async_signal_safe\<close> inspects the character at the index
  before it compares the index with \<^verbatim>\<open>slen\<close>. On a buffer of exactly \<open>slen\<close> bytes, all of
  them hexadecimal digits of a 64-bit value, it reads one byte past the end; with one more readable
  byte behind them it returns the value.\<close>

theorem base16_overread:
  assumes "list_all is_hex src" and "unhex 0 src < 2 ^ 64"
  shows "string2ul_base16_async_signal_safe src (length src) = None \<and>
     string2ul_base16_async_signal_safe (src @ [0]) (length src) = Some (Some (unhex 0 src))"
  using assms
  by (simp add: string2ul_base16_async_signal_safe_def base16_loop_spec takeWhile_all)

theorem base16_overread_witness:
  "string2ul_base16_async_signal_safe [102, 48] (Suc (Suc 0)) = None \<and>
     string2ul_base16_async_signal_safe [102, 48, 0] (Suc (Suc 0)) = Some (Some 240)"
  using base16_overread [of "[102, 48]"]
  by (simp add: is_hex_def unhex_def hex_val_def base_16_char_type_def ascii_to_dec_def)

end
