(* ===== verification/Glob_Match.thy ===== *)
theory Glob_Match
  imports Util_Numbers
begin

text \<open>
  Glob-style pattern matching of \<^verbatim>\<open>util.c\<close> (\<^verbatim>\<open>stringmatchlen_impl\<close>, \<^verbatim>\<open>stringmatchlen\<close>).

  A pointer into the pattern is an offset into the buffer \<open>pat\<close>; the matcher reads the byte
  behind the pattern, so the buffer of a well-formed call has a terminator there. The flag
  \<^verbatim>\<open>*skipLongerMatches\<close> is passed in and returned. \<^verbatim>\<open>patternLen\<close> is an integer, as in the
  source; \<^verbatim>\<open>stringLen\<close> is only decremented when it is not zero and is a natural number.

  The reference semantics compiles a pattern into a list of tokens, and matches the tokens by
  plain backtracking. The theorem is that the matcher with its early termination computes
  the same result on every non-empty string; the empty string is treated differently.
\<close>

subsection \<open>The matcher\<close>

text \<open>Line 70: collapse a run of stars.\<close>

function glob_stars :: "buffer \<Rightarrow> nat \<Rightarrow> int \<Rightarrow> (nat \<times> int) option" where
  "glob_stars pat p plen =
     (if plen \<noteq> 0 then do {
        c \<leftarrow> rd_byte pat (p + 1);
        if c = 42 then glob_stars pat (p + 1) (plen - 1) else Some (p, plen)
      }
      else Some (p, plen))"
  by pat_completeness auto
termination by (relation "measure (\<lambda>(pat, p, _). length pat - p)")
  (auto simp: rd_byte_def split: if_splits)

text \<open>Line 174: skip the stars that follow when the string is used up.\<close>

function glob_trailing :: "buffer \<Rightarrow> nat \<Rightarrow> int \<Rightarrow> (nat \<times> int) option" where
  "glob_trailing pat p plen = do {
     c \<leftarrow> rd_byte pat p;
     if c = 42 then glob_trailing pat (p + 1) (plen - 1) else Some (p, plen)
   }"
  by pat_completeness auto
termination by (relation "measure (\<lambda>(pat, p, _). length pat - p)")
  (auto simp: rd_byte_def split: if_splits)

text \<open>\<^verbatim>\<open>tolower\<close> on the \<^verbatim>\<open>int\<close> value of a (signed) \<^verbatim>\<open>char\<close>, and the comparison of two characters.\<close>

definition tolower_int :: "int \<Rightarrow> int" where
  "tolower_int c = (if 65 \<le> c \<and> c \<le> 90 then c + 32 else c)"

definition char_eq :: "bool \<Rightarrow> byte \<Rightarrow> byte \<Rightarrow> bool" where
  "char_eq nocase a b \<longleftrightarrow> (if \<not> nocase then a = b else tolower_int (sint a) = tolower_int (sint b))"

definition glob_in_range :: "bool \<Rightarrow> byte \<Rightarrow> byte \<Rightarrow> byte \<Rightarrow> bool" where
  "glob_in_range nocase a b x =
     (let (start, end) = (if sint a > sint b then (sint b, sint a) else (sint a, sint b));
          (start, end, c) = (if nocase then (tolower_int start, tolower_int end, tolower_int (sint x))
                             else (start, end, sint x))
      in c \<ge> start \<and> c \<le> end)"

text \<open>Lines 111 to 148: the loop over a character class. \<open>x\<close> is the current character of the string.\<close>

function glob_bracket :: "bool \<Rightarrow> byte \<Rightarrow> buffer \<Rightarrow> nat \<Rightarrow> int \<Rightarrow> bool \<Rightarrow> (nat \<times> int \<times> bool) option" where
  "glob_bracket nocase x pat p plen match = do {
     c \<leftarrow> rd_byte pat p;
     if c = 92 \<and> plen \<ge> 2 then do {
       d \<leftarrow> rd_byte pat (p + 1);
       glob_bracket nocase x pat (p + 2) (plen - 2) (match \<or> d = x)
     }
     else if c = 93 then Some (p, plen, match)
     else if plen = 0 then Some (p - 1, plen + 1, match)
     else do {
       range \<leftarrow> (if plen \<ge> 3 then do { d \<leftarrow> rd_byte pat (p + 1); Some (d = 45) } else Some False);
       if range then do {
         b \<leftarrow> rd_byte pat (p + 2);
         glob_bracket nocase x pat (p + 3) (plen - 3) (match \<or> glob_in_range nocase c b x)
       }
       else glob_bracket nocase x pat (p + 1) (plen - 1) (match \<or> char_eq nocase c x)
     }
   }"
  by pat_completeness auto
termination by (relation "measure (\<lambda>(_, _, pat, p, _, _). length pat - p)")
  (auto simp: rd_byte_def split: if_splits)

declare glob_stars.simps [simp del] glob_trailing.simps [simp del] glob_bracket.simps [simp del]

text \<open>One round of the loop of line 67, up to line 170: what happens at a pattern character that is
  not a star. The result is \<open>None\<close> for \<^verbatim>\<open>return 0\<close>, and otherwise the new position in the
  pattern; the string always advances by one character.\<close>

definition glob_one :: "bool \<Rightarrow> buffer \<Rightarrow> nat \<Rightarrow> int \<Rightarrow> buffer \<Rightarrow> nat \<Rightarrow> (nat \<times> int) option option" where
  "glob_one nocase pat p plen s i = do {
     c \<leftarrow> rd_byte pat p;
     if c = 63 then Some (Some (p, plen))
     else if c = 91 then do {
       let (p, plen) = (p + 1, plen - 1);
       d \<leftarrow> rd_byte pat p;
       let not_op = (d = 94);
       let (p, plen) = (if not_op then (p + 1, plen - 1) else (p, plen));
       x \<leftarrow> rd_byte s i;
       (p, plen, match) \<leftarrow> glob_bracket nocase x pat p plen False;
       if (if not_op then match else \<not> match) then Some None else Some (Some (p, plen))
     }
     else do {
       let (p, plen) = (if c = 92 \<and> plen \<ge> 2 then (p + 1, plen - 1) else (p, plen));
       d \<leftarrow> rd_byte pat p;
       x \<leftarrow> rd_byte s i;
       if \<not> char_eq nocase d x then Some None else Some (Some (p, plen))
     }
   }"

lemma glob_stars_ge: "glob_stars pat p plen = Some (p', plen') \<Longrightarrow> p \<le> p'"
proof (induction pat p plen rule: glob_stars.induct)
  case (1 pat p plen)
  from 1(2) show ?case
    by (subst (asm) glob_stars.simps) (auto simp: bind_eq_Some_conv dest: 1(1) split: if_splits)
qed

text \<open>\<open>glob_impl\<close> is \<^verbatim>\<open>stringmatchlen_impl\<close>, \<open>glob_loop\<close> its loop from line 67 on, and
  \<open>glob_star_loop\<close> the loop of line 75. The result is the returned value and the final value of
  \<^verbatim>\<open>*skipLongerMatches\<close>.\<close>

function glob_impl glob_loop glob_star_loop ::
  "bool \<Rightarrow> buffer \<Rightarrow> nat \<Rightarrow> int \<Rightarrow> buffer \<Rightarrow> nat \<Rightarrow> nat \<Rightarrow> bool \<Rightarrow> nat \<Rightarrow> (bool \<times> bool) option" where
  "glob_impl nocase pat p plen s i slen skip nesting =
     (if nesting > 1000 then Some (False, skip)
      else glob_loop nocase pat p plen s i slen skip nesting)"
| "glob_loop nocase pat p plen s i slen skip nesting =
     (if plen \<noteq> 0 \<and> slen \<noteq> 0 then do {
        c \<leftarrow> rd_byte pat p;
        if c = 42 then do {
          (p, plen) \<leftarrow> glob_stars pat p plen;
          if plen = 1 then Some (True, skip)
          else glob_star_loop nocase pat p plen s i slen skip nesting
        }
        else do {
          r \<leftarrow> glob_one nocase pat p plen s i;
          case r of
            None \<Rightarrow> Some (False, skip)
          | Some (p, plen) \<Rightarrow>
              if slen - 1 = 0 then do {
                (p, plen) \<leftarrow> glob_trailing pat (p + 1) (plen - 1);
                Some (plen = 0, skip)
              }
              else glob_loop nocase pat (p + 1) (plen - 1) s (i + 1) (slen - 1) skip nesting
        }
      }
      else Some (plen = 0 \<and> slen = 0, skip))"
| "glob_star_loop nocase pat p plen s i slen skip nesting =
     (if slen \<noteq> 0 then do {
        (r, skip) \<leftarrow> glob_impl nocase pat (p + 1) (plen - 1) s i slen skip (nesting + 1);
        if r then Some (True, skip)
        else if skip then Some (False, skip)
        else glob_star_loop nocase pat p plen s (i + 1) (slen - 1) skip nesting
      }
      else Some (False, True))"
  by pat_completeness auto
termination
  by (relation "inv_image (less_than <*lex*> less_than <*lex*> less_than) (\<lambda>x. case x of
      Inl (_, pat, p, _, _, _, slen, _) \<Rightarrow> (slen, length pat - p, 2)
    | Inr (Inl (_, pat, p, _, _, _, slen, _)) \<Rightarrow> (slen, length pat - p, 1)
    | Inr (Inr (_, pat, p, _, _, _, slen, _)) \<Rightarrow>
        (slen, length pat - p, if p < length pat then 0 else 3))")
    (auto simp: rd_byte_def split: if_splits dest: glob_stars_ge)

declare glob_impl.simps [simp del] glob_loop.simps [simp del] glob_star_loop.simps [simp del]

definition stringmatchlen :: "buffer \<Rightarrow> nat \<Rightarrow> buffer \<Rightarrow> nat \<Rightarrow> bool \<Rightarrow> bool option" where
  "stringmatchlen pat plen s slen nocase =
     map_option fst (glob_impl nocase pat 0 (int plen) s 0 slen False 0)"

subsection \<open>Reference semantics\<close>

datatype gtok = Star | One "byte \<Rightarrow> bool"

fun glob_class :: "bool \<Rightarrow> byte list \<Rightarrow> (byte \<Rightarrow> bool) \<times> byte list" where
  "glob_class nc [] = (\<lambda>_. False, [])"
| "glob_class nc (a # q) =
     (if a = 92 \<and> q \<noteq> [] then
        (let (f, r) = glob_class nc (tl q) in (\<lambda>x. hd q = x \<or> f x, r))
      else if a = 93 then (\<lambda>_. False, q)
      else if length q \<ge> 2 \<and> hd q = 45 then
        (let (f, r) = glob_class nc (drop 2 q) in (\<lambda>x. glob_in_range nc a (q ! 1) x \<or> f x, r))
      else (let (f, r) = glob_class nc q in (\<lambda>x. char_eq nc a x \<or> f x, r)))"

lemma glob_class_length: "length (snd (glob_class nc q)) \<le> length q"
  by (induction nc q rule: glob_class.induct) (auto simp: Let_def split_def)

function compile :: "bool \<Rightarrow> byte list \<Rightarrow> gtok list" where
  "compile nc [] = []"
| "compile nc (c # q) =
     (if c = 42 then Star # compile nc q
      else if c = 63 then One (\<lambda>_. True) # compile nc q
      else if c = 91 then
        (let neg = (q \<noteq> [] \<and> hd q = 94); (f, r) = glob_class nc (if neg then tl q else q)
         in One (\<lambda>x. f x \<noteq> neg) # compile nc r)
      else if c = 92 \<and> q \<noteq> [] then One (char_eq nc (hd q)) # compile nc (tl q)
      else One (char_eq nc c) # compile nc q)"
  by pat_completeness auto
termination
proof (relation "measure (\<lambda>(_, q). length q)", goal_cases)
  case (4 nc c q neg p f r)
  then have "length r \<le> length (if neg then tl q else q)"
    using glob_class_length by (metis snd_conv)
  then show ?case by (auto split: if_splits)
qed auto

fun matches :: "gtok list \<Rightarrow> byte list \<Rightarrow> bool" where
  "matches [] s = (s = [])"
| "matches (Star # ts) [] = matches ts []"
| "matches (Star # ts) (c # s) = (matches ts (c # s) \<or> matches (Star # ts) s)"
| "matches (One f # ts) [] = False"
| "matches (One f # ts) (c # s) = (f c \<and> matches ts s)"

text \<open>The number of runs of stars, which bounds the recursion depth of the matcher.\<close>

fun star_runs :: "gtok list \<Rightarrow> nat" where
  "star_runs [] = 0"
| "star_runs (One f # ts) = star_runs ts"
| "star_runs (Star # ts) = (if ts \<noteq> [] \<and> hd ts = Star then star_runs ts else Suc (star_runs ts))"

subsection \<open>Correctness\<close>

primrec pat_at :: "buffer \<Rightarrow> byte list \<Rightarrow> nat \<Rightarrow> bool" where
  "pat_at pat [] p \<longleftrightarrow> rd_byte pat p = Some 0"
| "pat_at pat (c # q) p \<longleftrightarrow> rd_byte pat p = Some c \<and> pat_at pat q (p + 1)"

primrec str_at :: "buffer \<Rightarrow> byte list \<Rightarrow> nat \<Rightarrow> bool" where
  "str_at s [] i \<longleftrightarrow> True"
| "str_at s (c # xs) i \<longleftrightarrow> rd_byte s i = Some c \<and> str_at s xs (i + 1)"

lemma pat_at_append: "pat_at (pre @ q @ 0 # junk) q (length pre)"
proof (induction q arbitrary: pre)
  case (Cons c q)
  show ?case using Cons [of "pre @ [c]"] by (simp add: rd_byte_def)
qed (simp add: rd_byte_def)

lemma str_at_append: "str_at (pre @ xs @ junk) xs (length pre)"
proof (induction xs arbitrary: pre)
  case (Cons c q)
  show ?case using Cons [of "pre @ [c]"] by (simp add: rd_byte_def)
qed simp

lemma glob_bracket_spec:
  assumes "pat_at pat q p" and "0 < p"
  shows "\<exists>p'. glob_bracket nc x pat p (int (length q)) m =
      Some (p', int (length (snd (glob_class nc q))) + 1, m \<or> fst (glob_class nc q) x) \<and>
     pat_at pat (snd (glob_class nc q)) (p' + 1)"
  using assms
proof (induction nc q arbitrary: p m rule: glob_class.induct)
  case (1 nc)
  then show ?case by (subst glob_bracket.simps) simp
next
  case (2 nc a q)
  have rd: "rd_byte pat p = Some a" and q: "pat_at pat q (Suc p)"
    using 2(4) by simp_all
  consider (esc) "a = 92" "q \<noteq> []" | (close) "\<not> (a = 92 \<and> q \<noteq> [])" "a = 93"
    | (range) "\<not> (a = 92 \<and> q \<noteq> [])" "a \<noteq> 93" "length q \<ge> 2 \<and> hd q = 45"
    | (lit) "\<not> (a = 92 \<and> q \<noteq> [])" "a \<noteq> 93" "\<not> (length q \<ge> 2 \<and> hd q = 45)"
    by blast
  then show ?case
  proof cases
    case esc
    then obtain d r where d: "q = d # r" by (cases q) auto
    have "int (length (a # q)) - 2 = int (length r)" by (simp add: d)
    then show ?thesis
      using 2(1) [OF _, of "p + 2" "m \<or> d = x"] esc rd q d
      by (subst glob_bracket.simps) (auto simp: split_def Let_def)
  next
    case close
    then show ?thesis
      using rd q by (subst glob_bracket.simps) auto
  next
    case range
    then obtain b r where d: "q = 45 # b # r"
      by (cases q; cases "tl q") auto
    have "int (length (a # q)) - 3 = int (length r)" by (simp add: d)
    then show ?thesis
      using 2(2) [OF range, of "p + 3" "m \<or> glob_in_range nc a b x"] range rd q d
      by (subst glob_bracket.simps) (auto simp: split_def Let_def numeral_3_eq_3)
  next
    case lit
    have n: "rd_byte pat (Suc p) \<noteq> Some 45 \<and> rd_byte pat (Suc p) \<noteq> None" if "2 \<le> length q"
      using lit q that by (cases q) auto
    show ?thesis
      using 2(3) [OF lit, of "p + 1" "m \<or> char_eq nc a x"] lit rd q n
      by (subst glob_bracket.simps) (auto simp: split_def Let_def)
  qed
qed

lemma glob_one_spec:
  assumes "pat_at pat (c # q) p" and "c \<noteq> 42" and "rd_byte s i = Some x"
  shows "\<exists>f r p'. compile nc (c # q) = One f # compile nc r \<and> length r \<le> length q \<and>
     pat_at pat r (p' + 1) \<and>
     glob_one nc pat p (int (length (c # q))) s i =
       Some (if f x then Some (p', int (length r) + 1) else None)"
proof -
  have rd: "rd_byte pat p = Some c" and q: "pat_at pat q (Suc p)" using assms(1) by simp_all
  consider "c = 63" | "c = 91" | "c \<noteq> 63" "c \<noteq> 91" "c = 92" "q \<noteq> []"
    | "c \<noteq> 63" "c \<noteq> 91" "\<not> (c = 92 \<and> q \<noteq> [])" by blast
  then show ?thesis
  proof cases
    case 1
    then show ?thesis
      using rd q by (intro exI [of _ "\<lambda>_. True"] exI [of _ q] exI [of _ p]) (simp add: glob_one_def)
  next
    case 2
    define neg where "neg = (q \<noteq> [] \<and> hd q = 94)"
    define q' where "q' = (if neg then tl q else q)"
    define p1 where "p1 = (if neg then p + 2 else p + 1)"
    have q': "pat_at pat q' p1" "0 < p1" "rd_byte pat (Suc p) = Some d \<Longrightarrow> d = 94 \<longleftrightarrow> neg" for d
      using q by (cases q; auto simp: q'_def p1_def neg_def)+
    obtain p' where p': "glob_bracket nc x pat p1 (int (length q')) False =
        Some (p', int (length (snd (glob_class nc q'))) + 1, fst (glob_class nc q') x)"
      "pat_at pat (snd (glob_class nc q')) (p' + 1)"
      using glob_bracket_spec [OF q'(1,2), of nc x False] by auto
    obtain d where d: "rd_byte pat (Suc p) = Some d" "d = 94 \<longleftrightarrow> neg"
      using q q'(3) by (cases q) auto
    have l: "int (length q') = (if neg then int (length q) - 1 else int (length q))"
      by (cases q) (auto simp: q'_def neg_def)
    have "glob_one nc pat p (int (length (c # q))) s i =
       Some (if fst (glob_class nc q') x \<noteq> neg then
         Some (p', int (length (snd (glob_class nc q'))) + 1) else None)"
      using 2 rd d p'(1) l assms(3)
      by (cases neg) (auto simp: glob_one_def p1_def)
    moreover have "compile nc (c # q) =
        One (\<lambda>x. fst (glob_class nc q') x \<noteq> neg) # compile nc (snd (glob_class nc q'))"
      using 2 by (simp add: split_def Let_def q'_def flip: neg_def)
    moreover have "length (snd (glob_class nc q')) \<le> length q"
      using glob_class_length [of nc q'] by (auto simp: q'_def split: if_splits)
    ultimately show ?thesis using p'(2) by blast
  next
    case 3
    then obtain d r where d: "q = d # r" by (cases q) auto
    show ?thesis
      using 3 rd q d assms(3)
      by (intro exI [of _ "char_eq nc d"] exI [of _ r] exI [of _ "p + 1"]) (simp add: glob_one_def)
  next
    case 4
    then have "\<not> (c = 92 \<and> int (length (c # q)) \<ge> 2)" by (cases q) auto
    then show ?thesis
      using 4 rd q assms(2,3)
      by (intro exI [of _ "char_eq nc c"] exI [of _ q] exI [of _ p]) (auto simp: glob_one_def)
  qed
qed

lemma matches_Star: "matches (Star # ts) s \<longleftrightarrow> (\<exists>k. matches ts (drop k s))"
proof (induction s)
  case (Cons c s)
  have "(\<exists>k. matches ts (drop k (c # s))) \<longleftrightarrow>
      matches ts (c # s) \<or> (\<exists>k. matches ts (drop k s))"
    by (metis drop0 drop_Suc_Cons not0_implies_Suc)
  with Cons show ?case by simp
qed simp

lemma matches_Star_Star: "matches (Star # Star # ts) s = matches (Star # ts) s"
  by (auto simp: matches_Star) (metis add_0)

abbreviation (input) skip_stars :: "byte list \<Rightarrow> byte list" where
  "skip_stars \<equiv> dropWhile ((=) 42)"

lemma compile_skip_stars:
  "matches (compile nc (42 # skip_stars q)) s = matches (compile nc (42 # q)) s"
  "star_runs (compile nc (42 # skip_stars q)) = star_runs (compile nc (42 # q))"
proof (induction q)
  case (Cons c q)
  { case 1 show ?case using Cons(1) matches_Star_Star by simp }
  { case 2 show ?case using Cons(2) by auto }
qed simp_all

lemma hd_skip_stars: "skip_stars q = c # r \<Longrightarrow> c \<noteq> 42"
  by (metis dropWhile_eq_Cons_conv)

lemma compile_One: "c \<noteq> 42 \<Longrightarrow> \<exists>f r. compile nc (c # q) = One f # r"
  by (auto simp: Let_def split_def)

lemma matches_Nil: "matches (compile nc q) [] \<longleftrightarrow> skip_stars q = []"
proof (induction q)
  case (Cons c q)
  then show ?case using compile_One [of c nc q] by (cases "c = 42") auto
qed simp

lemma glob_stars_spec:
  "pat_at pat (42 # q) p \<Longrightarrow>
   \<exists>p'. glob_stars pat p (int (length q) + 1) = Some (p', int (length (skip_stars q)) + 1) \<and>
     pat_at pat (42 # skip_stars q) p'"
proof (induction q arbitrary: p)
  case Nil
  then show ?case by (subst glob_stars.simps) simp
next
  case (Cons c q)
  show ?case
  proof (cases "c = 42")
    case True
    then have "glob_stars pat p (int (length (c # q)) + 1) = glob_stars pat (p + 1) (int (length q) + 1)"
      using Cons.prems by (subst glob_stars.simps) (simp add: add.commute)
    then show ?thesis
      using Cons.IH [of "p + 1"] Cons.prems True by simp
  next
    case False
    then show ?thesis
      using Cons.prems by (subst glob_stars.simps) auto
  qed
qed

lemma glob_trailing_spec:
  "pat_at pat q p \<Longrightarrow>
   \<exists>p'. glob_trailing pat p (int (length q)) = Some (p', int (length (skip_stars q)))"
proof (induction q arbitrary: p)
  case Nil
  then show ?case by (subst glob_trailing.simps) simp
next
  case (Cons c q)
  show ?case
  proof (cases "c = 42")
    case True
    then have "glob_trailing pat p (int (length (c # q))) = glob_trailing pat (p + 1) (int (length q))"
      using Cons.prems by (subst glob_trailing.simps) simp
    then show ?thesis
      using Cons.IH [of "p + 1"] Cons.prems True by simp
  next
    case False
    then show ?thesis
      using Cons.prems by (subst glob_trailing.simps) auto
  qed
qed

text \<open>What a call on the tokens \<open>ts\<close> and the string \<open>xs\<close> must return: the answer of the reference
  matcher, and the flag only if no later start of the string can match either.\<close>

definition glob_result :: "gtok list \<Rightarrow> byte list \<Rightarrow> (bool \<times> bool) option \<Rightarrow> bool" where
  "glob_result ts xs res \<longleftrightarrow>
     (\<exists>r sk. res = Some (r, sk) \<and> (r \<longleftrightarrow> matches ts xs) \<and>
        (sk \<longrightarrow> \<not> r \<and> (\<forall>k. \<not> matches ts (drop k xs))))"

lemma glob_result_Some [simp]:
  "glob_result ts xs (Some (r, sk)) \<longleftrightarrow>
     (r \<longleftrightarrow> matches ts xs) \<and> (sk \<longrightarrow> \<not> r \<and> (\<forall>k. \<not> matches ts (drop k xs)))"
  by (auto simp: glob_result_def)

lemma glob_star_loop_spec:
  assumes IH: "\<And>xs i. xs \<noteq> [] \<Longrightarrow> str_at s xs i \<Longrightarrow> glob_result ts xs
      (glob_loop nc pat (p + 1) (plen - 1) s i (length xs) False (nesting + 1))"
    and "nesting < 1000" and "ts = One f # ts'" and "str_at s xs i"
  shows "glob_star_loop nc pat p plen s i (length xs) False nesting =
     Some (matches (Star # ts) xs, \<not> matches (Star # ts) xs)"
  using assms(4)
proof (induction xs arbitrary: i)
  case Nil
  then show ?case using assms(3) by (subst glob_star_loop.simps) (simp add: matches_Star)
next
  case (Cons x xs)
  obtain r sk where res: "glob_loop nc pat (p + 1) (plen - 1) s i (length (x # xs)) False (nesting + 1)
      = Some (r, sk)" and r: "r \<longleftrightarrow> matches ts (x # xs)"
    and sk: "sk \<Longrightarrow> \<not> r \<and> (\<forall>k. \<not> matches ts (drop k (x # xs)))"
    using IH [OF _ Cons.prems] by (auto simp: glob_result_def)
  have eq: "glob_star_loop nc pat p plen s i (length (x # xs)) False nesting =
      (if r then Some (True, sk) else if sk then Some (False, sk)
       else glob_star_loop nc pat p plen s (i + 1) (length xs) sk nesting)"
    using res assms(2) by (subst glob_star_loop.simps) (simp add: glob_impl.simps)
  have "sk \<Longrightarrow> \<not> matches (Star # ts) (x # xs)"
    using sk by (simp only: matches_Star) blast
  then show ?case
    using eq r sk Cons by (cases r; cases sk) auto
qed

theorem glob_loop_spec:
  assumes "pat_at pat q p" and "str_at s xs i" and "xs \<noteq> []"
    and "star_runs (compile nc q) + nesting \<le> 1000"
  shows "glob_result (compile nc q) xs (glob_loop nc pat p (int (length q)) s i (length xs) False nesting)"
  using assms
proof (induction "length q" arbitrary: q p xs i nesting rule: less_induct)
  case less
  obtain x ys where xs: "xs = x # ys" using less.prems(3) by (cases xs) auto
  then have x: "rd_byte s i = Some x" "str_at s ys (i + 1)" using less.prems(2) by simp_all
  show ?case
  proof (cases q)
    case Nil
    then show ?thesis
      using xs by (subst glob_loop.simps) simp
  next
    case (Cons c q0)
    then have c: "rd_byte pat p = Some c" using less.prems(1) by simp
    show ?thesis
    proof (cases "c = 42")
      case True
      define q1 where "q1 = skip_stars q0"
      obtain p' where p': "glob_stars pat p (int (length q0) + 1) = Some (p', int (length q1) + 1)"
        "pat_at pat (42 # q1) p'"
        using glob_stars_spec [of pat q0 p] less.prems(1) Cons True by (auto simp: q1_def)
      have eq: "glob_loop nc pat p (int (length q)) s i (length xs) False nesting =
          (if q1 = [] then Some (True, False)
           else glob_star_loop nc pat p' (int (length q1) + 1) s i (length xs) False nesting)"
        using c True xs p'(1) Cons
        by (subst glob_loop.simps) (simp add: add.commute [of 1 "int (length q0)"])
      have m: "matches (compile nc q) zs = matches (Star # compile nc q1) zs" for zs
        using compile_skip_stars(1) [of nc q0 zs] Cons True by (simp add: q1_def)
      show ?thesis
      proof (cases "q1 = []")
        case True
        have "matches (Star # compile nc []) xs"
          unfolding matches_Star by (intro exI [of _ "length xs"]) simp
        then show ?thesis
          using eq m [of xs] True by simp
      next
        case ne: False
        then obtain d r where d: "q1 = d # r" by (cases q1) auto
        then have "d \<noteq> 42" unfolding q1_def by (rule hd_skip_stars)
        then obtain f ts' where f: "compile nc q1 = One f # ts'"
          using compile_One d by metis
        then have runs: "star_runs (compile nc q1) + Suc nesting \<le> 1000"
          using less.prems(4) compile_skip_stars(2) [of nc q0] Cons True by (simp add: q1_def)
        have "length q1 < length q"
          using length_dropWhile_le [of "(=) 42" q0] Cons by (simp add: q1_def)
        then have IH: "glob_result (compile nc q1) zs
            (glob_loop nc pat (p' + 1) (int (length q1)) s j (length zs) False (nesting + 1))"
          if "zs \<noteq> []" "str_at s zs j" for zs j
          using less.hyps [of q1 "p' + 1" zs j "nesting + 1"] p'(2) that runs by simp
        have "glob_star_loop nc pat p' (int (length q1) + 1) s i (length xs) False nesting =
            Some (matches (Star # compile nc q1) xs, \<not> matches (Star # compile nc q1) xs)"
          using IH runs f less.prems(2) by (intro glob_star_loop_spec [where f = f and ts' = ts']) auto
        moreover have "\<not> matches (Star # compile nc q1) (drop k xs)"
          if "\<not> matches (Star # compile nc q1) xs" for k
          using that by (auto simp: matches_Star)
        ultimately show ?thesis
          using eq ne m by simp
      qed
    next
      case False
      obtain f r p' where f: "compile nc q = One f # compile nc r" "length r \<le> length q0"
        "pat_at pat r (p' + 1)"
        and one: "glob_one nc pat p (int (length q)) s i =
          Some (if f x then Some (p', int (length r) + 1) else None)"
        using glob_one_spec [of pat c q0 p s i x nc] less.prems(1) Cons False x(1) by auto
      obtain p'' where tr: "glob_trailing pat (p' + 1) (int (length r)) =
          Some (p'', int (length (skip_stars r)))"
        using glob_trailing_spec [OF f(3)] by blast
      have eq: "glob_loop nc pat p (int (length q)) s i (length xs) False nesting =
          (if \<not> f x then Some (False, False)
           else if ys = [] then Some (skip_stars r = [], False)
           else glob_loop nc pat (p' + 1) (int (length r)) s (i + 1) (length ys) False nesting)"
        using c False xs one tr Cons by (subst glob_loop.simps) simp
      have IH: "glob_result (compile nc r) ys
          (glob_loop nc pat (p' + 1) (int (length r)) s (i + 1) (length ys) False nesting)"
        if "ys \<noteq> []"
        using less.hyps [of r "p' + 1" ys "i + 1" nesting] f Cons x(2) less.prems(4) that by simp
      have later: "\<not> matches (One f # compile nc r) (drop k xs)"
        if "\<forall>k. \<not> matches (compile nc r) (drop k ys)" for k
        using that tl_drop [of k xs] by (cases "drop k xs") (auto simp: xs)
      show ?thesis
        using eq IH later unfolding f(1) glob_result_def
        by (cases "f x"; cases "ys = []") (auto simp: xs matches_Nil)
    qed
  qed
qed

subsection \<open>Properties\<close>

text \<open>C25: On a terminated pattern with at most 1000 runs of stars and a non-empty string, the matcher
  returns (it reads neither outside the pattern and its terminator nor outside the string) and
  its answer is that of the reference matcher; in particular the early termination through
  \<^verbatim>\<open>skipLongerMatches\<close> never loses a match.\<close>

theorem stringmatchlen_correct:
  assumes "xs \<noteq> []" and "star_runs (compile nocase q) \<le> 1000"
  shows "stringmatchlen (q @ 0 # junk) (length q) (xs @ rest) (length xs) nocase =
     Some (matches (compile nocase q) xs)"
proof -
  have "glob_result (compile nocase q) xs
      (glob_loop nocase (q @ 0 # junk) 0 (int (length q)) (xs @ rest) 0 (length xs) False 0)"
    using glob_loop_spec [of "q @ 0 # junk" q 0 "xs @ rest" xs 0 nocase 0]
      pat_at_append [of "[]"] str_at_append [of "[]"] assms by simp
  then show ?thesis
    by (auto simp: stringmatchlen_def glob_impl.simps glob_result_def)
qed

theorem stringmatchlen_correct_witness:
  "stringmatchlen (map of_char ''h[^x]*o'' @ 0 # []) (length (map of_char ''h[^x]*o'' :: byte list))
     (map of_char ''hello'' @ []) (length (map of_char ''hello'' :: byte list)) False = Some True"
  using stringmatchlen_correct [of "map of_char ''hello''" False "map of_char ''h[^x]*o''" "[]" "[]"]
  by (simp add: char_eq_def Let_def)

text \<open>A star matches the empty sequence inside a pattern, but not the empty string: on an empty
  string the matcher returns 0 for every non-empty pattern, also for one that consists of
  stars only, for which the reference matcher succeeds.\<close>

theorem stringmatchlen_empty_string:
  assumes "q \<noteq> []"
  shows "stringmatchlen (q @ 0 # junk) (length q) s 0 nocase = Some False \<and>
     matches (compile nocase (replicate n 42)) []"
proof
  show "stringmatchlen (q @ 0 # junk) (length q) s 0 nocase = Some False"
    using assms by (simp add: stringmatchlen_def glob_impl.simps glob_loop.simps)
  show "matches (compile nocase (replicate n 42)) []"
    by (induction n) simp_all
qed

theorem stringmatchlen_empty_string_witness:
  "stringmatchlen ([42] @ 0 # []) (length [42 :: byte]) [] 0 False = Some False \<and>
     matches (compile False (replicate 1 42)) []"
  by (rule stringmatchlen_empty_string) simp

end
