(* ===== verification/Dict.thy ===== *)
theory Dict
  imports Valkey_Prelude "HOL-Library.Multiset"
begin

unbundle bit_operations_syntax

text \<open>
  The hash table of \<^verbatim>\<open>dict.c\<close>: chained buckets, two tables, incremental rehashing, automatic
  growing and shrinking, and the four representations of an entry.

  A bucket is the list of the entries of its chain, in order. A table is the list of its
  buckets; the NULL table is the empty list, so that an access to it is out of range. Keys
  are modelled up to the comparison function of the dict type, which is equality here; the hash
  function is an arbitrary function of the type. Entries are referred to by table, bucket and
  position in the chain. The destructors and the duplication of keys concern ownership only and
  have no counterpart. \<^verbatim>\<open>dict_can_resize\<close> is the argument \<open>cr\<close>.
\<close>

subsection \<open>Types\<close>

text \<open>The tag bits of an entry pointer distinguish a key stored directly in the bucket, an entry
  without value, an entry with an embedded key, and a normal entry. The value of a fresh
  entry is uninitialised: \<open>None\<close>.\<close>

datatype ('k, 'v) dictEntry =
    EKey 'k | ENoValue 'k | EEmbedded 'k "'v option" | ENormal 'k "'v option"

datatype dictResizeEnable = DICT_RESIZE_ENABLE | DICT_RESIZE_AVOID | DICT_RESIZE_FORBID

record 'k dictType =
  hashFunction :: "'k \<Rightarrow> nat"
  no_value :: bool
  keys_are_odd :: bool
  embedded_entry :: bool
  no_incremental_rehash :: bool
  has_rehashingStarted :: bool
  has_rehashingCompleted :: bool
  resizeAllowed :: "(nat \<Rightarrow> nat \<Rightarrow> nat \<Rightarrow> bool) option"

text \<open>One of the two tables: the arrays \<^verbatim>\<open>ht_table\<close>, \<^verbatim>\<open>ht_used\<close> and \<^verbatim>\<open>ht_size_exp\<close> of the struct at
  one index.\<close>

record ('k, 'v) ht =
  ht_table :: "('k, 'v) dictEntry list list"
  ht_used :: nat
  ht_size_exp :: int

text \<open>The callbacks that observe rehashing receive the dict; what they can see of it is the size of
  both tables.\<close>

datatype rehash_event = RehashingStarted nat nat | RehashingCompleted nat nat

record ('k, 'v) dict =
  dict_type :: "'k dictType"
  ht0 :: "('k, 'v) ht"
  ht1 :: "('k, 'v) ht"
  rehashidx :: int
  pauserehash :: int
  pauseAutoResize :: int
  dict_events :: "rehash_event list"

definition DICT_HT_INITIAL_SIZE :: nat where "DICT_HT_INITIAL_SIZE = 4"
definition dict_force_resize_ratio :: nat where "dict_force_resize_ratio = 4"
definition HASHTABLE_MIN_FILL :: nat where "HASHTABLE_MIN_FILL = 8"

definition DICTHT_SIZE :: "int \<Rightarrow> nat" where
  "DICTHT_SIZE e = (if e = -1 then 0 else 2 ^ nat e)"

definition DICTHT_SIZE_MASK :: "int \<Rightarrow> nat" where
  "DICTHT_SIZE_MASK e = (if e = -1 then 0 else DICTHT_SIZE e - 1)"

definition dictIsRehashing :: "('k, 'v) dict \<Rightarrow> bool" where
  "dictIsRehashing d \<longleftrightarrow> rehashidx d \<noteq> -1"

definition dictSize :: "('k, 'v) dict \<Rightarrow> nat" where
  "dictSize d = ht_used (ht0 d) + ht_used (ht1 d)"

definition dictBuckets :: "('k, 'v) dict \<Rightarrow> nat" where
  "dictBuckets d = DICTHT_SIZE (ht_size_exp (ht0 d)) + DICTHT_SIZE (ht_size_exp (ht1 d))"

text \<open>Indexing of the two-element arrays of the struct.\<close>

definition dict_ht :: "('k, 'v) dict \<Rightarrow> nat \<Rightarrow> ('k, 'v) ht" where
  "dict_ht d i = (if i = 0 then ht0 d else ht1 d)"

definition set_ht :: "('k, 'v) dict \<Rightarrow> nat \<Rightarrow> ('k, 'v) ht \<Rightarrow> ('k, 'v) dict" where
  "set_ht d i h = (if i = 0 then d\<lparr>ht0 := h\<rparr> else d\<lparr>ht1 := h\<rparr>)"

text \<open>A checked access to a bucket, and the decrement of an \<^verbatim>\<open>unsigned long\<close>.\<close>

definition get_bucket :: "('k, 'v) ht \<Rightarrow> nat \<Rightarrow> ('k, 'v) dictEntry list option" where
  "get_bucket h i = (if i < length (ht_table h) then Some (ht_table h ! i) else None)"

definition set_bucket :: "('k, 'v) ht \<Rightarrow> nat \<Rightarrow> ('k, 'v) dictEntry list \<Rightarrow> ('k, 'v) ht" where
  "set_bucket h i b = h\<lparr>ht_table := (ht_table h)[i := b]\<rparr>"

definition ulong_dec :: "nat \<Rightarrow> nat" where
  "ulong_dec n = (if n = 0 then 18446744073709551615 else n - 1)"

subsection \<open>Entries and chains\<close>

fun dictGetKey :: "('k, 'v) dictEntry \<Rightarrow> 'k" where
  "dictGetKey (EKey k) = k"
| "dictGetKey (ENoValue k) = k"
| "dictGetKey (EEmbedded k v) = k"
| "dictGetKey (ENormal k v) = k"

text \<open>The outer option is the panic for an entry without a value field.\<close>

fun dictGetVal :: "('k, 'v) dictEntry \<Rightarrow> 'v option option" where
  "dictGetVal (EKey k) = None"
| "dictGetVal (ENoValue k) = None"
| "dictGetVal (EEmbedded k v) = Some v"
| "dictGetVal (ENormal k v) = Some v"

fun dictSetVal_entry :: "('k, 'v) dictEntry \<Rightarrow> 'v \<Rightarrow> ('k, 'v) dictEntry option" where
  "dictSetVal_entry (EKey k) x = None"
| "dictSetVal_entry (ENoValue k) x = None"
| "dictSetVal_entry (EEmbedded k v) x = Some (EEmbedded k (Some x))"
| "dictSetVal_entry (ENormal k v) x = Some (ENormal k (Some x))"

fun entryIsKey :: "('k, 'v) dictEntry \<Rightarrow> bool" where
  "entryIsKey (EKey k) = True"
| "entryIsKey e = False"

fun entryIsNoValue :: "('k, 'v) dictEntry \<Rightarrow> bool" where
  "entryIsNoValue (ENoValue k) = True"
| "entryIsNoValue e = False"

text \<open>\<^verbatim>\<open>dictGetNext\<close>, on an entry and what follows it in its chain.\<close>

definition dictGetNext :: "('k, 'v) dictEntry \<Rightarrow> ('k, 'v) dictEntry list \<Rightarrow> ('k, 'v) dictEntry list" where
  "dictGetNext de rest = (if entryIsKey de then [] else rest)"

lemma length_dictGetNext [termination_simp]: "length (dictGetNext de rest) < Suc (length rest)"
  by (simp add: dictGetNext_def)

text \<open>The search of a chain for a key: the position of the first entry that compares equal.\<close>

fun chain_find :: "'k \<Rightarrow> ('k, 'v) dictEntry list \<Rightarrow> nat option" where
  "chain_find k [] = None"
| "chain_find k (de # rest) =
     (if k = dictGetKey de then Some 0 else map_option Suc (chain_find k (dictGetNext de rest)))"

text \<open>Unlinking the entry at a position: the predecessor must have a next field to set.\<close>

definition chain_unlink :: "nat \<Rightarrow> ('k, 'v) dictEntry list \<Rightarrow> ('k, 'v) dictEntry list option" where
  "chain_unlink p chain =
     (if p < length chain then do {
        c_assert (p = 0 \<or> \<not> entryIsKey (chain ! (p - 1)));
        Some (take p chain @ dictGetNext (chain ! p) (drop (Suc p) chain))
      } else None)"

subsection \<open>Creation and resizing\<close>

fun bit_len :: "nat \<Rightarrow> nat" where
  "bit_len n = (if n = 0 then 0 else Suc (bit_len (n div 2)))"

declare bit_len.simps [simp del]

text \<open>\<^verbatim>\<open>__builtin_clzl\<close>, for a non-zero argument below 2 to the 64.\<close>

definition clzl :: "nat \<Rightarrow> nat" where
  "clzl n = 64 - bit_len n"

definition dictNextExp :: "nat \<Rightarrow> int" where
  "dictNextExp sz =
     (if sz \<le> DICT_HT_INITIAL_SIZE then 2
      else if sz \<ge> 9223372036854775807 then 63
      else 64 - int (clzl (sz - 1)))"

definition dictReset :: "('k, 'v) ht" where
  "dictReset = \<lparr>ht_table = [], ht_used = 0, ht_size_exp = -1\<rparr>"

definition dictCreate :: "'k dictType \<Rightarrow> ('k, 'v) dict" where
  "dictCreate type = \<lparr>dict_type = type, ht0 = dictReset, ht1 = dictReset, rehashidx = -1,
     pauserehash = 0, pauseAutoResize = 0, dict_events = []\<rparr>"

definition notifyStarted :: "('k, 'v) dict \<Rightarrow> ('k, 'v) dict" where
  "notifyStarted d = (if has_rehashingStarted (dict_type d) then
     d\<lparr>dict_events := dict_events d @
       [RehashingStarted (DICTHT_SIZE (ht_size_exp (ht0 d))) (DICTHT_SIZE (ht_size_exp (ht1 d)))]\<rparr> else d)"

definition notifyCompleted :: "('k, 'v) dict \<Rightarrow> ('k, 'v) dict" where
  "notifyCompleted d = (if has_rehashingCompleted (dict_type d) then
     d\<lparr>dict_events := dict_events d @
       [RehashingCompleted (DICTHT_SIZE (ht_size_exp (ht0 d))) (DICTHT_SIZE (ht_size_exp (ht1 d)))]\<rparr> else d)"

subsection \<open>Rehashing\<close>

text \<open>The entry that is put in front of the destination bucket. The assertions are those of the
  source and of \<^verbatim>\<open>dictSetNext\<close>.\<close>

definition rehash_entry :: "'k dictType \<Rightarrow> ('k, 'v) dictEntry \<Rightarrow> ('k, 'v) dictEntry list \<Rightarrow>
    ('k, 'v) dictEntry option" where
  "rehash_entry type de bucket =
     (if no_value type then
        if keys_are_odd type \<and> bucket = [] then Some (EKey (dictGetKey de))
        else if entryIsKey de then Some (ENoValue (dictGetKey de))
        else do { c_assert (entryIsNoValue de); Some de }
      else do { c_assert (\<not> entryIsKey de); Some de })"

definition rehash_index :: "'k dictType \<Rightarrow> int \<Rightarrow> int \<Rightarrow> nat \<Rightarrow> 'k \<Rightarrow> nat" where
  "rehash_index type e0 e1 idx key =
     (if e1 > e0 then hashFunction type key AND DICTHT_SIZE_MASK e1 else idx AND DICTHT_SIZE_MASK e1)"

function rehash_chain :: "('k, 'v) dict \<Rightarrow> nat \<Rightarrow> ('k, 'v) dictEntry list \<Rightarrow> ('k, 'v) dict option" where
  "rehash_chain d idx [] = Some d"
| "rehash_chain d idx (de # rest) = do {
     let h = rehash_index (dict_type d) (ht_size_exp (ht0 d)) (ht_size_exp (ht1 d)) idx (dictGetKey de);
     bucket \<leftarrow> get_bucket (ht1 d) h;
     de' \<leftarrow> rehash_entry (dict_type d) de bucket;
     let d = d\<lparr>ht1 := (set_bucket (ht1 d) h (de' # bucket))\<lparr>ht_used := ht_used (ht1 d) + 1\<rparr>,
               ht0 := (ht0 d)\<lparr>ht_used := ulong_dec (ht_used (ht0 d))\<rparr>\<rparr>;
     rehash_chain d idx (dictGetNext de rest)
   }"
  by pat_completeness auto
termination by (relation "measure (\<lambda>(_, _, c). length c)") (auto simp: dictGetNext_def)

definition rehashEntriesInBucketAtIndex :: "('k, 'v) dict \<Rightarrow> nat \<Rightarrow> ('k, 'v) dict option" where
  "rehashEntriesInBucketAtIndex d idx = do {
     chain \<leftarrow> get_bucket (ht0 d) idx;
     d \<leftarrow> rehash_chain d idx chain;
     Some (d\<lparr>ht0 := set_bucket (ht0 d) idx []\<rparr>)
   }"

definition dictCheckRehashingCompleted :: "('k, 'v) dict \<Rightarrow> ('k, 'v) dict \<times> bool" where
  "dictCheckRehashingCompleted d =
     (if ht_used (ht0 d) \<noteq> 0 then (d, False)
      else ((notifyCompleted d)\<lparr>ht0 := ht1 d, ht1 := dictReset, rehashidx := -1\<rparr>, True))"

text \<open>The guard that \<^verbatim>\<open>dictRehash\<close> and \<^verbatim>\<open>dictBucketRehash\<close> share: whether the call returns at once.\<close>

definition rehash_refused :: "dictResizeEnable \<Rightarrow> ('k, 'v) dict \<Rightarrow> bool" where
  "rehash_refused cr d \<longleftrightarrow>
     (let s0 = DICTHT_SIZE (ht_size_exp (ht0 d)); s1 = DICTHT_SIZE (ht_size_exp (ht1 d)) in
      (cr = DICT_RESIZE_FORBID \<or> \<not> dictIsRehashing d) \<or>
      (cr = DICT_RESIZE_AVOID \<and>
        ((s1 > s0 \<and> s1 < dict_force_resize_ratio * s0) \<or>
         (s1 < s0 \<and> s0 < HASHTABLE_MIN_FILL * dict_force_resize_ratio * s1))))"

text \<open>The loop over empty buckets: the new index, the remaining visits, and whether the function
  returns because they are used up.\<close>

function rehash_skip :: "('k, 'v) ht \<Rightarrow> nat \<Rightarrow> int \<Rightarrow> (nat \<times> int \<times> bool) option" where
  "rehash_skip h idx visits = do {
     b \<leftarrow> get_bucket h idx;
     if b = [] then
       if visits - 1 = 0 then Some (idx + 1, visits - 1, True)
       else rehash_skip h (idx + 1) (visits - 1)
     else Some (idx, visits, False)
   }"
  by pat_completeness auto
termination by (relation "measure (\<lambda>(h, idx, _). length (ht_table h) - idx)")
  (auto simp: get_bucket_def split: if_splits)

declare rehash_skip.simps [simp del]

fun dictRehash_loop :: "('k, 'v) dict \<Rightarrow> nat \<Rightarrow> int \<Rightarrow> (('k, 'v) dict \<times> bool) option" where
  "dictRehash_loop d 0 visits = Some (d, False)"
| "dictRehash_loop d (Suc n) visits =
     (if ht_used (ht0 d) \<noteq> 0 then do {
        c_assert (DICTHT_SIZE (ht_size_exp (ht0 d)) > nat (rehashidx d));
        (idx, visits, stop) \<leftarrow> rehash_skip (ht0 d) (nat (rehashidx d)) visits;
        let d = d\<lparr>rehashidx := int idx\<rparr>;
        if stop then Some (d, True)
        else do {
          d \<leftarrow> rehashEntriesInBucketAtIndex d idx;
          dictRehash_loop (d\<lparr>rehashidx := rehashidx d + 1\<rparr>) n visits
        }
      }
      else Some (d, False))"

definition dictRehash :: "dictResizeEnable \<Rightarrow> ('k, 'v) dict \<Rightarrow> nat \<Rightarrow> (('k, 'v) dict \<times> bool) option" where
  "dictRehash cr d n =
     (if rehash_refused cr d then Some (d, False)
      else do {
        (d, stop) \<leftarrow> dictRehash_loop d n (int n * 10);
        if stop then Some (d, True)
        else (case dictCheckRehashingCompleted d of (d, completed) \<Rightarrow> Some (d, \<not> completed))
      })"

definition dictRehashStep :: "dictResizeEnable \<Rightarrow> ('k, 'v) dict \<Rightarrow> ('k, 'v) dict option" where
  "dictRehashStep cr d =
     (if pauserehash d = 0 then map_option fst (dictRehash cr d 1) else Some d)"

definition dictBucketRehash :: "dictResizeEnable \<Rightarrow> ('k, 'v) dict \<Rightarrow> nat \<Rightarrow> (('k, 'v) dict \<times> bool) option" where
  "dictBucketRehash cr d idx =
     (if pauserehash d \<noteq> 0 then Some (d, False)
      else if rehash_refused cr d then Some (d, False)
      else do {
        d \<leftarrow> rehashEntriesInBucketAtIndex d idx;
        Some (fst (dictCheckRehashingCompleted d), True)
      })"

text \<open>\<^verbatim>\<open>while (dictRehash(d, 1000));\<close>\<close>

partial_function (option) rehash_all :: "dictResizeEnable \<Rightarrow> ('k, 'v) dict \<Rightarrow> ('k, 'v) dict option" where
  "rehash_all cr d = do {
     (d, more) \<leftarrow> dictRehash cr d 1000;
     if more then rehash_all cr d else Some d
   }"

text \<open>\<open>alloc\<close> is \<open>None\<close> when the caller passes no \<^verbatim>\<open>malloc_failed\<close> pointer (the allocator then never
  returns NULL) and otherwise says for which sizes \<^verbatim>\<open>ztrycalloc\<close> succeeds. The result is
  whether \<^verbatim>\<open>DICT_OK\<close> is returned, and the final value of \<^verbatim>\<open>*malloc_failed\<close>.\<close>

definition dictResizeWithOptionalCheck ::
  "dictResizeEnable \<Rightarrow> (nat \<Rightarrow> bool) option \<Rightarrow> ('k, 'v) dict \<Rightarrow> nat \<Rightarrow> (('k, 'v) dict \<times> bool \<times> bool) option" where
  "dictResizeWithOptionalCheck cr alloc d sz = do {
     c_assert (\<not> dictIsRehashing d);
     let new_exp = dictNextExp sz;
     let newsize = DICTHT_SIZE new_exp;
     if newsize < sz \<or> newsize * 8 mod 18446744073709551616 < newsize then Some (d, False, False)
     else if new_exp = ht_size_exp (ht0 d) then Some (d, False, False)
     else if (case alloc of None \<Rightarrow> False | Some f \<Rightarrow> \<not> f (newsize * 8)) then Some (d, False, True)
     else do {
       let new_ht = \<lparr>ht_table = replicate newsize [], ht_used = 0, ht_size_exp = new_exp\<rparr>;
       let d = notifyStarted (d\<lparr>ht1 := new_ht, rehashidx := 0\<rparr>);
       if ht_table (ht0 d) = [] \<or> ht_used (ht0 d) = 0 then
         Some ((notifyCompleted d)\<lparr>ht0 := new_ht, ht1 := dictReset, rehashidx := -1\<rparr>, True, False)
       else if no_incremental_rehash (dict_type d) then do {
         d \<leftarrow> rehash_all cr d;
         Some (d, True, False)
       }
       else Some (d, True, False)
     }
   }"

definition dictExpandWithOptionalCheck ::
  "dictResizeEnable \<Rightarrow> (nat \<Rightarrow> bool) option \<Rightarrow> ('k, 'v) dict \<Rightarrow> nat \<Rightarrow> (('k, 'v) dict \<times> bool \<times> bool) option" where
  "dictExpandWithOptionalCheck cr alloc d sz =
     (if dictIsRehashing d \<or> ht_used (ht0 d) > sz \<or> DICTHT_SIZE (ht_size_exp (ht0 d)) \<ge> sz
      then Some (d, False, False)
      else dictResizeWithOptionalCheck cr alloc d sz)"

definition dictExpand :: "dictResizeEnable \<Rightarrow> ('k, 'v) dict \<Rightarrow> nat \<Rightarrow> (('k, 'v) dict \<times> bool) option" where
  "dictExpand cr d sz = do {
     (d, ok, _) \<leftarrow> dictExpandWithOptionalCheck cr None d sz;
     Some (d, ok)
   }"

definition dictTryExpand ::
  "dictResizeEnable \<Rightarrow> (nat \<Rightarrow> bool) \<Rightarrow> ('k, 'v) dict \<Rightarrow> nat \<Rightarrow> (('k, 'v) dict \<times> bool) option" where
  "dictTryExpand cr f d sz = do {
     (d, _, malloc_failed) \<leftarrow> dictExpandWithOptionalCheck cr (Some f) d sz;
     Some (d, \<not> malloc_failed)
   }"

definition dictShrink :: "dictResizeEnable \<Rightarrow> ('k, 'v) dict \<Rightarrow> nat \<Rightarrow> (('k, 'v) dict \<times> bool) option" where
  "dictShrink cr d sz =
     (if dictIsRehashing d \<or> ht_used (ht0 d) > sz \<or> DICTHT_SIZE (ht_size_exp (ht0 d)) \<le> sz
      then Some (d, False)
      else do {
        (d, ok, _) \<leftarrow> dictResizeWithOptionalCheck cr None d sz;
        Some (d, ok)
      })"

text \<open>The callback receives the ratio of used entries and buckets as a \<^verbatim>\<open>double\<close>; here it receives the
  two numbers.\<close>

definition dictTypeResizeAllowed :: "('k, 'v) dict \<Rightarrow> nat \<Rightarrow> bool" where
  "dictTypeResizeAllowed d sz =
     (case resizeAllowed (dict_type d) of
        None \<Rightarrow> True
      | Some f \<Rightarrow> f (DICTHT_SIZE (dictNextExp sz) * 8) (ht_used (ht0 d)) (DICTHT_SIZE (ht_size_exp (ht0 d))))"

definition dictExpandIfNeeded :: "dictResizeEnable \<Rightarrow> ('k, 'v) dict \<Rightarrow> (('k, 'v) dict \<times> bool) option" where
  "dictExpandIfNeeded cr d =
     (let used = ht_used (ht0 d); sz = DICTHT_SIZE (ht_size_exp (ht0 d)) in
      if dictIsRehashing d then Some (d, True)
      else if sz = 0 then do { (d, _) \<leftarrow> dictExpand cr d DICT_HT_INITIAL_SIZE; Some (d, True) }
      else if (cr = DICT_RESIZE_ENABLE \<and> used \<ge> sz) \<or>
              (cr \<noteq> DICT_RESIZE_FORBID \<and> used \<ge> dict_force_resize_ratio * sz) then
        if dictTypeResizeAllowed d (used + 1)
        then do { (d, _) \<leftarrow> dictExpand cr d (used + 1); Some (d, True) }
        else Some (d, True)
      else Some (d, False))"

definition dictShrinkIfNeeded :: "dictResizeEnable \<Rightarrow> ('k, 'v) dict \<Rightarrow> (('k, 'v) dict \<times> bool) option" where
  "dictShrinkIfNeeded cr d =
     (let used = ht_used (ht0 d); sz = DICTHT_SIZE (ht_size_exp (ht0 d)) in
      if dictIsRehashing d then Some (d, True)
      else if sz \<le> DICT_HT_INITIAL_SIZE then Some (d, True)
      else if (cr = DICT_RESIZE_ENABLE \<and> used * HASHTABLE_MIN_FILL \<le> sz) \<or>
              (cr \<noteq> DICT_RESIZE_FORBID \<and> used * HASHTABLE_MIN_FILL * dict_force_resize_ratio \<le> sz) then
        if dictTypeResizeAllowed d used
        then do { (d, _) \<leftarrow> dictShrink cr d used; Some (d, True) }
        else Some (d, True)
      else Some (d, False))"

definition dictExpandIfAutoResizeAllowed :: "dictResizeEnable \<Rightarrow> ('k, 'v) dict \<Rightarrow> ('k, 'v) dict option" where
  "dictExpandIfAutoResizeAllowed cr d =
     (if pauseAutoResize d > 0 then Some d else map_option fst (dictExpandIfNeeded cr d))"

definition dictShrinkIfAutoResizeAllowed :: "dictResizeEnable \<Rightarrow> ('k, 'v) dict \<Rightarrow> ('k, 'v) dict option" where
  "dictShrinkIfAutoResizeAllowed cr d =
     (if pauseAutoResize d > 0 then Some d else map_option fst (dictShrinkIfNeeded cr d))"

subsection \<open>Lookup, insertion and deletion\<close>

text \<open>The rehashing work that a lookup for the hash \<open>h\<close> does first.\<close>

definition rehash_for :: "dictResizeEnable \<Rightarrow> ('k, 'v) dict \<Rightarrow> nat \<Rightarrow> ('k, 'v) dict option" where
  "rehash_for cr d h =
     (if dictIsRehashing d then do {
        let idx = h AND DICTHT_SIZE_MASK (ht_size_exp (ht0 d));
        hit \<leftarrow> (if int idx \<ge> rehashidx d
               then do { b \<leftarrow> get_bucket (ht0 d) idx; Some (b \<noteq> []) } else Some False);
        if hit then map_option fst (dictBucketRehash cr d idx) else dictRehashStep cr d
      }
      else Some d)"

text \<open>The loop over the two tables. \<open>idx0\<close> is the index in the first table as computed before the
  rehashing step, which is what the test against \<^verbatim>\<open>rehashidx\<close> uses. The result is the position
  of the entry, as table, bucket and place in the chain.\<close>

definition find_in_table :: "('k, 'v) dict \<Rightarrow> 'k \<Rightarrow> nat \<Rightarrow> nat \<Rightarrow> (nat \<times> nat \<times> nat) option option" where
  "find_in_table d key h table = do {
     let idx = h AND DICTHT_SIZE_MASK (ht_size_exp (dict_ht d table));
     chain \<leftarrow> get_bucket (dict_ht d table) idx;
     Some (map_option (\<lambda>p. (table, idx, p)) (chain_find key chain))
   }"

definition find_in_tables :: "('k, 'v) dict \<Rightarrow> 'k \<Rightarrow> nat \<Rightarrow> nat \<Rightarrow> (nat \<times> nat \<times> nat) option option" where
  "find_in_tables d key h idx0 = do {
     r \<leftarrow> (if int idx0 < rehashidx d then Some None else find_in_table d key h 0);
     case r of
       Some pos \<Rightarrow> Some (Some pos)
     | None \<Rightarrow>
         if int idx0 < rehashidx d \<or> dictIsRehashing d then find_in_table d key h 1
         else Some None
   }"

definition dictFind :: "dictResizeEnable \<Rightarrow> ('k, 'v) dict \<Rightarrow> 'k \<Rightarrow>
    (('k, 'v) dict \<times> (nat \<times> nat \<times> nat) option) option" where
  "dictFind cr d key =
     (if dictSize d = 0 then Some (d, None)
      else do {
        let h = hashFunction (dict_type d) key;
        let idx0 = h AND DICTHT_SIZE_MASK (ht_size_exp (ht0 d));
        d \<leftarrow> rehash_for cr d h;
        r \<leftarrow> find_in_tables d key h idx0;
        Some (d, r)
      })"

text \<open>Access to the entry at a position.\<close>

definition entry_at :: "('k, 'v) dict \<Rightarrow> nat \<times> nat \<times> nat \<Rightarrow> ('k, 'v) dictEntry option" where
  "entry_at d pos = (case pos of (table, idx, p) \<Rightarrow> do {
     chain \<leftarrow> get_bucket (dict_ht d table) idx;
     if p < length chain then Some (chain ! p) else None
   })"

definition dictFetchValue :: "dictResizeEnable \<Rightarrow> ('k, 'v) dict \<Rightarrow> 'k \<Rightarrow>
    (('k, 'v) dict \<times> 'v option option) option" where
  "dictFetchValue cr d key = do {
     (d, r) \<leftarrow> dictFind cr d key;
     case r of
       None \<Rightarrow> Some (d, None)
     | Some pos \<Rightarrow> do { e \<leftarrow> entry_at d pos; v \<leftarrow> dictGetVal e; Some (d, Some v) }
   }"

definition dictSetVal :: "('k, 'v) dict \<Rightarrow> nat \<times> nat \<times> nat \<Rightarrow> 'v \<Rightarrow> ('k, 'v) dict option" where
  "dictSetVal d pos x = (case pos of (table, idx, p) \<Rightarrow> do {
     e \<leftarrow> entry_at d pos;
     e' \<leftarrow> dictSetVal_entry e x;
     chain \<leftarrow> get_bucket (dict_ht d table) idx;
     Some (set_ht d table (set_bucket (dict_ht d table) idx (chain[p := e'])))
   })"

text \<open>The result is the position of the existing entry (\<open>Inl\<close>) or the index of the bucket for the new
  entry (\<open>Inr\<close>).\<close>

definition dictFindPositionForInsert :: "dictResizeEnable \<Rightarrow> ('k, 'v) dict \<Rightarrow> 'k \<Rightarrow>
    (('k, 'v) dict \<times> ((nat \<times> nat \<times> nat) + nat)) option" where
  "dictFindPositionForInsert cr d key = do {
     let h = hashFunction (dict_type d) key;
     let idx0 = h AND DICTHT_SIZE_MASK (ht_size_exp (ht0 d));
     d \<leftarrow> rehash_for cr d h;
     d \<leftarrow> dictExpandIfAutoResizeAllowed cr d;
     r \<leftarrow> find_in_tables d key h idx0;
     case r of
       Some pos \<Rightarrow> Some (d, Inl pos)
     | None \<Rightarrow>
         Some (d, Inr (h AND DICTHT_SIZE_MASK (ht_size_exp (dict_ht d (if dictIsRehashing d then 1 else 0)))))
   }"

definition newEntry :: "'k dictType \<Rightarrow> 'k \<Rightarrow> ('k, 'v) dictEntry list \<Rightarrow> ('k, 'v) dictEntry" where
  "newEntry type key bucket =
     (if no_value type then
        if keys_are_odd type \<and> bucket = [] then EKey key else ENoValue key
      else if embedded_entry type then EEmbedded key None
      else ENormal key None)"

definition dictInsertAtPosition :: "('k, 'v) dict \<Rightarrow> 'k \<Rightarrow> nat \<Rightarrow>
    (('k, 'v) dict \<times> (nat \<times> nat \<times> nat)) option" where
  "dictInsertAtPosition d key idx = do {
     let htidx = (if dictIsRehashing d then 1 else 0);
     c_assert (idx \<le> DICTHT_SIZE_MASK (ht_size_exp (dict_ht d htidx)));
     bucket \<leftarrow> get_bucket (dict_ht d htidx) idx;
     let h = set_bucket (dict_ht d htidx) idx (newEntry (dict_type d) key bucket # bucket);
     Some (set_ht d htidx (h\<lparr>ht_used := ht_used h + 1\<rparr>), (htidx, idx, 0))
   }"

definition dictAddRaw :: "dictResizeEnable \<Rightarrow> ('k, 'v) dict \<Rightarrow> 'k \<Rightarrow>
    (('k, 'v) dict \<times> ((nat \<times> nat \<times> nat) + (nat \<times> nat \<times> nat))) option" where
  "dictAddRaw cr d key = do {
     (d, r) \<leftarrow> dictFindPositionForInsert cr d key;
     case r of
       Inl existing \<Rightarrow> Some (d, Inl existing)
     | Inr idx \<Rightarrow> do { (d, pos) \<leftarrow> dictInsertAtPosition d key idx; Some (d, Inr pos) }
   }"

definition dictAdd :: "dictResizeEnable \<Rightarrow> ('k, 'v) dict \<Rightarrow> 'k \<Rightarrow> 'v \<Rightarrow> (('k, 'v) dict \<times> bool) option" where
  "dictAdd cr d key val = do {
     (d, r) \<leftarrow> dictAddRaw cr d key;
     case r of
       Inl _ \<Rightarrow> Some (d, False)
     | Inr pos \<Rightarrow>
         if \<not> no_value (dict_type d) then do { d \<leftarrow> dictSetVal d pos val; Some (d, True) }
         else Some (d, True)
   }"

definition dictReplace :: "dictResizeEnable \<Rightarrow> ('k, 'v) dict \<Rightarrow> 'k \<Rightarrow> 'v \<Rightarrow> (('k, 'v) dict \<times> bool) option" where
  "dictReplace cr d key val = do {
     (d, r) \<leftarrow> dictAddRaw cr d key;
     case r of
       Inr pos \<Rightarrow> do { d \<leftarrow> dictSetVal d pos val; Some (d, True) }
     | Inl existing \<Rightarrow> do {
         e \<leftarrow> entry_at d existing;
         _ \<leftarrow> dictGetVal e;
         d \<leftarrow> dictSetVal d existing val;
         Some (d, False)
       }
   }"

definition dictAddOrFind :: "dictResizeEnable \<Rightarrow> ('k, 'v) dict \<Rightarrow> 'k \<Rightarrow>
    (('k, 'v) dict \<times> (nat \<times> nat \<times> nat)) option" where
  "dictAddOrFind cr d key = do {
     (d, r) \<leftarrow> dictAddRaw cr d key;
     Some (d, case r of Inr pos \<Rightarrow> pos | Inl existing \<Rightarrow> existing)
   }"

text \<open>Unlink the entry at a position and count it out.\<close>

definition unlink_at :: "('k, 'v) dict \<Rightarrow> nat \<times> nat \<times> nat \<Rightarrow> ('k, 'v) dict option" where
  "unlink_at d pos = (case pos of (table, idx, p) \<Rightarrow> do {
     chain \<leftarrow> get_bucket (dict_ht d table) idx;
     chain' \<leftarrow> chain_unlink p chain;
     let h = set_bucket (dict_ht d table) idx chain';
     Some (set_ht d table (h\<lparr>ht_used := ulong_dec (ht_used h)\<rparr>))
   })"

definition dictGenericDelete :: "dictResizeEnable \<Rightarrow> ('k, 'v) dict \<Rightarrow> 'k \<Rightarrow>
    (('k, 'v) dict \<times> ('k, 'v) dictEntry option) option" where
  "dictGenericDelete cr d key =
     (if dictSize d = 0 then Some (d, None)
      else do {
        let h = hashFunction (dict_type d) key;
        let idx0 = h AND DICTHT_SIZE_MASK (ht_size_exp (ht0 d));
        d \<leftarrow> rehash_for cr d h;
        r \<leftarrow> find_in_tables d key h idx0;
        case r of
          None \<Rightarrow> Some (d, None)
        | Some pos \<Rightarrow> do {
            he \<leftarrow> entry_at d pos;
            d \<leftarrow> unlink_at d pos;
            d \<leftarrow> dictShrinkIfAutoResizeAllowed cr d;
            Some (d, Some he)
          }
      })"

definition dictDelete :: "dictResizeEnable \<Rightarrow> ('k, 'v) dict \<Rightarrow> 'k \<Rightarrow> (('k, 'v) dict \<times> bool) option" where
  "dictDelete cr d key = do {
     (d, r) \<leftarrow> dictGenericDelete cr d key;
     Some (d, r \<noteq> None)
   }"

definition dictUnlink :: "dictResizeEnable \<Rightarrow> ('k, 'v) dict \<Rightarrow> 'k \<Rightarrow>
    (('k, 'v) dict \<times> ('k, 'v) dictEntry option) option" where
  "dictUnlink cr d key = dictGenericDelete cr d key"

text \<open>The two-phase deletion. The search differs from the others: it computes the index before the
  test against \<^verbatim>\<open>rehashidx\<close>, after the rehashing step.\<close>

definition dictTwoPhaseUnlinkFind :: "dictResizeEnable \<Rightarrow> ('k, 'v) dict \<Rightarrow> 'k \<Rightarrow>
    (('k, 'v) dict \<times> (nat \<times> nat \<times> nat) option) option" where
  "dictTwoPhaseUnlinkFind cr d key =
     (if dictSize d = 0 then Some (d, None)
      else do {
        d \<leftarrow> (if dictIsRehashing d then dictRehashStep cr d else Some d);
        let h = hashFunction (dict_type d) key;
        r \<leftarrow> find_in_tables d key h (h AND DICTHT_SIZE_MASK (ht_size_exp (ht0 d)));
        case r of
          None \<Rightarrow> Some (d, None)
        | Some pos \<Rightarrow> Some (d\<lparr>pauserehash := pauserehash d + 1\<rparr>, Some pos)
      })"

definition dictTwoPhaseUnlinkFree :: "dictResizeEnable \<Rightarrow> ('k, 'v) dict \<Rightarrow> (nat \<times> nat \<times> nat) option \<Rightarrow>
    ('k, 'v) dict option" where
  "dictTwoPhaseUnlinkFree cr d he =
     (case he of
        None \<Rightarrow> Some d
      | Some pos \<Rightarrow> do {
          d \<leftarrow> unlink_at d pos;
          d \<leftarrow> dictShrinkIfAutoResizeAllowed cr d;
          Some (d\<lparr>pauserehash := pauserehash d - 1\<rparr>)
        })"

end
