(* ===== verification/Dict_Inv.thy ===== *)
theory Dict_Inv
  imports Dict
begin

text \<open>
  The invariant of the hash table, its contents as a multiset of keys and values, and the effect
  of the elementary operations on tables and chains.
\<close>

subsection \<open>Masks\<close>

lemma AND_SIZE_MASK: "h AND DICTHT_SIZE_MASK e = (if e = -1 then 0 else h mod 2 ^ nat e)"
proof -
  have "h AND (2 ^ n - 1) = h mod 2 ^ n" for n
    using take_bit_eq_mask [of n h] by (simp add: take_bit_eq_mod mask_eq_exp_minus_1)
  then show ?thesis by (simp add: DICTHT_SIZE_MASK_def DICTHT_SIZE_def)
qed

subsection \<open>Contents and invariant\<close>

fun entry_val :: "('k, 'v) dictEntry \<Rightarrow> 'v option" where
  "entry_val (EKey k) = None"
| "entry_val (ENoValue k) = None"
| "entry_val (EEmbedded k v) = v"
| "entry_val (ENormal k v) = v"

definition kv :: "('k, 'v) dictEntry \<Rightarrow> 'k \<times> 'v option" where
  "kv e = (dictGetKey e, entry_val e)"

definition ht_kvs :: "('k, 'v) ht \<Rightarrow> ('k \<times> 'v option) multiset" where
  "ht_kvs h = mset (map kv (concat (ht_table h)))"

definition dict_kvs :: "('k, 'v) dict \<Rightarrow> ('k \<times> 'v option) multiset" where
  "dict_kvs d = ht_kvs (ht0 d) + ht_kvs (ht1 d)"

text \<open>The kinds of entries that a dict of a given type holds, and the shape of a chain: a key stored
  without an entry has no next field and can only be last.\<close>

definition kind_ok :: "'k dictType \<Rightarrow> ('k, 'v) dictEntry \<Rightarrow> bool" where
  "kind_ok type e \<longleftrightarrow> (if no_value type then entryIsKey e \<or> entryIsNoValue e
     else \<not> entryIsKey e \<and> \<not> entryIsNoValue e)"

fun chain_ok :: "'k dictType \<Rightarrow> ('k, 'v) dictEntry list \<Rightarrow> bool" where
  "chain_ok type [] \<longleftrightarrow> True"
| "chain_ok type (e # c) \<longleftrightarrow> kind_ok type e \<and> (entryIsKey e \<longrightarrow> c = []) \<and> chain_ok type c"

definition bucket_ok :: "'k dictType \<Rightarrow> int \<Rightarrow> nat \<Rightarrow> ('k, 'v) dictEntry list \<Rightarrow> bool" where
  "bucket_ok type e i c \<longleftrightarrow> chain_ok type c \<and>
     (\<forall>x\<in>set c. hashFunction type (dictGetKey x) AND DICTHT_SIZE_MASK e = i)"

definition ht_ok :: "'k dictType \<Rightarrow> ('k, 'v) ht \<Rightarrow> bool" where
  "ht_ok type h \<longleftrightarrow>
     (ht_size_exp h = -1 \<and> ht_table h = [] \<or>
      0 \<le> ht_size_exp h \<and> ht_size_exp h \<le> 60 \<and> length (ht_table h) = 2 ^ nat (ht_size_exp h)) \<and>
     ht_used h = length (concat (ht_table h)) \<and>
     (\<forall>i<length (ht_table h). bucket_ok type (ht_size_exp h) i (ht_table h ! i))"

definition dict_ok :: "('k, 'v) dict \<Rightarrow> bool" where
  "dict_ok d \<longleftrightarrow>
     ht_ok (dict_type d) (ht0 d) \<and> ht_ok (dict_type d) (ht1 d) \<and>
     (\<forall>k. count (image_mset fst (dict_kvs d)) k \<le> 1) \<and>
     (if rehashidx d = -1 then ht1 d = dictReset
      else 0 \<le> rehashidx d \<and> ht_size_exp (ht0 d) \<noteq> -1 \<and> ht_size_exp (ht1 d) \<noteq> -1 \<and>
        nat (rehashidx d) \<le> length (ht_table (ht0 d)) \<and>
        (\<forall>i<nat (rehashidx d). ht_table (ht0 d) ! i = []))"

text \<open>The abstract value of a dict is a finite map from keys to values; a key of a set, and a key whose
  value has not been set yet, is mapped to \<open>None\<close>.\<close>

definition dict_map :: "('k, 'v) dict \<Rightarrow> 'k \<rightharpoonup> 'v option" where
  "dict_map d = map_of (map kv (concat (ht_table (ht0 d)) @ concat (ht_table (ht1 d))))"

subsection \<open>Chains\<close>

lemma dictGetNext_chain_ok [simp]: "chain_ok type (e # c) \<Longrightarrow> dictGetNext e c = c"
  by (auto simp: dictGetNext_def)

lemma chain_find_Some:
  "chain_ok type c \<Longrightarrow> chain_find k c = Some p \<Longrightarrow> p < length c \<and> dictGetKey (c ! p) = k"
proof (induction c arbitrary: p)
  case (Cons e c)
  then show ?case by (auto split: if_splits)
qed simp

lemma chain_find_None:
  "chain_ok type c \<Longrightarrow> chain_find k c = None \<Longrightarrow> k \<notin> dictGetKey ` set c"
  by (induction c) (auto split: if_splits)

lemma chain_ok_nth: "chain_ok type c \<Longrightarrow> i < length c \<Longrightarrow> kind_ok type (c ! i)"
  by (induction c arbitrary: i) (auto simp: nth_Cons split: nat.split)

lemma chain_ok_key_last: "chain_ok type c \<Longrightarrow> Suc i < length c \<Longrightarrow> \<not> entryIsKey (c ! i)"
  by (induction c arbitrary: i) (auto simp: nth_Cons split: nat.split)

lemma chain_ok_remove: "chain_ok type c \<Longrightarrow> chain_ok type (take p c @ drop (Suc p) c)"
proof (induction c arbitrary: p)
  case (Cons e c)
  then show ?case by (cases p) auto
qed simp

lemma chain_ok_update:
  assumes "chain_ok type c" and "i < length c" and "kind_ok type e" and "entryIsKey e \<longleftrightarrow> entryIsKey (c ! i)"
  shows "chain_ok type (c[i := e])"
  using assms by (induction c arbitrary: i) (auto simp: nth_Cons split: nat.splits)

lemma chain_unlink_ok:
  assumes "chain_ok type c" and "p < length c"
  shows "chain_unlink p c = Some (take p c @ drop (Suc p) c)"
proof -
  have "p = 0 \<or> \<not> entryIsKey (c ! (p - 1))"
    using chain_ok_key_last [OF assms(1), of "p - 1"] assms(2) by auto
  moreover have "entryIsKey (c ! p) \<Longrightarrow> drop (Suc p) c = []"
    using chain_ok_key_last [OF assms(1), of p] by (cases "Suc p < length c") auto
  ultimately show ?thesis
    using assms(2) by (auto simp: chain_unlink_def dictGetNext_def)
qed

subsection \<open>Tables\<close>

lemma ht_ok_reset [simp]: "ht_ok type dictReset"
  by (simp add: ht_ok_def dictReset_def)

lemma ht_kvs_reset [simp]: "ht_kvs dictReset = {#}"
  by (simp add: ht_kvs_def dictReset_def)

lemma size_ht_kvs: "ht_ok type h \<Longrightarrow> size (ht_kvs h) = ht_used h"
  by (simp add: ht_ok_def ht_kvs_def)

lemma ht_ok_index: "ht_ok type h \<Longrightarrow> ht_size_exp h \<noteq> -1 \<Longrightarrow> x AND DICTHT_SIZE_MASK (ht_size_exp h) < length (ht_table h)"
  by (auto simp: ht_ok_def AND_SIZE_MASK)

lemma ht_ok_length: "ht_ok type h \<Longrightarrow> length (ht_table h) = DICTHT_SIZE (ht_size_exp h)"
  by (auto simp: ht_ok_def DICTHT_SIZE_def)

lemma concat_update:
  assumes "i < length t"
  shows "length (concat (t[i := c])) + length (t ! i) = length (concat t) + length c"
    and "mset (concat (t[i := c])) + mset (t ! i) = mset (concat t) + mset c"
proof -
  have t: "t = take i t @ t ! i # drop (Suc i) t" using assms by (rule id_take_nth_drop)
  have u: "t[i := c] = take i t @ c # drop (Suc i) t" using assms by (rule upd_conv_take_nth_drop)
  show "length (concat (t[i := c])) + length (t ! i) = length (concat t) + length c"
    by (subst (2) t, subst u) simp
  show "mset (concat (t[i := c])) + mset (t ! i) = mset (concat t) + mset c"
    by (subst (2) t, subst u) simp
qed

text \<open>Replacing one bucket. Counting and contents follow from the two chains.\<close>

lemma ht_ok_set_bucket:
  assumes h: "ht_ok type h" and i: "i < length (ht_table h)"
    and c: "bucket_ok type (ht_size_exp h) i c"
    and u: "u + length (ht_table h ! i) = ht_used h + length c"
  shows "ht_ok type ((set_bucket h i c)\<lparr>ht_used := u\<rparr>)"
    and "ht_kvs ((set_bucket h i c)\<lparr>ht_used := u\<rparr>) + mset (map kv (ht_table h ! i)) =
      ht_kvs h + mset (map kv c)"
proof -
  show "ht_ok type ((set_bucket h i c)\<lparr>ht_used := u\<rparr>)"
    using h i c u concat_update(1) [OF i, of c]
    by (auto simp: ht_ok_def set_bucket_def nth_list_update)
  have "image_mset kv (mset (concat ((ht_table h)[i := c])) + mset (ht_table h ! i)) =
      image_mset kv (mset (concat (ht_table h)) + mset c)"
    using concat_update(2) [OF i, of c] by simp
  then show "ht_kvs ((set_bucket h i c)\<lparr>ht_used := u\<rparr>) + mset (map kv (ht_table h ! i)) =
      ht_kvs h + mset (map kv c)"
    by (simp add: ht_kvs_def set_bucket_def)
qed

lemma ht_ok_bucket: "ht_ok type h \<Longrightarrow> i < length (ht_table h) \<Longrightarrow> bucket_ok type (ht_size_exp h) i (ht_table h ! i)"
  by (simp add: ht_ok_def)

lemma bucket_ok_chain: "bucket_ok type e i c \<Longrightarrow> chain_ok type c"
  by (simp add: bucket_ok_def)

lemma bucket_length_used: "ht_ok type h \<Longrightarrow> i < length (ht_table h) \<Longrightarrow> length (ht_table h ! i) \<le> ht_used h"
  using concat_update(1) [of i "ht_table h" "[]"] by (auto simp: ht_ok_def)

text \<open>Putting an entry in front of its bucket.\<close>

lemma ht_ok_push:
  assumes h: "ht_ok type h" and e: "ht_size_exp h \<noteq> -1"
    and i: "i = hashFunction type (dictGetKey x) AND DICTHT_SIZE_MASK (ht_size_exp h)"
    and x: "kind_ok type x" "entryIsKey x \<Longrightarrow> ht_table h ! i = []"
  shows "ht_ok type ((set_bucket h i (x # ht_table h ! i))\<lparr>ht_used := ht_used h + 1\<rparr>)"
    and "ht_kvs ((set_bucket h i (x # ht_table h ! i))\<lparr>ht_used := ht_used h + 1\<rparr>) = add_mset (kv x) (ht_kvs h)"
proof -
  have il: "i < length (ht_table h)" using ht_ok_index [OF h e] i by simp
  have b: "bucket_ok type (ht_size_exp h) i (x # ht_table h ! i)"
    using ht_ok_bucket [OF h il] x i by (auto simp: bucket_ok_def)
  have u: "ht_used h + 1 + length (ht_table h ! i) = ht_used h + length (x # ht_table h ! i)" by simp
  show "ht_ok type ((set_bucket h i (x # ht_table h ! i))\<lparr>ht_used := ht_used h + 1\<rparr>)"
    by (rule ht_ok_set_bucket(1) [OF h il b u])
  have "ht_kvs ((set_bucket h i (x # ht_table h ! i))\<lparr>ht_used := ht_used h + 1\<rparr>) +
      mset (map kv (ht_table h ! i)) = add_mset (kv x) (ht_kvs h) + mset (map kv (ht_table h ! i))"
    using ht_ok_set_bucket(2) [OF h il b u] by simp
  then show "ht_kvs ((set_bucket h i (x # ht_table h ! i))\<lparr>ht_used := ht_used h + 1\<rparr>) = add_mset (kv x) (ht_kvs h)"
    by (simp only: add_right_cancel)
qed

subsection \<open>Rehashing moves entries\<close>

text \<open>A reorganisation: the contents, the type and the pause counters stay, and a table that exists does
  not vanish.\<close>

definition reorg :: "('k, 'v) dict \<Rightarrow> ('k, 'v) dict \<Rightarrow> bool" where
  "reorg d d' \<longleftrightarrow> dict_ok d' \<and> dict_kvs d' = dict_kvs d \<and> dict_type d' = dict_type d \<and>
     pauserehash d' = pauserehash d \<and> pauseAutoResize d' = pauseAutoResize d \<and>
     (ht_size_exp (ht0 d) \<noteq> -1 \<longrightarrow> ht_size_exp (ht0 d') \<noteq> -1)"

lemma reorg_refl: "dict_ok d \<Longrightarrow> reorg d d"
  by (simp add: reorg_def)

lemma reorg_trans [trans]: "reorg a b \<Longrightarrow> reorg b c \<Longrightarrow> reorg a c"
  by (simp add: reorg_def)

lemma rehash_index_hash:
  assumes "0 \<le> e0" and "0 \<le> e1"
    and "hashFunction type k AND DICTHT_SIZE_MASK e0 = idx"
  shows "rehash_index type e0 e1 idx k = hashFunction type k AND DICTHT_SIZE_MASK e1"
proof (cases "e1 > e0")
  case False
  then have "(2::nat) ^ nat e1 dvd 2 ^ nat e0" using assms by (simp add: le_imp_power_dvd)
  then show ?thesis
    using assms False by (auto simp: rehash_index_def AND_SIZE_MASK mod_mod_cancel)
qed (simp add: rehash_index_def)

lemma rehash_entry_ok:
  assumes "kind_ok type de"
  shows "\<exists>de'. rehash_entry type de b = Some de' \<and> kv de' = kv de \<and> kind_ok type de' \<and>
     (entryIsKey de' \<longrightarrow> b = []) \<and> dictGetKey de' = dictGetKey de"
  using assms by (cases de) (auto simp: rehash_entry_def kind_ok_def kv_def split: if_splits)

lemma rehash_chain_spec:
  assumes "ht_ok (dict_type d) (ht1 d)" and "ht_size_exp (ht1 d) \<noteq> -1" and "0 \<le> ht_size_exp (ht0 d)"
    and "bucket_ok (dict_type d) (ht_size_exp (ht0 d)) idx c" and "length c \<le> ht_used (ht0 d)"
  shows "\<exists>h1. rehash_chain d idx c =
      Some (d\<lparr>ht0 := (ht0 d)\<lparr>ht_used := ht_used (ht0 d) - length c\<rparr>, ht1 := h1\<rparr>) \<and>
     ht_ok (dict_type d) h1 \<and> ht_size_exp h1 = ht_size_exp (ht1 d) \<and>
     ht_kvs h1 = ht_kvs (ht1 d) + mset (map kv c)"
  using assms
proof (induction c arbitrary: d)
  case Nil
  then show ?case by (intro exI [of _ "ht1 d"]) simp
next
  case (Cons de rest)
  note 2 = Cons
  let ?T = "dict_type d" and ?e0 = "ht_size_exp (ht0 d)" and ?e1 = "ht_size_exp (ht1 d)"
  define i where "i = hashFunction ?T (dictGetKey de) AND DICTHT_SIZE_MASK ?e1"
  have c: "chain_ok ?T (de # rest)" and rest: "bucket_ok ?T ?e0 idx rest"
    and hk: "hashFunction ?T (dictGetKey de) AND DICTHT_SIZE_MASK ?e0 = idx"
    using 2(5) by (auto simp: bucket_ok_def)
  have nx: "dictGetNext de rest = rest" using c by (rule dictGetNext_chain_ok)
  have e1: "0 \<le> ?e1" using 2(2,3) by (auto simp: ht_ok_def)
  have ri: "rehash_index ?T ?e0 ?e1 idx (dictGetKey de) = i"
    using rehash_index_hash [OF 2(4) e1 hk] by (simp add: i_def)
  have il: "i < length (ht_table (ht1 d))"
    using ht_ok_index [OF 2(2,3)] by (simp add: i_def)
  define b where "b = ht_table (ht1 d) ! i"
  have gb: "get_bucket (ht1 d) i = Some b" using il by (simp add: get_bucket_def b_def)
  obtain de' where de': "rehash_entry ?T de b = Some de'" "kv de' = kv de" "kind_ok ?T de'"
      "entryIsKey de' \<longrightarrow> b = []" "dictGetKey de' = dictGetKey de"
    using rehash_entry_ok [of ?T de b] c by auto
  define h1 where "h1 = (set_bucket (ht1 d) i (de' # b))\<lparr>ht_used := ht_used (ht1 d) + 1\<rparr>"
  have h1: "ht_ok ?T h1" "ht_kvs h1 = add_mset (kv de) (ht_kvs (ht1 d))"
    using ht_ok_push [OF 2(2,3), of i de'] de' by (auto simp: h1_def b_def i_def)
  define d1 where "d1 = d\<lparr>ht1 := h1, ht0 := (ht0 d)\<lparr>ht_used := ulong_dec (ht_used (ht0 d))\<rparr>\<rparr>"
  have step: "rehash_chain d idx (de # rest) = rehash_chain d1 idx rest"
    using ri gb de'(1) nx by (simp add: d1_def h1_def)
  have ud: "ulong_dec (ht_used (ht0 d)) = ht_used (ht0 d) - 1"
    using 2(6) by (simp add: ulong_dec_def)
  have "\<exists>h. rehash_chain d1 idx rest =
      Some (d1\<lparr>ht0 := (ht0 d1)\<lparr>ht_used := ht_used (ht0 d1) - length rest\<rparr>, ht1 := h\<rparr>) \<and>
     ht_ok (dict_type d1) h \<and> ht_size_exp h = ht_size_exp (ht1 d1) \<and>
     ht_kvs h = ht_kvs (ht1 d1) + mset (map kv rest)"
    using 2(3,4,6) h1 rest ud
    by (intro Cons.IH) (auto simp: d1_def h1_def set_bucket_def)
  then show ?case
    using step h1 ud by (auto simp: d1_def h1_def set_bucket_def)
qed

lemma dict_okD:
  assumes "dict_ok d"
  shows "ht_ok (dict_type d) (ht0 d)" and "ht_ok (dict_type d) (ht1 d)"
    and "\<forall>k. count (image_mset fst (dict_kvs d)) k \<le> 1"
    and "dictIsRehashing d \<Longrightarrow> 0 \<le> rehashidx d \<and> 0 \<le> ht_size_exp (ht0 d) \<and> ht_size_exp (ht1 d) \<noteq> -1 \<and>
        nat (rehashidx d) \<le> length (ht_table (ht0 d)) \<and> (\<forall>i<nat (rehashidx d). ht_table (ht0 d) ! i = [])"
    and "\<not> dictIsRehashing d \<Longrightarrow> ht1 d = dictReset \<and> rehashidx d = -1"
  using assms by (auto simp: dict_ok_def dictIsRehashing_def ht_ok_def split: if_splits)

lemma rehash_bucket_spec:
  assumes d: "dict_ok d" and r: "dictIsRehashing d" and idx: "idx < length (ht_table (ht0 d))"
  shows "\<exists>h0 h1. rehashEntriesInBucketAtIndex d idx = Some (d\<lparr>ht0 := h0, ht1 := h1\<rparr>) \<and>
     reorg d (d\<lparr>ht0 := h0, ht1 := h1\<rparr>) \<and> ht_table h0 = (ht_table (ht0 d))[idx := []] \<and>
     ht_size_exp h0 = ht_size_exp (ht0 d) \<and> ht_size_exp h1 = ht_size_exp (ht1 d)"
proof -
  let ?T = "dict_type d"
  define c where "c = ht_table (ht0 d) ! idx"
  note ok = dict_okD [OF d]
  have b: "bucket_ok ?T (ht_size_exp (ht0 d)) idx c" and u: "length c \<le> ht_used (ht0 d)"
    using ht_ok_bucket [OF ok(1) idx] bucket_length_used [OF ok(1) idx] by (simp_all add: c_def)
  obtain h1 where h1: "rehash_chain d idx c =
      Some (d\<lparr>ht0 := (ht0 d)\<lparr>ht_used := ht_used (ht0 d) - length c\<rparr>, ht1 := h1\<rparr>)"
      "ht_ok ?T h1" "ht_size_exp h1 = ht_size_exp (ht1 d)"
      "ht_kvs h1 = ht_kvs (ht1 d) + mset (map kv c)"
    using rehash_chain_spec [OF ok(2) _ _ b u] ok(4) [OF r] by auto
  define h0 where "h0 = (set_bucket (ht0 d) idx [])\<lparr>ht_used := ht_used (ht0 d) - length c\<rparr>"
  have nb: "bucket_ok ?T (ht_size_exp (ht0 d)) idx []" by (simp add: bucket_ok_def)
  have nu: "ht_used (ht0 d) - length c + length (ht_table (ht0 d) ! idx) = ht_used (ht0 d) + length []"
    using u by (simp add: c_def)
  note h0 = ht_ok_set_bucket [OF ok(1) idx nb nu, folded h0_def, folded c_def]
  let ?d' = "d\<lparr>ht0 := h0, ht1 := h1\<rparr>"
  have "dict_kvs ?d' = dict_kvs d"
    using h0(2) h1(4) by (simp add: dict_kvs_def)
  moreover have "dict_ok ?d'"
    using ok(3,4) r idx h0(1) h1(2,3) \<open>dict_kvs ?d' = dict_kvs d\<close>
    by (auto simp: dict_ok_def dictIsRehashing_def h0_def set_bucket_def nth_list_update)
  ultimately have "reorg d ?d'" by (simp add: reorg_def h0_def set_bucket_def)
  moreover have "rehashEntriesInBucketAtIndex d idx = Some ?d'"
    using h1(1) idx
    by (simp add: rehashEntriesInBucketAtIndex_def get_bucket_def c_def h0_def set_bucket_def)
  ultimately show ?thesis
    using h1(3) by (intro exI [of _ h0] exI [of _ h1]) (simp add: h0_def set_bucket_def)
qed

lemma reorg_rehashidx:
  assumes "dict_ok d" and "dictIsRehashing d" and "n \<le> length (ht_table (ht0 d))"
    and "\<forall>i<n. ht_table (ht0 d) ! i = []"
  shows "reorg d (d\<lparr>rehashidx := int n\<rparr>)"
  using assms by (auto simp: reorg_def dict_ok_def dictIsRehashing_def dict_kvs_def)

lemma ht_used_0: "ht_ok type h \<Longrightarrow> ht_used h = 0 \<Longrightarrow> ht_kvs h = {#}"
  using size_ht_kvs [of type h] by simp

lemma notify_simps [simp]:
  "ht0 (notifyCompleted d) = ht0 d" "ht1 (notifyCompleted d) = ht1 d"
  "dict_type (notifyCompleted d) = dict_type d" "pauserehash (notifyCompleted d) = pauserehash d"
  "pauseAutoResize (notifyCompleted d) = pauseAutoResize d" "rehashidx (notifyCompleted d) = rehashidx d"
  "ht0 (notifyStarted d) = ht0 d" "ht1 (notifyStarted d) = ht1 d"
  "dict_type (notifyStarted d) = dict_type d" "pauserehash (notifyStarted d) = pauserehash d"
  "pauseAutoResize (notifyStarted d) = pauseAutoResize d" "rehashidx (notifyStarted d) = rehashidx d"
  by (simp_all add: notifyCompleted_def notifyStarted_def)

lemma check_completed_spec:
  assumes "dict_ok d" and "dictIsRehashing d"
  shows "reorg d (fst (dictCheckRehashingCompleted d))"
    and "snd (dictCheckRehashingCompleted d) \<longleftrightarrow> ht_used (ht0 d) = 0"
    and "\<not> snd (dictCheckRehashingCompleted d) \<Longrightarrow> fst (dictCheckRehashingCompleted d) = d"
    and "snd (dictCheckRehashingCompleted d) \<Longrightarrow> rehashidx (fst (dictCheckRehashingCompleted d)) = -1"
  using assms dict_okD [OF assms(1)] ht_used_0 [of "dict_type d" "ht0 d"]
  by (auto simp: dictCheckRehashingCompleted_def reorg_def dict_ok_def dict_kvs_def split: if_splits)

lemma rehash_skip_spec:
  assumes "j < length (ht_table h)" and "ht_table h ! j \<noteq> []" and "idx \<le> j"
    and "\<forall>i<idx. ht_table h ! i = []"
  shows "\<exists>idx' v stop. rehash_skip h idx visits = Some (idx', v, stop) \<and> idx' \<le> length (ht_table h) \<and>
     (\<forall>i<idx'. ht_table h ! i = []) \<and> idx \<le> idx' \<and>
     (stop \<longrightarrow> idx < idx') \<and> (\<not> stop \<longrightarrow> idx' < length (ht_table h) \<and> ht_table h ! idx' \<noteq> [])"
  using assms
proof (induction "j - idx" arbitrary: idx visits)
  case 0
  then have "idx = j" by simp
  then show ?case using 0 by (subst rehash_skip.simps) (auto simp: get_bucket_def)
next
  case (Suc n)
  show ?case
  proof (cases "ht_table h ! idx = []")
    case False
    then show ?thesis using Suc.prems by (subst rehash_skip.simps) (auto simp: get_bucket_def)
  next
    case True
    then have e: "\<forall>i<Suc idx. ht_table h ! i = []" using Suc.prems by (auto simp: less_Suc_eq)
    have lt: "idx < j" using Suc.hyps(2) by simp
    show ?thesis
    proof (cases "visits - 1 = 0")
      case stop: True
      then show ?thesis
        using True e lt Suc.prems by (subst rehash_skip.simps) (auto simp: get_bucket_def)
    next
      case go: False
      have eq: "rehash_skip h idx visits = rehash_skip h (idx + 1) (visits - 1)"
        using True go lt Suc.prems by (subst rehash_skip.simps) (simp add: get_bucket_def)
      have "n = j - (idx + 1)" using Suc.hyps(2) by simp
      from Suc.hyps(1) [OF this] obtain idx' v stop where
        "rehash_skip h (idx + 1) (visits - 1) = Some (idx', v, stop)" "idx' \<le> length (ht_table h)"
        "\<forall>i<idx'. ht_table h ! i = []" "idx + 1 \<le> idx'"
        "stop \<longrightarrow> idx + 1 < idx'" "\<not> stop \<longrightarrow> idx' < length (ht_table h) \<and> ht_table h ! idx' \<noteq> []"
        using Suc.prems e lt by (metis Suc_eq_plus1 Suc_leI)
      then show ?thesis using eq by auto
    qed
  qed
qed

lemma nonempty_bucket:
  assumes "ht_ok type h" and "ht_used h \<noteq> 0"
  shows "\<exists>j<length (ht_table h). ht_table h ! j \<noteq> []"
proof (rule ccontr)
  assume "\<not> ?thesis"
  then have "concat (ht_table h) = []" by (auto simp: in_set_conv_nth)
  with assms show False by (simp add: ht_ok_def)
qed

text \<open>What a round of rehashing keeps: it only moves entries and advances the index.\<close>

definition rehash_step :: "('k, 'v) dict \<Rightarrow> ('k, 'v) dict \<Rightarrow> bool" where
  "rehash_step d d' \<longleftrightarrow> reorg d d' \<and> dictIsRehashing d' \<and> rehashidx d \<le> rehashidx d' \<and>
     ht_size_exp (ht0 d') = ht_size_exp (ht0 d) \<and> ht_size_exp (ht1 d') = ht_size_exp (ht1 d)"

lemma rehash_step_trans: "rehash_step a b \<Longrightarrow> rehash_step b c \<Longrightarrow> rehash_step a c"
  by (auto simp: rehash_step_def intro: reorg_trans)

lemma rehash_round:
  assumes d: "dict_ok d" and r: "dictIsRehashing d" and u: "ht_used (ht0 d) \<noteq> 0"
  shows "\<exists>d' v stop. rehash_step d d' \<and> rehashidx d < rehashidx d' \<and>
     dictRehash_loop d (Suc n) visits = (if stop then Some (d', True) else dictRehash_loop d' n v)"
proof -
  note ok = dict_okD [OF d] and ix = dict_okD(4) [OF d r]
  obtain j where j: "j < length (ht_table (ht0 d))" "ht_table (ht0 d) ! j \<noteq> []"
    using nonempty_bucket [OF ok(1) u] by blast
  have ji: "nat (rehashidx d) \<le> j" using ix j(2) by (metis not_less)
  have "\<exists>idx v stop. rehash_skip (ht0 d) (nat (rehashidx d)) visits = Some (idx, v, stop) \<and>
      idx \<le> length (ht_table (ht0 d)) \<and> (\<forall>i<idx. ht_table (ht0 d) ! i = []) \<and> nat (rehashidx d) \<le> idx \<and>
      (stop \<longrightarrow> nat (rehashidx d) < idx) \<and>
      (\<not> stop \<longrightarrow> idx < length (ht_table (ht0 d)) \<and> ht_table (ht0 d) ! idx \<noteq> [])"
    using ix by (intro rehash_skip_spec [OF j ji]) blast
  then obtain idx v stop where sk: "rehash_skip (ht0 d) (nat (rehashidx d)) visits = Some (idx, v, stop)"
      "idx \<le> length (ht_table (ht0 d))" "\<forall>i<idx. ht_table (ht0 d) ! i = []" "nat (rehashidx d) \<le> idx"
      "stop \<longrightarrow> nat (rehashidx d) < idx" "\<not> stop \<longrightarrow> idx < length (ht_table (ht0 d))"
    by blast
  have as: "DICTHT_SIZE (ht_size_exp (ht0 d)) > nat (rehashidx d)"
    using ht_ok_length [OF ok(1)] j(1) ji by simp
  define d1 where "d1 = d\<lparr>rehashidx := int idx\<rparr>"
  have d1: "reorg d d1" using reorg_rehashidx [OF d r sk(2,3)] by (simp add: d1_def)
  show ?thesis
  proof (cases stop)
    case True
    then have "rehash_step d d1 \<and> rehashidx d < rehashidx d1"
      using d1 sk(4,5) ix by (auto simp: rehash_step_def d1_def dictIsRehashing_def)
    moreover have "dictRehash_loop d (Suc n) visits = Some (d1, True)"
      using u as sk(1) True by (simp add: d1_def)
    ultimately show ?thesis using True by (intro exI [of _ d1] exI [of _ v] exI [of _ True]) simp
  next
    case False
    have r1: "dictIsRehashing d1" "idx < length (ht_table (ht0 d1))"
      using False sk(6) by (auto simp: d1_def dictIsRehashing_def)
    obtain h0 h1 where h: "rehashEntriesInBucketAtIndex d1 idx = Some (d1\<lparr>ht0 := h0, ht1 := h1\<rparr>)"
      "reorg d1 (d1\<lparr>ht0 := h0, ht1 := h1\<rparr>)" "ht_table h0 = (ht_table (ht0 d1))[idx := []]"
      "ht_size_exp h0 = ht_size_exp (ht0 d1)" "ht_size_exp h1 = ht_size_exp (ht1 d1)"
      using rehash_bucket_spec [OF _ r1] d1 by (auto simp: reorg_def)
    define d2 where "d2 = d1\<lparr>ht0 := h0, ht1 := h1\<rparr>"
    have e: "\<forall>i<Suc idx. ht_table (ht0 d2) ! i = []"
      using sk(3) h(3) r1(2) by (auto simp: d2_def d1_def nth_list_update less_Suc_eq)
    define d3 where "d3 = d2\<lparr>rehashidx := rehashidx d2 + 1\<rparr>"
    have "reorg d2 (d2\<lparr>rehashidx := int (Suc idx)\<rparr>)"
      using h(2,3) r1 e by (intro reorg_rehashidx) (auto simp: d2_def reorg_def dictIsRehashing_def)
    then have "reorg d2 d3" by (simp add: d3_def d2_def d1_def add.commute)
    then have "reorg d d3" using d1 h(2) by (auto simp: d2_def intro: reorg_trans)
    then have "rehash_step d d3 \<and> rehashidx d < rehashidx d3"
      using sk(4) ix h(4,5) by (auto simp: rehash_step_def d3_def d2_def d1_def dictIsRehashing_def)
    moreover have "dictRehash_loop d (Suc n) visits = dictRehash_loop d3 n v"
      using u as sk(1) False h(1) by (simp add: d3_def d2_def flip: d1_def)
    ultimately show ?thesis by (intro exI [of _ d3] exI [of _ v] exI [of _ False]) simp
  qed
qed

lemma rehash_loop_spec:
  assumes "dict_ok d" and "dictIsRehashing d"
  shows "\<exists>d' stop. dictRehash_loop d n visits = Some (d', stop) \<and> rehash_step d d' \<and>
     (n \<noteq> 0 \<longrightarrow> ht_used (ht0 d) \<noteq> 0 \<longrightarrow> rehashidx d < rehashidx d')"
  using assms
proof (induction n arbitrary: d visits)
  case 0
  then show ?case
    by (intro exI [of _ d] exI [of _ False]) (simp add: rehash_step_def reorg_refl)
next
  case (Suc n)
  show ?case
  proof (cases "ht_used (ht0 d) = 0")
    case True
    then show ?thesis
      using Suc.prems
      by (intro exI [of _ d] exI [of _ False]) (simp add: rehash_step_def reorg_refl)
  next
    case False
    obtain d1 v stop where d1: "rehash_step d d1" "rehashidx d < rehashidx d1"
      "dictRehash_loop d (Suc n) visits = (if stop then Some (d1, True) else dictRehash_loop d1 n v)"
      using rehash_round [OF Suc.prems False] by blast
    then have "dict_ok d1" "dictIsRehashing d1" by (auto simp: rehash_step_def reorg_def)
    then obtain d2 st where "dictRehash_loop d1 n v = Some (d2, st)" "rehash_step d1 d2"
      using Suc.IH by blast
    then show ?thesis
      using d1 rehash_step_trans [OF d1(1)] by (cases stop) (auto simp: rehash_step_def)
  qed
qed

text \<open>The outcome of \<^verbatim>\<open>dictRehash\<close>: nothing changes when it is refused, otherwise entries move and either
  the rehashing is complete or the index has advanced.\<close>

definition rehash_outcome :: "('k, 'v) dict \<Rightarrow> ('k, 'v) dict \<Rightarrow> bool" where
  "rehash_outcome d d' \<longleftrightarrow> d' = d \<or> rehashidx d' = -1 \<or> rehash_step d d' \<and> rehashidx d < rehashidx d'"

lemma not_refused: "\<not> rehash_refused cr d \<Longrightarrow> dictIsRehashing d"
  by (auto simp: rehash_refused_def Let_def)

lemma refused_rehash_step: "rehash_step d d' \<Longrightarrow> dictIsRehashing d \<Longrightarrow> rehash_refused cr d' \<longleftrightarrow> rehash_refused cr d"
  by (auto simp: rehash_step_def rehash_refused_def)

lemma dictRehash_spec:
  assumes d: "dict_ok d" and n: "n \<noteq> 0"
  shows "\<exists>d' more. dictRehash cr d n = Some (d', more) \<and> reorg d d' \<and> rehash_outcome d d' \<and>
     (more \<longrightarrow> \<not> rehash_refused cr d \<and> rehash_step d d' \<and> rehashidx d < rehashidx d') \<and>
     (\<not> more \<longrightarrow> d' = d \<and> rehash_refused cr d \<or> rehashidx d' = -1)"
proof (cases "rehash_refused cr d")
  case True
  then show ?thesis
    using d by (intro exI [of _ d] exI [of _ False])
      (simp add: dictRehash_def reorg_refl rehash_outcome_def)
next
  case False
  then have r: "dictIsRehashing d" by (rule not_refused)
  obtain d1 stop where d1: "dictRehash_loop d n (int n * 10) = Some (d1, stop)" "rehash_step d d1"
    "ht_used (ht0 d) \<noteq> 0 \<Longrightarrow> rehashidx d < rehashidx d1"
    using rehash_loop_spec [OF d r, of n "int n * 10"] n by blast
  have ok1: "dict_ok d1" "dictIsRehashing d1" "reorg d d1"
    using d1(2) by (auto simp: rehash_step_def reorg_def)
  note cc = check_completed_spec [OF ok1(1,2)]
  show ?thesis
  proof (cases "ht_used (ht0 d) = 0")
    case True
    then have "dictRehash_loop d n (int n * 10) = Some (d, False)"
      by (cases n) auto
    then have "d1 = d" "\<not> stop" using d1(1) by auto
    then have "dictRehash cr d n = Some (fst (dictCheckRehashingCompleted d), False)"
      using False d1(1) cc(2) True by (simp add: dictRehash_def split_def)
    then show ?thesis
      using cc(1,2,4) True \<open>d1 = d\<close> by (auto simp: rehash_outcome_def)
  next
    case ne: False
    have adv: "rehashidx d < rehashidx d1" using d1(3) ne by simp
    show ?thesis
    proof (cases "stop \<or> \<not> snd (dictCheckRehashingCompleted d1)")
      case True
      then have "dictRehash cr d n = Some (d1, True)"
        using False d1(1) cc(3) by (auto simp: dictRehash_def split_def)
      then show ?thesis
        using d1(2) adv ok1(3) False by (auto simp: rehash_outcome_def)
    next
      case compl: False
      then have "dictRehash cr d n = Some (fst (dictCheckRehashingCompleted d1), False)"
        using False d1(1) by (simp add: dictRehash_def split_def)
      then show ?thesis
        using cc(1,4) compl ok1(3) reorg_trans by (auto simp: rehash_outcome_def)
    qed
  qed
qed

lemma rehash_all_spec:
  assumes "dict_ok d"
  shows "\<exists>d'. rehash_all cr d = Some d' \<and> reorg d d' \<and>
     (d' = d \<and> rehash_refused cr d \<or> rehashidx d' = -1)"
  using assms
proof (induction "length (ht_table (ht0 d)) - nat (rehashidx d)" arbitrary: d rule: less_induct)
  case less
  obtain d1 more where d1: "dictRehash cr d 1000 = Some (d1, more)" "reorg d d1"
    "more \<Longrightarrow> \<not> rehash_refused cr d \<and> rehash_step d d1 \<and> rehashidx d < rehashidx d1"
    "\<not> more \<Longrightarrow> d1 = d \<and> rehash_refused cr d \<or> rehashidx d1 = -1"
    using dictRehash_spec [OF less.prems, of 1000 cr] by auto
  show ?case
  proof (cases more)
    case False
    then show ?thesis using d1 by (subst rehash_all.simps) auto
  next
    case True
    have ok1: "dict_ok d1" "dictIsRehashing d1" "dictIsRehashing d"
      using d1 True not_refused by (auto simp: reorg_def rehash_step_def)
    have "length (ht_table (ht0 d1)) = length (ht_table (ht0 d))"
      using ht_ok_length dict_okD(1) ok1(1) less.prems d1(3) [OF True]
      by (metis rehash_step_def)
    then have "length (ht_table (ht0 d1)) - nat (rehashidx d1) < length (ht_table (ht0 d)) - nat (rehashidx d)"
      using d1(3) [OF True] dict_okD(4) [OF ok1(1,2)] dict_okD(4) [OF less.prems ok1(3)] by auto
    then obtain d2 where d2: "rehash_all cr d1 = Some d2" "reorg d1 d2"
      "d2 = d1 \<and> rehash_refused cr d1 \<or> rehashidx d2 = -1"
      using less.hyps ok1(1) by blast
    have "\<not> rehash_refused cr d1"
      using d1(3) [OF True] refused_rehash_step ok1(3) by blast
    then show ?thesis
      using d1(1,2) d2 True reorg_trans by (subst rehash_all.simps) auto
  qed
qed

text \<open>The outcome of the rehashing work that a lookup does: as long as rehashing goes on, the size of the
  first table stays.\<close>

definition lookup_step :: "('k, 'v) dict \<Rightarrow> ('k, 'v) dict \<Rightarrow> bool" where
  "lookup_step d d' \<longleftrightarrow> reorg d d' \<and>
     (rehashidx d' = -1 \<or> ht_size_exp (ht0 d') = ht_size_exp (ht0 d))"

lemma dictRehashStep_spec:
  assumes "dict_ok d"
  shows "\<exists>d'. dictRehashStep cr d = Some d' \<and> lookup_step d d'"
proof (cases "pauserehash d = 0")
  case True
  obtain d' more where "dictRehash cr d 1 = Some (d', more)" "reorg d d'" "rehash_outcome d d'"
    using dictRehash_spec [OF assms, of 1 cr] by auto
  then show ?thesis
    using True by (auto simp: dictRehashStep_def lookup_step_def rehash_outcome_def rehash_step_def)
qed (simp add: dictRehashStep_def lookup_step_def reorg_refl assms)

lemma dictBucketRehash_spec:
  assumes "dict_ok d" and idx: "idx < length (ht_table (ht0 d))"
  shows "\<exists>d' r. dictBucketRehash cr d idx = Some (d', r) \<and> lookup_step d d'"
proof (cases "pauserehash d \<noteq> 0 \<or> rehash_refused cr d")
  case True
  then show ?thesis
    using assms(1) by (auto simp: dictBucketRehash_def lookup_step_def reorg_refl)
next
  case False
  then have r: "dictIsRehashing d" using not_refused by blast
  obtain h0 h1 where h: "rehashEntriesInBucketAtIndex d idx = Some (d\<lparr>ht0 := h0, ht1 := h1\<rparr>)"
    "reorg d (d\<lparr>ht0 := h0, ht1 := h1\<rparr>)" "ht_size_exp h0 = ht_size_exp (ht0 d)"
    using rehash_bucket_spec [OF assms(1) r idx] by blast
  let ?d = "d\<lparr>ht0 := h0, ht1 := h1\<rparr>"
  have ok: "dict_ok ?d" "dictIsRehashing ?d"
    using h(2) r by (auto simp: reorg_def dictIsRehashing_def)
  note cc = check_completed_spec [OF ok]
  have "lookup_step d (fst (dictCheckRehashingCompleted ?d))"
    using reorg_trans [OF h(2) cc(1)] cc(3,4) h(3)
    by (cases "snd (dictCheckRehashingCompleted ?d)") (auto simp: lookup_step_def)
  then show ?thesis
    using False h(1) by (auto simp: dictBucketRehash_def)
qed

lemma rehash_for_spec:
  assumes "dict_ok d"
  shows "\<exists>d'. rehash_for cr d h = Some d' \<and> lookup_step d d'"
proof (cases "dictIsRehashing d")
  case True
  let ?idx = "h AND DICTHT_SIZE_MASK (ht_size_exp (ht0 d))"
  have idx: "?idx < length (ht_table (ht0 d))"
    using ht_ok_index dict_okD(1) [OF assms] dict_okD(4) [OF assms True] by fastforce
  show ?thesis
    using True idx dictBucketRehash_spec [OF assms idx, of cr] dictRehashStep_spec [OF assms, of cr]
    by (auto simp: rehash_for_def get_bucket_def Let_def)
qed (simp add: rehash_for_def lookup_step_def reorg_refl assms)

subsection \<open>Resizing\<close>

lemma bit_len_upper: "n < 2 ^ bit_len n"
proof (induction n rule: bit_len.induct)
  case (1 n)
  show ?case
  proof (cases "n = 0")
    case False
    then have "n div 2 < 2 ^ bit_len (n div 2)" using 1 by simp
    then show ?thesis using False by (subst bit_len.simps) auto
  qed (simp add: bit_len.simps)
qed

lemma bit_len_le: "n < 2 ^ k \<Longrightarrow> bit_len n \<le> k"
proof (induction k arbitrary: n)
  case (Suc k)
  then show ?case
    using Suc.IH [of "n div 2"] by (subst bit_len.simps) auto
qed (simp add: bit_len.simps)

lemma dictNextExp_ge: "2 \<le> dictNextExp sz" if "sz < 2 ^ 63 - 1"
proof (cases "sz \<le> 4")
  case False
  have "2 < bit_len (sz - 1)"
  proof (rule ccontr)
    assume "\<not> ?thesis"
    then have "(2::nat) ^ bit_len (sz - 1) \<le> 2 ^ 2" by (intro power_increasing) auto
    with bit_len_upper [of "sz - 1"] False show False by simp
  qed
  moreover have "bit_len (sz - 1) \<le> 63" using that by (intro bit_len_le) auto
  ultimately show ?thesis using False that
    by (simp add: dictNextExp_def DICT_HT_INITIAL_SIZE_def clzl_def)
qed (simp add: dictNextExp_def DICT_HT_INITIAL_SIZE_def)

text \<open>The size check leaves only exponents up to 60.\<close>

lemma dictNextExp_bounds:
  assumes "\<not> (DICTHT_SIZE (dictNextExp sz) < sz \<or>
      DICTHT_SIZE (dictNextExp sz) * 8 mod 18446744073709551616 < DICTHT_SIZE (dictNextExp sz))"
  shows "2 \<le> dictNextExp sz" and "dictNextExp sz \<le> 60"
proof -
  have e: "2 \<le> dictNextExp sz \<and> dictNextExp sz \<le> 63"
  proof (cases "sz < 2 ^ 63 - 1")
    case True
    have "bit_len (sz - 1) \<le> 63" using True by (intro bit_len_le) auto
    then show ?thesis
      using True dictNextExp_ge [OF True]
      by (auto simp: dictNextExp_def DICT_HT_INITIAL_SIZE_def clzl_def)
  qed (simp add: dictNextExp_def DICT_HT_INITIAL_SIZE_def)
  then show "2 \<le> dictNextExp sz" by simp
  show "dictNextExp sz \<le> 60"
  proof (rule ccontr)
    assume "\<not> ?thesis"
    with e have "dictNextExp sz = 61 \<or> dictNextExp sz = 62 \<or> dictNextExp sz = 63" by linarith
    with assms show False by (auto simp: DICTHT_SIZE_def)
  qed
qed

lemma fresh_ht_ok:
  assumes "0 \<le> e" and "e \<le> 60"
  shows "ht_ok type \<lparr>ht_table = replicate (DICTHT_SIZE e) [], ht_used = 0, ht_size_exp = e\<rparr>"
    and "ht_kvs \<lparr>ht_table = replicate (DICTHT_SIZE e) [], ht_used = 0, ht_size_exp = e\<rparr> = {#}"
  using assms by (simp_all add: ht_ok_def ht_kvs_def DICTHT_SIZE_def bucket_ok_def)

text \<open>The outcome of a resize: the contents stay, and a rehashing that is left in progress is at its
  start, unless nothing was done.\<close>

definition resize_step :: "('k, 'v) dict \<Rightarrow> ('k, 'v) dict \<Rightarrow> bool" where
  "resize_step d d' \<longleftrightarrow> reorg d d' \<and> (d' = d \<or> rehashidx d' \<le> 0)"

lemma resize_step_refl: "dict_ok d \<Longrightarrow> resize_step d d"
  by (simp add: resize_step_def reorg_refl)

lemma exp_nonneg: "ht_ok type h \<Longrightarrow> ht_size_exp h = -1 \<longleftrightarrow> ht_table h = []"
  by (auto simp: ht_ok_def)

lemma ht0_exists:
  assumes "dict_ok d" and "size (dict_kvs d) \<noteq> 0 \<or> rehashidx d \<noteq> -1"
  shows "ht_size_exp (ht0 d) \<noteq> -1"
proof (cases "dictIsRehashing d")
  case False
  then have "ht1 d = dictReset" "rehashidx d = -1" using dict_okD(5) [OF assms(1)] by auto
  then have "ht_table (ht0 d) \<noteq> []"
    using assms(2) by (auto simp: dict_kvs_def ht_kvs_def dictReset_def)
  then show ?thesis using exp_nonneg [OF dict_okD(1) [OF assms(1)]] by simp
qed (use dict_okD(4) [OF assms(1)] in auto)

lemma resize_spec:
  assumes d: "dict_ok d" and r: "\<not> dictIsRehashing d"
  shows "\<exists>d' ok mf. dictResizeWithOptionalCheck cr alloc d sz = Some (d', ok, mf) \<and> resize_step d d' \<and>
     (ok \<longrightarrow> ht_size_exp (ht0 d') \<noteq> -1)"
proof -
  let ?e = "dictNextExp sz"
  let ?n = "DICTHT_SIZE ?e"
  note ok = dict_okD [OF d]
  have un: "ht1 d = dictReset" "rehashidx d = -1" using ok(5) r by auto
  show ?thesis
  proof (cases "(?n < sz \<or> ?n * 8 mod 18446744073709551616 < ?n) \<or> ?e = ht_size_exp (ht0 d) \<or>
      (case alloc of None \<Rightarrow> False | Some f \<Rightarrow> \<not> f (?n * 8))")
    case True
    then show ?thesis
      using r resize_step_refl [OF d]
      by (auto simp: dictResizeWithOptionalCheck_def Let_def split: option.splits)
  next
    case False
    define nh :: "('a, 'b) ht" where "nh = \<lparr>ht_table = replicate ?n [], ht_used = 0, ht_size_exp = ?e\<rparr>"
    have e: "0 \<le> ?e" "?e \<le> 60" using dictNextExp_bounds [of sz] False by auto
    have nh: "ht_ok (dict_type d) nh" "ht_kvs nh = {#}"
      using fresh_ht_ok [OF e] by (simp_all add: nh_def)
    define d1 where "d1 = notifyStarted (d\<lparr>ht1 := nh, rehashidx := 0\<rparr>)"
    have eq: "dictResizeWithOptionalCheck cr alloc d sz =
        (if ht_table (ht0 d1) = [] \<or> ht_used (ht0 d1) = 0 then
           Some ((notifyCompleted d1)\<lparr>ht0 := nh, ht1 := dictReset, rehashidx := -1\<rparr>, True, False)
         else if no_incremental_rehash (dict_type d1) then do {
           d \<leftarrow> rehash_all cr d1; Some (d, True, False) }
         else Some (d1, True, False))"
      using False r by (simp add: dictResizeWithOptionalCheck_def Let_def nh_def d1_def)
    have f1: "ht0 d1 = ht0 d" "ht1 d1 = nh" "dict_type d1 = dict_type d" "rehashidx d1 = 0"
      "pauserehash d1 = pauserehash d" "pauseAutoResize d1 = pauseAutoResize d"
      by (simp_all add: d1_def)
    show ?thesis
    proof (cases "ht_table (ht0 d) = [] \<or> ht_used (ht0 d) = 0")
      case True
      then have "ht_kvs (ht0 d) = {#}"
        using ht_used_0 [OF ok(1)] by (auto simp: ht_kvs_def)
      then have "reorg d ((notifyCompleted d1)\<lparr>ht0 := nh, ht1 := dictReset, rehashidx := -1\<rparr>)"
        using nh un f1 e by (simp add: reorg_def dict_ok_def dict_kvs_def nh_def)
      then show ?thesis
        using True eq f1 e by (auto simp: resize_step_def nh_def)
    next
      case ne: False
      then have e0: "ht_size_exp (ht0 d) \<noteq> -1" using exp_nonneg [OF ok(1)] by auto
      have "reorg d d1"
        using ok(1,3) e0 nh un f1 e by (auto simp: reorg_def dict_ok_def dict_kvs_def nh_def)
      then have r1: "resize_step d d1" "dict_ok d1"
        using f1 e0 by (auto simp: resize_step_def reorg_def)
      obtain d2 where d2: "rehash_all cr d1 = Some d2" "reorg d1 d2"
        "d2 = d1 \<or> rehashidx d2 = -1"
        using rehash_all_spec [OF r1(2), of cr] by auto
      have "size (dict_kvs d2) \<noteq> 0"
        using d2(2) \<open>reorg d d1\<close> ne size_ht_kvs [OF ok(1)] by (simp add: reorg_def dict_kvs_def)
      then have e2: "ht_size_exp (ht0 d2) \<noteq> -1"
        using d2(2,3) e0 f1(1) by (metis ht0_exists reorg_def)
      have "resize_step d d2"
        using e2 reorg_trans [OF \<open>reorg d d1\<close> d2(2)] d2(3) f1(4) by (auto simp: resize_step_def)
      then show ?thesis
        using eq ne f1 d2(1) r1 e0 e2 by auto
    qed
  qed
qed

end
