(* ===== verification/Dict_Ops.thy ===== *)
theory Dict_Ops
  imports Dict_Inv
begin

text \<open>
  Correctness of the operations of \<^verbatim>\<open>dict.c\<close>: each of them keeps the invariant, does what it should to
  the abstract map, and never reaches a failed assertion or an access outside a table.
\<close>

subsection \<open>Automatic resizing\<close>

lemma expand_spec:
  assumes "dict_ok d"
  shows "\<exists>d' ok mf. dictExpandWithOptionalCheck cr alloc d sz = Some (d', ok, mf) \<and> resize_step d d' \<and>
     (ok \<longrightarrow> ht_size_exp (ht0 d') \<noteq> -1)"
  using assms resize_spec [OF assms, of cr alloc sz] resize_step_refl [OF assms]
  by (auto simp: dictExpandWithOptionalCheck_def)

lemma dictExpand_spec:
  assumes "dict_ok d"
  shows "\<exists>d' ok. dictExpand cr d sz = Some (d', ok) \<and> resize_step d d' \<and>
     (ok \<longrightarrow> ht_size_exp (ht0 d') \<noteq> -1)"
  using expand_spec [OF assms, of cr None sz] by (auto simp: dictExpand_def)

lemma dictTryExpand_spec:
  assumes "dict_ok d"
  shows "\<exists>d' ok. dictTryExpand cr f d sz = Some (d', ok) \<and> resize_step d d'"
  using expand_spec [OF assms, of cr "Some f" sz] by (auto simp: dictTryExpand_def)

lemma dictShrink_spec:
  assumes "dict_ok d"
  shows "\<exists>d' ok. dictShrink cr d sz = Some (d', ok) \<and> resize_step d d'"
  using resize_spec [OF assms, of cr None sz] resize_step_refl [OF assms]
  by (auto simp: dictShrink_def)

text \<open>The first expansion creates the table of the initial size.\<close>

lemma expand_initial:
  assumes "dict_ok d" and "ht_size_exp (ht0 d) = -1"
  shows "\<exists>d'. dictExpand cr d DICT_HT_INITIAL_SIZE = Some (d', True)"
proof -
  have t: "ht_table (ht0 d) = []" "ht_used (ht0 d) = 0" "\<not> dictIsRehashing d"
    using exp_nonneg dict_okD(1) [OF assms(1)] dict_okD(4) [OF assms(1)] assms(2)
    by (auto simp: ht_ok_def)
  have e: "dictNextExp DICT_HT_INITIAL_SIZE = 2"
    by (simp add: dictNextExp_def)
  show ?thesis
    using t assms(2) e
    by (simp add: dictExpand_def dictExpandWithOptionalCheck_def dictResizeWithOptionalCheck_def
        DICTHT_SIZE_def DICT_HT_INITIAL_SIZE_def Let_def)
qed

lemma dictExpandIfNeeded_spec:
  assumes "dict_ok d"
  shows "\<exists>d' r. dictExpandIfNeeded cr d = Some (d', r) \<and> resize_step d d' \<and> ht_size_exp (ht0 d') \<noteq> -1"
proof (cases "ht_size_exp (ht0 d) = -1")
  case True
  then have "\<not> dictIsRehashing d" using dict_okD(4) [OF assms] by auto
  moreover obtain d' where d': "dictExpand cr d DICT_HT_INITIAL_SIZE = Some (d', True)"
    using expand_initial [OF assms True] by blast
  moreover have "resize_step d d' \<and> ht_size_exp (ht0 d') \<noteq> -1"
    using dictExpand_spec [OF assms, of cr DICT_HT_INITIAL_SIZE] d' by auto
  ultimately show ?thesis
    using True by (auto simp: dictExpandIfNeeded_def DICTHT_SIZE_def)
next
  case False
  then have "DICTHT_SIZE (ht_size_exp (ht0 d)) \<noteq> 0" by (simp add: DICTHT_SIZE_def)
  then show ?thesis
    using False resize_step_refl [OF assms] dictExpand_spec [OF assms, of cr "ht_used (ht0 d) + 1"]
    by (auto simp: dictExpandIfNeeded_def Let_def resize_step_def reorg_def)
qed

lemma dictShrinkIfNeeded_spec:
  assumes "dict_ok d"
  shows "\<exists>d' r. dictShrinkIfNeeded cr d = Some (d', r) \<and> resize_step d d'"
  using resize_step_refl [OF assms] dictShrink_spec [OF assms, of cr "ht_used (ht0 d)"]
  by (auto simp: dictShrinkIfNeeded_def Let_def)

lemma expand_auto_spec:
  assumes "dict_ok d"
  shows "\<exists>d'. dictExpandIfAutoResizeAllowed cr d = Some d' \<and> resize_step d d' \<and>
     (pauseAutoResize d \<le> 0 \<or> ht_size_exp (ht0 d) \<noteq> -1 \<longrightarrow> ht_size_exp (ht0 d') \<noteq> -1)"
  using dictExpandIfNeeded_spec [OF assms, of cr] resize_step_refl [OF assms]
  by (auto simp: dictExpandIfAutoResizeAllowed_def resize_step_def)

lemma shrink_auto_spec:
  assumes "dict_ok d"
  shows "\<exists>d'. dictShrinkIfAutoResizeAllowed cr d = Some d' \<and> resize_step d d'"
  using dictShrinkIfNeeded_spec [OF assms, of cr] resize_step_refl [OF assms]
  by (auto simp: dictShrinkIfAutoResizeAllowed_def)

subsection \<open>Searching both tables\<close>

definition dict_keys :: "('k, 'v) dict \<Rightarrow> 'k set" where
  "dict_keys d = fst ` set_mset (dict_kvs d)"

definition ht_keys :: "('k, 'v) ht \<Rightarrow> 'k set" where
  "ht_keys h = dictGetKey ` set (concat (ht_table h))"

lemma dict_keys_eq: "dict_keys d = ht_keys (ht0 d) \<union> ht_keys (ht1 d)"
  by (simp add: dict_keys_def ht_keys_def dict_kvs_def ht_kvs_def kv_def image_Un image_image)

text \<open>A key can only be in its own bucket.\<close>

lemma ht_keys_bucket:
  assumes "ht_ok type h" and "k \<in> ht_keys h"
  shows "k \<in> dictGetKey ` set (ht_table h ! (hashFunction type k AND DICTHT_SIZE_MASK (ht_size_exp h)))"
proof -
  obtain i x where i: "i < length (ht_table h)" "x \<in> set (ht_table h ! i)" "dictGetKey x = k"
    using assms(2) by (auto simp: ht_keys_def) (metis in_set_conv_nth)
  then have "hashFunction type k AND DICTHT_SIZE_MASK (ht_size_exp h) = i"
    using ht_ok_bucket [OF assms(1) i(1)] by (auto simp: bucket_ok_def)
  with i show ?thesis by blast
qed

lemma ht_keys_memb: "i < length (ht_table h) \<Longrightarrow> x \<in> set (ht_table h ! i) \<Longrightarrow> dictGetKey x \<in> ht_keys h"
  by (auto simp: ht_keys_def intro!: imageI dest: nth_mem)

text \<open>The result of a search among the keys \<open>K\<close>.\<close>

definition found :: "('k, 'v) dict \<Rightarrow> 'k \<Rightarrow> 'k set \<Rightarrow> (nat \<times> nat \<times> nat) option \<Rightarrow> bool" where
  "found d k K r \<longleftrightarrow> (case r of None \<Rightarrow> k \<notin> K
     | Some pos \<Rightarrow> k \<in> K \<and> (\<exists>x. entry_at d pos = Some x \<and> dictGetKey x = k))"

lemma found_simps [simp]:
  "found d k K None \<longleftrightarrow> k \<notin> K"
  "found d k K (Some pos) \<longleftrightarrow> k \<in> K \<and> (\<exists>x. entry_at d pos = Some x \<and> dictGetKey x = k)"
  by (simp_all add: found_def)

lemma find_in_table_spec:
  assumes h: "ht_ok (dict_type d) (dict_ht d t)" and e: "ht_size_exp (dict_ht d t) \<noteq> -1"
    and k: "hk = hashFunction (dict_type d) k"
  shows "\<exists>r. find_in_table d k hk t = Some r \<and> found d k (ht_keys (dict_ht d t)) r"
proof -
  let ?h = "dict_ht d t"
  define i where "i = hk AND DICTHT_SIZE_MASK (ht_size_exp ?h)"
  have il: "i < length (ht_table ?h)" using ht_ok_index [OF h e] by (simp add: i_def)
  have gb: "get_bucket ?h i = Some (ht_table ?h ! i)" using il by (simp add: get_bucket_def)
  have c: "chain_ok (dict_type d) (ht_table ?h ! i)"
    using ht_ok_bucket [OF h il] by (rule bucket_ok_chain)
  show ?thesis
  proof (cases "chain_find k (ht_table ?h ! i)")
    case None
    then have "k \<notin> ht_keys ?h"
      using chain_find_None [OF c] ht_keys_bucket [OF h, of k] k by (auto simp: i_def)
    then show ?thesis
      using None gb by (simp add: find_in_table_def Let_def flip: i_def)
  next
    case (Some p)
    then have p: "p < length (ht_table ?h ! i)" "dictGetKey (ht_table ?h ! i ! p) = k"
      using chain_find_Some [OF c] by auto
    then have "k \<in> ht_keys ?h" using ht_keys_memb [OF il nth_mem [OF p(1)]] by simp
    then show ?thesis
      using Some gb p by (simp add: find_in_table_def entry_at_def Let_def flip: i_def)
  qed
qed

text \<open>The index that the search compares with \<^verbatim>\<open>rehashidx\<close> may have been computed before the table
  changed; it is only used while it is still right.\<close>

lemma find_in_tables_spec:
  assumes d: "dict_ok d" and e: "ht_size_exp (ht0 d) \<noteq> -1"
    and k: "hk = hashFunction (dict_type d) k"
    and i: "int idx0 < rehashidx d \<Longrightarrow> idx0 = hk AND DICTHT_SIZE_MASK (ht_size_exp (ht0 d))"
  shows "\<exists>r. find_in_tables d k hk idx0 = Some r \<and> found d k (dict_keys d) r"
proof -
  note ok = dict_okD [OF d]
  have h0: "dict_ht d 0 = ht0 d" and h1: "dict_ht d 1 = ht1 d" by (simp_all add: dict_ht_def)
  have skip: "k \<notin> ht_keys (ht0 d)" if "int idx0 < rehashidx d"
  proof
    assume "k \<in> ht_keys (ht0 d)"
    then have "ht_table (ht0 d) ! idx0 \<noteq> []"
      using ht_keys_bucket [OF ok(1), of k] i [OF that] k by auto
    moreover have "dictIsRehashing d" using that by (auto simp: dictIsRehashing_def)
    ultimately show False using ok(4) that by auto
  qed
  obtain r0 where t0: "find_in_table d k hk 0 = Some r0" "found d k (ht_keys (ht0 d)) r0"
    using find_in_table_spec [of d 0 hk k] ok(1) e k unfolding h0 by blast
  show ?thesis
  proof (cases "dictIsRehashing d")
    case False
    then have "\<not> int idx0 < rehashidx d" "ht_keys (ht1 d) = {}"
      using ok(5) by (auto simp: ht_keys_def dictReset_def)
    then show ?thesis
      using t0 False by (cases r0) (simp_all add: find_in_tables_def dict_keys_eq)
  next
    case True
    then obtain r1 where t1: "find_in_table d k hk 1 = Some r1" "found d k (ht_keys (ht1 d)) r1"
      using find_in_table_spec [of d 1 hk k] ok(2,4) k unfolding h1 by blast
    show ?thesis
    proof (cases "int idx0 < rehashidx d")
      case skipped: True
      then show ?thesis
        using t1 skip by (cases r1) (simp_all add: find_in_tables_def dict_keys_eq)
    next
      case searched: False
      then show ?thesis
        using t0 t1 True by (cases r0; cases r1) (simp_all add: find_in_tables_def dict_keys_eq)
    qed
  qed
qed

subsection \<open>The abstract map\<close>

lemma distinct_count_le_1:
  assumes "\<forall>a. count (mset xs) a \<le> 1"
  shows "distinct xs"
proof -
  have "count (mset xs) a = (if a \<in> set xs then 1 else 0)" for a
    using assms [rule_format, of a] by (cases "a \<in> set xs") (auto simp: count_eq_zero_iff le_antisym)
  then show ?thesis by (simp only: distinct_count_atmost_1) simp
qed

lemma dict_map_Some:
  assumes "dict_ok d"
  shows "dict_map d k = Some v \<longleftrightarrow> (k, v) \<in># dict_kvs d"
proof -
  define xs where "xs = map kv (concat (ht_table (ht0 d)) @ concat (ht_table (ht1 d)))"
  have m: "mset xs = dict_kvs d" by (simp add: xs_def dict_kvs_def ht_kvs_def)
  have "\<forall>a. count (mset (map fst xs)) a \<le> 1"
    using dict_okD(3) [OF assms] m by (metis mset_map)
  then have "distinct (map fst xs)" by (rule distinct_count_le_1)
  then show ?thesis
    using m by (metis dict_map_def map_of_eq_Some_iff set_mset_mset xs_def)
qed

lemma dom_dict_map: "dict_ok d \<Longrightarrow> dom (dict_map d) = dict_keys d"
  by (force simp: dom_def dict_map_Some dict_keys_def)

lemma dict_map_cong:
  assumes "dict_ok d" and "dict_ok d'" and "dict_kvs d' = dict_kvs d"
  shows "dict_map d' = dict_map d"
proof
  fix k
  show "dict_map d' k = dict_map d k"
    using assms dict_map_Some by (metis (no_types) option.exhaust)
qed

lemma reorg_map: "dict_ok d \<Longrightarrow> reorg d d' \<Longrightarrow> dict_map d' = dict_map d"
  by (rule dict_map_cong) (auto simp: reorg_def)

lemma kvs_unique:
  assumes "dict_ok d" and "(k, v) \<in># dict_kvs d" and "(k, w) \<in># dict_kvs d"
  shows "v = w"
  using assms dict_map_Some by (metis option.inject)

lemma dict_map_update:
  assumes d: "dict_ok d" and d': "dict_ok d'"
    and "\<And>x. x \<in># dict_kvs d' \<longleftrightarrow> x = (k, v) \<or> x \<in># dict_kvs d \<and> fst x \<noteq> k"
  shows "dict_map d' = (dict_map d)(k \<mapsto> v)"
proof
  fix j
  show "dict_map d' j = ((dict_map d)(k \<mapsto> v)) j"
  proof (cases "j = k")
    case True
    then show ?thesis using assms dict_map_Some [OF d'] by simp
  next
    case False
    then have "dict_map d' j = dict_map d j"
      using assms dict_map_Some [OF d] dict_map_Some [OF d'] by (intro option_eqI) simp
    with False show ?thesis by simp
  qed
qed

lemma dict_map_delete:
  assumes d: "dict_ok d" and d': "dict_ok d'"
    and "\<And>x. x \<in># dict_kvs d' \<longleftrightarrow> x \<in># dict_kvs d \<and> fst x \<noteq> k"
  shows "dict_map d' = (dict_map d)(k := None)"
proof
  fix j
  show "dict_map d' j = ((dict_map d)(k := None)) j"
    using assms dict_map_Some [OF d] dict_map_Some [OF d'] by (intro option_eqI) simp
qed

lemma dictSize_kvs: "dict_ok d \<Longrightarrow> dictSize d = size (dict_kvs d)"
  using size_ht_kvs [OF dict_okD(1) [of d]] size_ht_kvs [OF dict_okD(2) [of d]]
  by (simp add: dictSize_def dict_kvs_def)

lemma dictSize_card:
  assumes "dict_ok d"
  shows "dictSize d = card (dom (dict_map d))"
proof -
  have "size (image_mset fst (dict_kvs d)) = card (set_mset (image_mset fst (dict_kvs d)))"
  proof -
    have "count (image_mset fst (dict_kvs d)) k = 1" if "k \<in># image_mset fst (dict_kvs d)" for k
      using dict_okD(3) [OF assms] that by (metis count_greater_eq_one_iff le_antisym)
    then show ?thesis by (simp add: size_multiset_overloaded_eq)
  qed
  then show ?thesis
    using assms by (simp add: dictSize_kvs dom_dict_map dict_keys_def)
qed

subsection \<open>Changing one bucket\<close>

lemma dict_set_bucket:
  assumes d: "dict_ok d" and i: "i < length (ht_table (dict_ht d t))"
    and c: "bucket_ok (dict_type d) (ht_size_exp (dict_ht d t)) i c"
    and u: "u + length (ht_table (dict_ht d t) ! i) = ht_used (dict_ht d t) + length c"
    and r: "t = 0 \<Longrightarrow> int i < rehashidx d \<Longrightarrow> c = []"
    and d': "d' = set_ht d t ((set_bucket (dict_ht d t) i c)\<lparr>ht_used := u\<rparr>)"
    and k: "\<forall>k. count (image_mset fst (dict_kvs d')) k \<le> 1"
  shows "dict_ok d'"
proof -
  note ok = dict_okD [OF d]
  have "ht_ok (dict_type d) (dict_ht d t)" using ok(1,2) by (simp add: dict_ht_def)
  note h = ht_ok_set_bucket [OF this i c u]
  have ne: "ht_table (dict_ht d t) \<noteq> []" using i by auto
  show ?thesis
  proof (cases "t = 0")
    case True
    then show ?thesis
      using d h(1) k i r
      by (auto simp: dict_ok_def d' set_ht_def dict_ht_def set_bucket_def nth_list_update nat_less_iff)
  next
    case False
    have "rehashidx d \<noteq> -1"
      using ne False ok(5) by (auto simp: dict_ht_def dictReset_def dictIsRehashing_def)
    then show ?thesis
      using False d h(1) k
      by (auto simp: dict_ok_def d' set_ht_def dict_ht_def set_bucket_def)
  qed
qed

lemma dict_set_bucket_kvs:
  assumes d: "dict_ok d" and i: "i < length (ht_table (dict_ht d t))"
    and d': "d' = set_ht d t ((set_bucket (dict_ht d t) i c)\<lparr>ht_used := u\<rparr>)"
  shows "dict_kvs d' + mset (map kv (ht_table (dict_ht d t) ! i)) = dict_kvs d + mset (map kv c)"
proof -
  have "image_mset kv (mset (concat ((ht_table (dict_ht d t))[i := c])) + mset (ht_table (dict_ht d t) ! i)) =
      image_mset kv (mset (concat (ht_table (dict_ht d t))) + mset c)"
    using concat_update(2) [OF i, of c] by simp
  then show ?thesis
    by (auto simp: d' dict_kvs_def set_ht_def dict_ht_def ht_kvs_def set_bucket_def split: if_splits)
qed

subsection \<open>Entries at a position\<close>

lemma entry_atD:
  assumes "dict_ok d" and "entry_at d (t, i, p) = Some x"
  shows "i < length (ht_table (dict_ht d t))" and "p < length (ht_table (dict_ht d t) ! i)"
    and "ht_table (dict_ht d t) ! i ! p = x"
    and "bucket_ok (dict_type d) (ht_size_exp (dict_ht d t)) i (ht_table (dict_ht d t) ! i)"
    and "t = 0 \<Longrightarrow> \<not> int i < rehashidx d" and "get_bucket (dict_ht d t) i = Some (ht_table (dict_ht d t) ! i)"
proof -
  have e: "i < length (ht_table (dict_ht d t)) \<and> p < length (ht_table (dict_ht d t) ! i) \<and>
      ht_table (dict_ht d t) ! i ! p = x"
    using assms(2) by (auto simp: entry_at_def get_bucket_def split: if_splits)
  then show "i < length (ht_table (dict_ht d t))" "p < length (ht_table (dict_ht d t) ! i)"
    "ht_table (dict_ht d t) ! i ! p = x" by auto
  then show "bucket_ok (dict_type d) (ht_size_exp (dict_ht d t)) i (ht_table (dict_ht d t) ! i)"
    using ht_ok_bucket dict_okD(1,2) [OF assms(1)] by (metis dict_ht_def)
  show "get_bucket (dict_ht d t) i = Some (ht_table (dict_ht d t) ! i)"
    using e by (simp add: get_bucket_def)
  show "\<not> int i < rehashidx d" if "t = 0"
  proof
    assume "int i < rehashidx d"
    then have "ht_table (ht0 d) ! i = []"
      using dict_okD(4) [OF assms(1)] by (auto simp: dictIsRehashing_def)
    with e that show False by (auto simp: dict_ht_def)
  qed
qed

lemma mset_update_nth: "p < length c \<Longrightarrow> add_mset (c ! p) (mset (c[p := y])) = add_mset y (mset c)"
  by (simp add: mset_update)

text \<open>Setting the value of an entry.\<close>

lemma dictSetVal_spec:
  assumes d: "dict_ok d" and e: "entry_at d pos = Some x" and v: "\<not> no_value (dict_type d)"
  shows "\<exists>d'. dictSetVal d pos v = Some d' \<and> dict_ok d' \<and>
     add_mset (kv x) (dict_kvs d') = add_mset (dictGetKey x, Some v) (dict_kvs d) \<and>
     dict_type d' = dict_type d \<and> pauserehash d' = pauserehash d \<and> pauseAutoResize d' = pauseAutoResize d"
proof -
  obtain t i p where pos: "pos = (t, i, p)" by (cases pos)
  note at = entry_atD [OF d e [unfolded pos]]
  let ?c = "ht_table (dict_ht d t) ! i"
  have "kind_ok (dict_type d) x"
    using chain_ok_nth [OF bucket_ok_chain [OF at(4)] at(2)] at(3) by simp
  then obtain y where y: "dictSetVal_entry x v = Some y" "kind_ok (dict_type d) y"
    "dictGetKey y = dictGetKey x" "kv y = (dictGetKey x, Some v)" "\<not> entryIsKey x" "\<not> entryIsKey y"
    using v by (cases x) (auto simp: kind_ok_def kv_def)
  define c where "c = ?c[p := y]"
  have c: "bucket_ok (dict_type d) (ht_size_exp (dict_ht d t)) i c"
    using at y chain_ok_update [of "dict_type d" ?c p y]
    by (auto simp: bucket_ok_def c_def dest!: set_update_subset_insert [THEN subsetD])
  let ?h = "dict_ht d t"
  define d' where "d' = set_ht d t ((set_bucket ?h i c)\<lparr>ht_used := ht_used ?h\<rparr>)"
  have m: "dict_kvs d' + mset (map kv ?c) = dict_kvs d + mset (map kv c)"
    by (rule dict_set_bucket_kvs [OF d at(1) d'_def])
  have upd: "add_mset (kv x) (mset (map kv c)) = add_mset (kv y) (mset (map kv ?c))"
    using mset_update_nth [OF at(2), of y] at(3) by (metis c_def image_mset_add_mset mset_map)
  have "add_mset (kv x) (dict_kvs d') + mset (map kv ?c) = add_mset (kv x) (dict_kvs d + mset (map kv c))"
    using m by simp
  also have "\<dots> = dict_kvs d + add_mset (kv x) (mset (map kv c))" by simp
  also have "\<dots> = add_mset (kv y) (dict_kvs d) + mset (map kv ?c)" unfolding upd by simp
  finally have "add_mset (kv x) (dict_kvs d') + mset (map kv ?c) = add_mset (kv y) (dict_kvs d) + mset (map kv ?c)" .
  then have kvs: "add_mset (kv x) (dict_kvs d') = add_mset (dictGetKey x, Some v) (dict_kvs d)"
    using y(4) by (simp only: add_right_cancel)
  then have "image_mset fst (add_mset (kv x) (dict_kvs d')) = image_mset fst (add_mset (dictGetKey x, Some v) (dict_kvs d))"
    by simp
  then have "image_mset fst (dict_kvs d') = image_mset fst (dict_kvs d)"
    by (simp add: kv_def)
  then have "dict_ok d'"
    using at(5) dict_okD(3) [OF d]
    by (intro dict_set_bucket [OF d at(1) c _ _ d'_def]) (auto simp: c_def)
  moreover have "dictSetVal d pos v = Some d'"
    using e at(6) y(1) by (simp add: dictSetVal_def pos d'_def c_def set_bucket_def)
  ultimately show ?thesis
    using kvs by (auto simp: d'_def set_ht_def)
qed

text \<open>Unlinking an entry.\<close>

lemma unlink_at_spec:
  assumes d: "dict_ok d" and e: "entry_at d pos = Some x"
  shows "\<exists>d'. unlink_at d pos = Some d' \<and> dict_ok d' \<and> add_mset (kv x) (dict_kvs d') = dict_kvs d \<and>
     ht_size_exp (ht0 d') = ht_size_exp (ht0 d) \<and> dict_type d' = dict_type d \<and> pauserehash d' = pauserehash d \<and> pauseAutoResize d' = pauseAutoResize d"
proof -
  obtain t i p where pos: "pos = (t, i, p)" by (cases pos)
  note at = entry_atD [OF d e [unfolded pos]]
  let ?h = "dict_ht d t"
  let ?c = "ht_table ?h ! i"
  define c where "c = take p ?c @ drop (Suc p) ?c"
  note co = bucket_ok_chain [OF at(4)]
  have split: "?c = take p ?c @ x # drop (Suc p) ?c"
    using at(2,3) id_take_nth_drop by metis
  have m: "mset (map kv ?c) = add_mset (kv x) (mset (map kv c))"
    by (subst split) (simp add: c_def)
  have c: "bucket_ok (dict_type d) (ht_size_exp ?h) i c"
    using at(4) chain_ok_remove [OF co, of p]
    by (auto simp: bucket_ok_def c_def dest: in_set_takeD in_set_dropD)
  have l: "length c = length ?c - 1" using at(2) by (simp add: c_def)
  have hk: "ht_ok (dict_type d) ?h" using dict_okD(1,2) [OF d] by (simp add: dict_ht_def)
  have used: "ht_used ?h \<noteq> 0" "length ?c \<le> ht_used ?h"
    using bucket_length_used [OF hk at(1)] at(2) by auto
  define d' where "d' = set_ht d t ((set_bucket ?h i c)\<lparr>ht_used := ht_used ?h - 1\<rparr>)"
  have "dict_kvs d' + mset (map kv ?c) = dict_kvs d + mset (map kv c)"
    by (rule dict_set_bucket_kvs [OF d at(1) d'_def])
  then have kvs: "add_mset (kv x) (dict_kvs d') = dict_kvs d"
    unfolding m by (simp flip: add_mset_add_single)
  have "\<forall>k. count (image_mset fst (dict_kvs d')) k \<le> 1"
  proof
    fix k
    have "count (image_mset fst (dict_kvs d')) k \<le> count (image_mset fst (dict_kvs d)) k"
      unfolding kvs [symmetric] by simp
    also have "\<dots> \<le> 1" using dict_okD(3) [OF d] by blast
    finally show "count (image_mset fst (dict_kvs d')) k \<le> 1" .
  qed
  then have "dict_ok d'"
    using at(2,5) used l
    by (intro dict_set_bucket [OF d at(1) c _ _ d'_def]) auto
  moreover have "unlink_at d pos = Some d'"
    using at(6) chain_unlink_ok [OF co at(2)] used
    by (simp add: unlink_at_def pos d'_def c_def set_bucket_def ulong_dec_def)
  ultimately show ?thesis
    using kvs by (auto simp: d'_def set_ht_def set_bucket_def dict_ht_def)
qed

subsection \<open>Lookup\<close>

text \<open>What stays fixed through every operation.\<close>

definition same_params :: "('k, 'v) dict \<Rightarrow> ('k, 'v) dict \<Rightarrow> bool" where
  "same_params d d' \<longleftrightarrow> dict_type d' = dict_type d \<and> pauserehash d' = pauserehash d \<and>
     pauseAutoResize d' = pauseAutoResize d"

lemma same_params_trans: "same_params a b \<Longrightarrow> same_params b c \<Longrightarrow> same_params a c"
  by (simp add: same_params_def)

lemma reorg_params: "reorg d d' \<Longrightarrow> same_params d d'"
  by (simp add: reorg_def same_params_def)

lemma reorg_keys: "reorg d d' \<Longrightarrow> dict_keys d' = dict_keys d"
  by (simp add: reorg_def dict_keys_def)

lemma search_spec:
  assumes d: "dict_ok d" and ne: "dictSize d \<noteq> 0"
  shows "\<exists>d' r. (do { d' \<leftarrow> rehash_for cr d (hashFunction (dict_type d) k);
      r \<leftarrow> find_in_tables d' k (hashFunction (dict_type d) k)
        (hashFunction (dict_type d) k AND DICTHT_SIZE_MASK (ht_size_exp (ht0 d)));
      Some (d', r) }) = Some (d', r) \<and> reorg d d' \<and> found d' k (dict_keys d) r"
proof -
  let ?h = "hashFunction (dict_type d) k"
  obtain d' where d': "rehash_for cr d ?h = Some d'" "lookup_step d d'"
    using rehash_for_spec [OF d] by blast
  then have ro: "reorg d d'" "dict_ok d'" "dict_type d' = dict_type d"
    by (auto simp: lookup_step_def reorg_def)
  have "size (dict_kvs d') \<noteq> 0" using ro(1) ne dictSize_kvs [OF d] by (simp add: reorg_def)
  then have e: "ht_size_exp (ht0 d') \<noteq> -1" using ht0_exists [OF ro(2)] by simp
  obtain r where r: "find_in_tables d' k ?h (?h AND DICTHT_SIZE_MASK (ht_size_exp (ht0 d))) = Some r"
    "found d' k (dict_keys d') r"
    using find_in_tables_spec [OF ro(2) e, of ?h k "?h AND DICTHT_SIZE_MASK (ht_size_exp (ht0 d))"]
      d'(2) ro(3) by (auto simp: lookup_step_def)
  show ?thesis
    using d'(1) r ro(1) reorg_keys [OF ro(1)] by simp
qed

lemma dictFind_spec:
  assumes d: "dict_ok d"
  shows "\<exists>d' r. dictFind cr d k = Some (d', r) \<and> reorg d d' \<and> found d' k (dict_keys d) r"
proof (cases "dictSize d = 0")
  case True
  then show ?thesis
    using d dictSize_kvs [OF d] by (auto simp: dictFind_def reorg_refl dict_keys_def)
next
  case False
  then show ?thesis
    using search_spec [OF d False, of cr k] by (simp add: dictFind_def Let_def)
qed

lemma entry_at_kvs: "dict_ok d \<Longrightarrow> entry_at d pos = Some x \<Longrightarrow> kv x \<in># dict_kvs d"
proof -
  assume d: "dict_ok d" and e: "entry_at d pos = Some x"
  then have "add_mset (kv x) (dict_kvs (the (unlink_at d pos))) = dict_kvs d"
    using unlink_at_spec [OF d e] by auto
  then show ?thesis by (metis union_single_eq_member)
qed

lemma entry_at_map: "dict_ok d \<Longrightarrow> entry_at d pos = Some x \<Longrightarrow> dict_map d (dictGetKey x) = Some (entry_val x)"
  using entry_at_kvs dict_map_Some by (metis kv_def)

lemma entry_at_kind: "dict_ok d \<Longrightarrow> entry_at d pos = Some x \<Longrightarrow> kind_ok (dict_type d) x"
  using entry_atD(2-4) chain_ok_nth bucket_ok_chain by (metis prod_cases3)

subsection \<open>Insertion\<close>

text \<open>Insertion needs a table, or the permission to create it.\<close>

definition dict_ready :: "('k, 'v) dict \<Rightarrow> bool" where
  "dict_ready d \<longleftrightarrow> pauseAutoResize d \<le> 0 \<or> ht_size_exp (ht0 d) \<noteq> -1"

definition insert_ht :: "('k, 'v) dict \<Rightarrow> nat" where
  "insert_ht d = (if dictIsRehashing d then 1 else 0)"

lemma position_spec:
  assumes d: "dict_ok d" and rdy: "dict_ready d"
  shows "\<exists>d' r. dictFindPositionForInsert cr d k = Some (d', r) \<and> reorg d d' \<and> ht_size_exp (ht0 d') \<noteq> -1 \<and>
     (case r of Inl pos \<Rightarrow> k \<in> dict_keys d \<and> (\<exists>x. entry_at d' pos = Some x \<and> dictGetKey x = k)
      | Inr i \<Rightarrow> k \<notin> dict_keys d \<and>
          i = hashFunction (dict_type d) k AND DICTHT_SIZE_MASK (ht_size_exp (dict_ht d' (insert_ht d'))))"
proof -
  let ?h = "hashFunction (dict_type d) k"
  let ?i = "?h AND DICTHT_SIZE_MASK (ht_size_exp (ht0 d))"
  obtain d1 where d1: "rehash_for cr d ?h = Some d1" "lookup_step d d1"
    using rehash_for_spec [OF d] by blast
  then have r1: "reorg d d1" "dict_ok d1" by (auto simp: lookup_step_def reorg_def)
  have rdy1: "pauseAutoResize d1 \<le> 0 \<or> ht_size_exp (ht0 d1) \<noteq> -1"
    using rdy r1(1) by (auto simp: dict_ready_def reorg_def)
  obtain d2 where d2: "dictExpandIfAutoResizeAllowed cr d1 = Some d2" "resize_step d1 d2"
    "ht_size_exp (ht0 d2) \<noteq> -1"
    using expand_auto_spec [OF r1(2), of cr] rdy1 by auto
  have r2: "reorg d d2" "dict_ok d2" "dict_type d2 = dict_type d"
    using reorg_trans [OF r1(1)] d2(2) by (auto simp: resize_step_def reorg_def)
  have i: "?i = ?h AND DICTHT_SIZE_MASK (ht_size_exp (ht0 d2))" if "int ?i < rehashidx d2"
    using that d1(2) d2(2) by (auto simp: lookup_step_def resize_step_def)
  obtain r where r: "find_in_tables d2 k ?h ?i = Some r" "found d2 k (dict_keys d2) r"
    using find_in_tables_spec [OF r2(2) d2(3), of ?h k ?i] r2(3) i by auto
  show ?thesis
    using d1(1) d2(1,3) r r2(1) reorg_keys [OF r2(1)]
    by (cases r) (auto simp: dictFindPositionForInsert_def Let_def insert_ht_def)
qed

lemma newEntry_ok:
  "kind_ok type (newEntry type k b)" "entryIsKey (newEntry type k b) \<Longrightarrow> b = []"
  "kv (newEntry type k b) = (k, None)" "dictGetKey (newEntry type k b) = k"
  by (auto simp: newEntry_def kind_ok_def kv_def split: if_splits)

lemma insert_spec:
  assumes d: "dict_ok d" and e: "ht_size_exp (ht0 d) \<noteq> -1" and k: "k \<notin> dict_keys d"
    and i: "i = hashFunction (dict_type d) k AND DICTHT_SIZE_MASK (ht_size_exp (dict_ht d (insert_ht d)))"
  shows "\<exists>d' pos x. dictInsertAtPosition d k i = Some (d', pos) \<and> dict_ok d' \<and>
     dict_kvs d' = add_mset (k, None) (dict_kvs d) \<and> same_params d d' \<and>
     entry_at d' pos = Some x \<and> kv x = (k, None)"
proof -
  define t where "t = insert_ht d"
  define h where "h = dict_ht d t"
  note ok = dict_okD [OF d]
  have h: "ht_ok (dict_type d) h" "ht_size_exp h \<noteq> -1"
    using ok(1,2) ok(4) e by (auto simp: h_def t_def insert_ht_def dict_ht_def)
  have il: "i < length (ht_table h)" using ht_ok_index [OF h] i by (simp add: h_def t_def)
  define b where "b = ht_table h ! i"
  define x where "x = newEntry (dict_type d) k b"
  define d' where "d' = set_ht d t ((set_bucket h i (x # b))\<lparr>ht_used := ht_used h + 1\<rparr>)"
  have "dict_kvs d' + mset (map kv b) = dict_kvs d + mset (map kv (x # b))"
    unfolding b_def h_def by (rule dict_set_bucket_kvs [OF d]) (use il in \<open>simp_all add: h_def b_def d'_def\<close>)
  then have kvs: "dict_kvs d' = add_mset (k, None) (dict_kvs d)"
    by (simp add: x_def newEntry_ok(3))
  have "bucket_ok (dict_type d) (ht_size_exp h) i (x # b)"
    using ht_ok_bucket [OF h(1) il] i
    by (auto simp: newEntry_ok bucket_ok_def b_def x_def h_def t_def dest: newEntry_ok(2))
  moreover have "\<forall>j. count (image_mset fst (dict_kvs d')) j \<le> 1"
    using ok(3) k unfolding kvs by (auto simp: dict_keys_def not_in_iff [symmetric])
  moreover have "\<not> int i < rehashidx d" if "t = 0"
    using that ok(5) by (auto simp: t_def insert_ht_def split: if_splits)
  ultimately have "dict_ok d'"
    using il by (intro dict_set_bucket [OF d, of i t "x # b" "ht_used h + 1"]) (auto simp: h_def b_def d'_def)
  moreover have "i \<le> DICTHT_SIZE_MASK (ht_size_exp h)"
    using il ht_ok_length [OF h(1)] h(2) by (simp add: DICTHT_SIZE_MASK_def)
  then have "dictInsertAtPosition d k i = Some (d', (t, i, 0))"
    using il by (simp add: dictInsertAtPosition_def Let_def get_bucket_def d'_def h_def t_def insert_ht_def
        b_def x_def set_bucket_def)
  moreover have "entry_at d' (t, i, 0) = Some x"
    using il by (auto simp: entry_at_def d'_def set_ht_def dict_ht_def get_bucket_def set_bucket_def h_def)
  ultimately show ?thesis
    using kvs by (auto simp: newEntry_ok(3) x_def same_params_def d'_def set_ht_def)
qed

lemma dictAddRaw_spec:
  assumes d: "dict_ok d" and rdy: "dict_ready d"
  shows "\<exists>d' r x. dictAddRaw cr d k = Some (d', r) \<and> dict_ok d' \<and> same_params d d' \<and>
     ht_size_exp (ht0 d') \<noteq> -1 \<and>
     (if k \<in> dict_keys d then \<exists>pos. r = Inl pos \<and> dict_kvs d' = dict_kvs d \<and>
        entry_at d' pos = Some x \<and> dictGetKey x = k
      else \<exists>pos. r = Inr pos \<and> dict_kvs d' = add_mset (k, None) (dict_kvs d) \<and>
        entry_at d' pos = Some x \<and> kv x = (k, None))"
proof -
  obtain d1 r where p: "dictFindPositionForInsert cr d k = Some (d1, r)" "reorg d d1" "ht_size_exp (ht0 d1) \<noteq> -1"
    and r: "case r of Inl pos \<Rightarrow> k \<in> dict_keys d \<and> (\<exists>x. entry_at d1 pos = Some x \<and> dictGetKey x = k)
      | Inr i \<Rightarrow> k \<notin> dict_keys d \<and>
          i = hashFunction (dict_type d) k AND DICTHT_SIZE_MASK (ht_size_exp (dict_ht d1 (insert_ht d1)))"
    using position_spec [OF d rdy, of cr k] by blast
  have d1: "dict_ok d1" "dict_kvs d1 = dict_kvs d" "dict_type d1 = dict_type d" "dict_keys d1 = dict_keys d"
    using p(2) reorg_keys [OF p(2)] by (auto simp: reorg_def)
  show ?thesis
  proof (cases r)
    case (Inl pos)
    then show ?thesis
      using p r d1 reorg_params [OF p(2)] by (cases pos) (auto simp: dictAddRaw_def)
  next
    case (Inr i)
    then have k: "k \<notin> dict_keys d1" "i = hashFunction (dict_type d1) k AND
        DICTHT_SIZE_MASK (ht_size_exp (dict_ht d1 (insert_ht d1)))"
      using r d1 by auto
    obtain d2 pos x where d2: "dictInsertAtPosition d1 k i = Some (d2, pos)" "dict_ok d2"
      "dict_kvs d2 = add_mset (k, None) (dict_kvs d1)" "same_params d1 d2"
      "entry_at d2 pos = Some x" "kv x = (k, None)"
      using insert_spec [OF d1(1) p(3) k] by blast
    then have "ht_size_exp (ht0 d2) \<noteq> -1"
      using ht0_exists [OF d2(2)] by simp
    then show ?thesis
      using Inr p(1) d2 d1 k(1) same_params_trans [OF reorg_params [OF p(2)] d2(4)]
      by (cases pos) (auto simp: dictAddRaw_def)
  qed
qed

text \<open>Inserting a key that was absent, and changing the value of a key, on the abstract map.\<close>

lemma map_insert:
  assumes "dict_ok d" and "dict_ok d'" and "k \<notin> dict_keys d" and "dict_kvs d' = add_mset (k, v) (dict_kvs d)"
  shows "dict_map d' = (dict_map d)(k \<mapsto> v)"
  using assms by (intro dict_map_update) (auto simp: dict_keys_def image_iff)

lemma kvs_rest:
  assumes "dict_ok d" and "dict_kvs d = add_mset (k, u) N"
  shows "k \<notin> fst ` set_mset N"
proof
  assume "k \<in> fst ` set_mset N"
  then have "k \<in># image_mset fst N" by simp
  then have "1 \<le> count (image_mset fst N) k" by simp
  then have "2 \<le> count (image_mset fst (dict_kvs d)) k" by (simp add: assms(2))
  moreover have "count (image_mset fst (dict_kvs d)) k \<le> 1" using dict_okD(3) [OF assms(1)] by blast
  ultimately show False by simp
qed

lemma map_setval:
  assumes d: "dict_ok d" and d': "dict_ok d'" and a: "add_mset (k, u) (dict_kvs d') = add_mset (k, v) (dict_kvs d)"
    and u: "(k, u) \<in># dict_kvs d"
  shows "dict_map d' = (dict_map d)(k \<mapsto> v)"
proof -
  obtain N where N: "dict_kvs d = add_mset (k, u) N" using u by (metis insert_DiffM)
  then have "add_mset (k, u) (dict_kvs d') = add_mset (k, u) (add_mset (k, v) N)"
    using a by (simp add: add_mset_commute)
  then have "dict_kvs d' = add_mset (k, v) N" by simp
  then show ?thesis
    using kvs_rest [OF d N] N by (intro dict_map_update [OF d d']) (auto simp: image_iff)
qed

lemma map_remove:
  assumes d: "dict_ok d" and d': "dict_ok d'" and a: "add_mset (k, u) (dict_kvs d') = dict_kvs d"
  shows "dict_map d' = (dict_map d)(k := None)"
  using kvs_rest [OF d a [symmetric]] a [symmetric]
  by (intro dict_map_delete [OF d d']) (auto simp: image_iff)

lemma entry_kv: "dictGetKey x = k \<Longrightarrow> kv x = (k, entry_val x)"
  by (auto simp: kv_def)

subsection \<open>The operations on the abstract map\<close>

text \<open>The value that a dict of a given type stores for \<^verbatim>\<open>val\<close>.\<close>

definition stored :: "'k dictType \<Rightarrow> 'v \<Rightarrow> 'v option" where
  "stored type v = (if no_value type then None else Some v)"

lemma readyI: "ht_size_exp (ht0 d) \<noteq> -1 \<Longrightarrow> dict_ready d"
  by (simp add: dict_ready_def)

lemma dictFetchValue_spec:
  assumes d: "dict_ok d" and v: "\<not> no_value (dict_type d)"
  shows "\<exists>d'. dictFetchValue cr d k = Some (d', dict_map d k) \<and> reorg d d'"
proof -
  obtain d' r where f: "dictFind cr d k = Some (d', r)" "reorg d d'" "found d' k (dict_keys d) r"
    using dictFind_spec [OF d] by blast
  have d': "dict_ok d'" "dict_map d' = dict_map d" "dict_type d' = dict_type d"
    using f(2) reorg_map [OF d f(2)] by (auto simp: reorg_def)
  show ?thesis
  proof (cases r)
    case None
    then show ?thesis
      using f dom_dict_map [OF d] domIff [of k "dict_map d"] by (auto simp: dictFetchValue_def)
  next
    case (Some pos)
    then obtain x where x: "entry_at d' pos = Some x" "dictGetKey x = k" using f(3) by auto
    then have "dict_map d k = Some (entry_val x)" using entry_at_map [OF d'(1) x(1)] d'(2) by simp
    moreover have "dictGetVal x = Some (entry_val x)"
      using entry_at_kind [OF d'(1) x(1)] v d'(3) by (cases x) (auto simp: kind_ok_def)
    ultimately show ?thesis
      using Some f x by (auto simp: dictFetchValue_def)
  qed
qed

lemma dictAdd_spec:
  assumes d: "dict_ok d" and rdy: "dict_ready d"
  shows "\<exists>d'. dictAdd cr d k v = Some (d', k \<notin> dom (dict_map d)) \<and> dict_ok d' \<and> dict_ready d' \<and>
     same_params d d' \<and>
     dict_map d' = (if k \<in> dom (dict_map d) then dict_map d else (dict_map d)(k \<mapsto> stored (dict_type d) v))"
proof -
  obtain d1 r x where a: "dictAddRaw cr d k = Some (d1, r)" "dict_ok d1" "same_params d d1"
      "ht_size_exp (ht0 d1) \<noteq> -1"
    and r: "if k \<in> dict_keys d then \<exists>pos. r = Inl pos \<and> dict_kvs d1 = dict_kvs d \<and>
        entry_at d1 pos = Some x \<and> dictGetKey x = k
      else \<exists>pos. r = Inr pos \<and> dict_kvs d1 = add_mset (k, None) (dict_kvs d) \<and>
        entry_at d1 pos = Some x \<and> kv x = (k, None)"
    using dictAddRaw_spec [OF d rdy, of cr k] by blast
  show ?thesis
  proof (cases "k \<in> dict_keys d")
    case True
    then have "dict_map d1 = dict_map d" using dict_map_cong [OF d a(2)] r by auto
    then show ?thesis
      using True a r dom_dict_map [OF d] readyI [OF a(4)] by (auto simp: dictAdd_def)
  next
    case False
    then obtain pos where pos: "r = Inr pos" "dict_kvs d1 = add_mset (k, None) (dict_kvs d)"
      "entry_at d1 pos = Some x" "kv x = (k, None)"
      using r by auto
    have m1: "dict_map d1 = (dict_map d)(k \<mapsto> None)" by (rule map_insert [OF d a(2) False pos(2)])
    have t: "dict_type d1 = dict_type d" using a(3) by (simp add: same_params_def)
    show ?thesis
    proof (cases "no_value (dict_type d)")
      case True
      then show ?thesis
        using False a pos(1) m1 t dom_dict_map [OF d] readyI [OF a(4)]
        by (auto simp: dictAdd_def stored_def)
    next
      case nv: False
      obtain d2 where d2: "dictSetVal d1 pos v = Some d2" "dict_ok d2"
        "add_mset (kv x) (dict_kvs d2) = add_mset (dictGetKey x, Some v) (dict_kvs d1)"
        "same_params d1 d2"
        using dictSetVal_spec [OF a(2) pos(3), of v] nv t by (auto simp: same_params_def)
      have "dictGetKey x = k" using pos(4) by (simp add: kv_def)
      then have "dict_map d2 = (dict_map d1)(k \<mapsto> Some v)"
        using d2(3) pos(2,4) by (intro map_setval [OF a(2) d2(2), of k None]) auto
      moreover have "ht_size_exp (ht0 d2) \<noteq> -1"
        using ht0_exists [OF d2(2)] d2(3) pos(2) by (metis size_add_mset nat.distinct(1) old.nat.inject)
      ultimately show ?thesis
        using False nv a(1) pos(1) t d2 m1 dom_dict_map [OF d] readyI same_params_trans [OF a(3) d2(4)]
        by (auto simp: dictAdd_def stored_def)
    qed
  qed
qed

lemma setval_map:
  assumes d: "dict_ok d" and v: "\<not> no_value (dict_type d)" and x: "entry_at d pos = Some x" "dictGetKey x = k"
  shows "\<exists>d'. dictSetVal d pos v = Some d' \<and> dict_ok d' \<and> dict_ready d' \<and> same_params d d' \<and>
     dict_map d' = (dict_map d)(k \<mapsto> Some v)"
proof -
  obtain d2 where d2: "dictSetVal d pos v = Some d2" "dict_ok d2"
    "add_mset (kv x) (dict_kvs d2) = add_mset (dictGetKey x, Some v) (dict_kvs d)" "same_params d d2"
    using dictSetVal_spec [OF d x(1) v] by (auto simp: same_params_def)
  have m: "kv x \<in># dict_kvs d" by (rule entry_at_kvs [OF d x(1)])
  have "dict_map d2 = (dict_map d)(k \<mapsto> Some v)"
    using d2(3) m x(2) entry_kv [OF x(2)] by (intro map_setval [OF d d2(2), of k "entry_val x"]) auto
  moreover have "size (dict_kvs d2) = size (dict_kvs d)"
    using d2(3) by (metis old.nat.inject size_add_mset)
  then have "size (dict_kvs d2) \<noteq> 0" using m by auto
  then have "ht_size_exp (ht0 d2) \<noteq> -1"
    by (intro ht0_exists [OF d2(2)]) simp
  ultimately show ?thesis using d2 readyI by blast
qed

lemma dictReplace_spec:
  assumes d: "dict_ok d" and rdy: "dict_ready d" and v: "\<not> no_value (dict_type d)"
  shows "\<exists>d'. dictReplace cr d k v = Some (d', k \<notin> dom (dict_map d)) \<and> dict_ok d' \<and> dict_ready d' \<and>
     same_params d d' \<and> dict_map d' = (dict_map d)(k \<mapsto> Some v)"
proof -
  obtain d1 r x where a: "dictAddRaw cr d k = Some (d1, r)" "dict_ok d1" "same_params d d1"
    and r: "if k \<in> dict_keys d then \<exists>pos. r = Inl pos \<and> dict_kvs d1 = dict_kvs d \<and>
        entry_at d1 pos = Some x \<and> dictGetKey x = k
      else \<exists>pos. r = Inr pos \<and> dict_kvs d1 = add_mset (k, None) (dict_kvs d) \<and>
        entry_at d1 pos = Some x \<and> kv x = (k, None)"
    using dictAddRaw_spec [OF d rdy, of cr k] by blast
  have v1: "\<not> no_value (dict_type d1)" using a(3) v by (simp add: same_params_def)
  obtain pos where pos: "r = (if k \<in> dict_keys d then Inl pos else Inr pos)"
    "entry_at d1 pos = Some x" "dictGetKey x = k"
    using r by (auto simp: kv_def split: if_splits)
  obtain d2 where d2: "dictSetVal d1 pos v = Some d2" "dict_ok d2" "dict_ready d2" "same_params d1 d2"
    "dict_map d2 = (dict_map d1)(k \<mapsto> Some v)"
    using setval_map [OF a(2) v1 pos(2,3)] by blast
  have gv: "\<exists>y. dictGetVal x = Some y"
    using entry_at_kind [OF a(2) pos(2)] v1 by (cases x) (auto simp: kind_ok_def)
  have "dict_map d2 = (dict_map d)(k \<mapsto> Some v)"
    using d2(5) r dict_map_cong [OF d a(2)] map_insert [OF d a(2), of k None]
    by (auto split: if_splits)
  then show ?thesis
    using a(1) pos d2 gv dom_dict_map [OF d] same_params_trans [OF a(3) d2(4)]
    by (auto simp: dictReplace_def)
qed

lemma dictAddOrFind_spec:
  assumes d: "dict_ok d" and rdy: "dict_ready d"
  shows "\<exists>d' pos x. dictAddOrFind cr d k = Some (d', pos) \<and> dict_ok d' \<and> dict_ready d' \<and>
     entry_at d' pos = Some x \<and> dictGetKey x = k \<and>
     dict_map d' = (if k \<in> dom (dict_map d) then dict_map d else (dict_map d)(k \<mapsto> None))"
proof -
  obtain d1 r x where a: "dictAddRaw cr d k = Some (d1, r)" "dict_ok d1" "ht_size_exp (ht0 d1) \<noteq> -1"
    and r: "if k \<in> dict_keys d then \<exists>pos. r = Inl pos \<and> dict_kvs d1 = dict_kvs d \<and>
        entry_at d1 pos = Some x \<and> dictGetKey x = k
      else \<exists>pos. r = Inr pos \<and> dict_kvs d1 = add_mset (k, None) (dict_kvs d) \<and>
        entry_at d1 pos = Some x \<and> kv x = (k, None)"
    using dictAddRaw_spec [OF d rdy, of cr k] by blast
  obtain pos where pos: "r = (if k \<in> dict_keys d then Inl pos else Inr pos)"
    "entry_at d1 pos = Some x" "dictGetKey x = k"
    using r by (auto simp: kv_def split: if_splits)
  have "dict_map d1 = (if k \<in> dict_keys d then dict_map d else (dict_map d)(k \<mapsto> None))"
    using r dict_map_cong [OF d a(2)] map_insert [OF d a(2), of k None] by (auto split: if_splits)
  moreover have "dictAddOrFind cr d k = Some (d1, pos)"
    using a(1) pos(1) by (simp add: dictAddOrFind_def)
  ultimately show ?thesis
    using a pos(2,3) readyI [OF a(3)] dom_dict_map [OF d] by auto
qed

lemma dictGenericDelete_spec:
  assumes d: "dict_ok d"
  shows "\<exists>d' r. dictGenericDelete cr d k = Some (d', r) \<and> dict_ok d' \<and> same_params d d' \<and>
     (ht_size_exp (ht0 d) \<noteq> -1 \<longrightarrow> ht_size_exp (ht0 d') \<noteq> -1) \<and>
     dict_map d' = (dict_map d)(k := None) \<and>
     map_option kv r = map_option (Pair k) (dict_map d k)"
proof (cases "dictSize d = 0")
  case True
  then have "dict_map d = Map.empty"
    using d dictSize_kvs [OF d] dict_map_Some [OF d] by (intro ext option_eqI) simp
  then show ?thesis
    using True d by (auto simp: dictGenericDelete_def same_params_def)
next
  case False
  obtain d1 r where s: "(do { d' \<leftarrow> rehash_for cr d (hashFunction (dict_type d) k);
      r \<leftarrow> find_in_tables d' k (hashFunction (dict_type d) k)
        (hashFunction (dict_type d) k AND DICTHT_SIZE_MASK (ht_size_exp (ht0 d)));
      Some (d', r) }) = Some (d1, r)" "reorg d d1" "found d1 k (dict_keys d) r"
    using search_spec [OF d False] by blast
  have d1: "dict_ok d1" "dict_map d1 = dict_map d" "same_params d d1"
    "ht_size_exp (ht0 d) \<noteq> -1 \<longrightarrow> ht_size_exp (ht0 d1) \<noteq> -1"
    using s(2) reorg_map [OF d s(2)] reorg_params [OF s(2)] by (auto simp: reorg_def)
  have sf: "\<exists>d0. rehash_for cr d (hashFunction (dict_type d) k) = Some d0 \<and> d0 = d1 \<and>
      find_in_tables d1 k (hashFunction (dict_type d) k)
        (hashFunction (dict_type d) k AND DICTHT_SIZE_MASK (ht_size_exp (ht0 d))) = Some r"
    using s(1) by (auto simp: bind_eq_Some_conv)
  show ?thesis
  proof (cases r)
    case None
    then have n: "dict_map d k = None" using s(3) dom_dict_map [OF d] by auto
    then have "dict_map d = (dict_map d)(k := None)" by auto
    then show ?thesis
      using None False sf d1 n by (auto simp: dictGenericDelete_def Let_def)
  next
    case (Some pos)
    then obtain x where x: "entry_at d1 pos = Some x" "dictGetKey x = k" using s(3) by auto
    obtain d2 where d2: "unlink_at d1 pos = Some d2" "dict_ok d2"
      "add_mset (kv x) (dict_kvs d2) = dict_kvs d1" "same_params d1 d2"
      "ht_size_exp (ht0 d2) = ht_size_exp (ht0 d1)"
      using unlink_at_spec [OF d1(1) x(1)] by (auto simp: same_params_def)
    obtain d3 where d3: "dictShrinkIfAutoResizeAllowed cr d2 = Some d3" "reorg d2 d3"
      using shrink_auto_spec [OF d2(2), of cr] by (auto simp: resize_step_def)
    have "dict_map d2 = (dict_map d1)(k := None)"
      using d2(3) entry_kv [OF x(2)] map_remove [OF d1(1) d2(2)] by metis
    then have "dict_map d3 = (dict_map d)(k := None)"
      using reorg_map [OF d2(2) d3(2)] d1(2) by simp
    moreover have "dict_map d k = Some (entry_val x)"
      using entry_at_map [OF d1(1) x(1)] x(2) d1(2) by simp
    moreover have "same_params d d3"
      using same_params_trans d1(3) d2(4) reorg_params [OF d3(2)] by blast
    ultimately show ?thesis
      using Some False sf d1(4) x d2(1,5) d3 entry_kv [OF x(2)]
      by (auto simp: dictGenericDelete_def Let_def reorg_def)
  qed
qed

end
