(* ===== verification/Dict_Spec.thy ===== *)
theory Dict_Spec
  imports Dict_Ops
begin

text \<open>
  What a dict promises its callers: the operations, in any order and interleaved with any amount of
  rehashing and resizing under any resize policy, are those of a finite map. The
  two-phase deletion is the deletion of the map with rehashing paused in between.
\<close>

subsection \<open>Deletion in one and in two phases\<close>

lemma dictDelete_spec:
  assumes "dict_ok d" and "dict_ready d"
  shows "\<exists>d'. dictDelete cr d k = Some (d', k \<in> dom (dict_map d)) \<and> dict_ok d' \<and> dict_ready d' \<and>
     same_params d d' \<and> dict_map d' = (dict_map d)(k := None)"
proof -
  obtain d' r where "dictGenericDelete cr d k = Some (d', r)" "dict_ok d'" "same_params d d'"
    "ht_size_exp (ht0 d) \<noteq> -1 \<longrightarrow> ht_size_exp (ht0 d') \<noteq> -1"
    "dict_map d' = (dict_map d)(k := None)" "map_option kv r = map_option (Pair k) (dict_map d k)"
    using dictGenericDelete_spec [OF assms(1)] by blast
  moreover from this(6) have "(r \<noteq> None) = (k \<in> dom (dict_map d))"
    by (metis domIff option.map_disc_iff)
  ultimately show ?thesis
    using assms(2) by (auto simp: dictDelete_def dict_ready_def same_params_def)
qed

lemma dict_kvs_pause [simp]: "dict_kvs (d\<lparr>pauserehash := p\<rparr>) = dict_kvs d"
  by (simp add: dict_kvs_def)

lemma dict_map_pause [simp]: "dict_map (d\<lparr>pauserehash := p\<rparr>) = dict_map d"
  by (simp add: dict_map_def)

lemma dict_ok_pause [simp]: "dict_ok (d\<lparr>pauserehash := p\<rparr>) = dict_ok d"
  by (simp add: dict_ok_def)

lemma entry_at_pause [simp]: "entry_at (d\<lparr>pauserehash := p\<rparr>) pos = entry_at d pos"
  by (simp add: entry_at_def dict_ht_def split: prod.splits)

lemma twoPhaseFind_spec:
  assumes d: "dict_ok d"
  shows "\<exists>d' r. dictTwoPhaseUnlinkFind cr d k = Some (d', r) \<and> dict_ok d' \<and> dict_map d' = dict_map d \<and>
     pauserehash d' = pauserehash d + (if r = None then 0 else 1) \<and>
     found d' k (dict_keys d) r \<and> dict_type d' = dict_type d \<and> (dict_ready d \<longrightarrow> dict_ready d')"
proof (cases "dictSize d = 0")
  case True
  then show ?thesis
    using d dictSize_kvs [OF d] by (auto simp: dictTwoPhaseUnlinkFind_def dict_keys_def)
next
  case False
  obtain d1 where d1: "(if dictIsRehashing d then dictRehashStep cr d else Some d) = Some d1" "reorg d d1"
    using dictRehashStep_spec [OF d, of cr] reorg_refl [OF d] by (cases "dictIsRehashing d") (auto simp: lookup_step_def)
  then have ok: "dict_ok d1" "dict_type d1 = dict_type d" "dict_keys d1 = dict_keys d"
    using reorg_keys by (auto simp: reorg_def)
  have e: "ht_size_exp (ht0 d1) \<noteq> -1"
    using False d d1(2) dictSize_kvs [OF d] by (intro ht0_exists [OF ok(1)]) (auto simp: reorg_def)
  obtain r where r: "find_in_tables d1 k (hashFunction (dict_type d) k)
      (hashFunction (dict_type d) k AND DICTHT_SIZE_MASK (ht_size_exp (ht0 d1))) = Some r"
    "found d1 k (dict_keys d) r"
    using find_in_tables_spec [OF ok(1) e refl] ok by metis
  show ?thesis
    using False d1 r ok reorg_map [OF d d1(2)]
    by (cases r) (auto simp: dictTwoPhaseUnlinkFind_def Let_def reorg_def dict_ready_def)
qed

lemma twoPhaseFree_spec:
  assumes d: "dict_ok d" and x: "entry_at d pos = Some x"
  shows "\<exists>d'. dictTwoPhaseUnlinkFree cr d (Some pos) = Some d' \<and> dict_ok d' \<and>
     pauserehash d' = pauserehash d - 1 \<and> dict_map d' = (dict_map d)(dictGetKey x := None) \<and>
     dict_type d' = dict_type d \<and> (dict_ready d \<longrightarrow> dict_ready d')"
proof -
  obtain d2 where d2: "unlink_at d pos = Some d2" "dict_ok d2" "add_mset (kv x) (dict_kvs d2) = dict_kvs d"
    "pauserehash d2 = pauserehash d" "dict_type d2 = dict_type d" "dict_ready d2 = dict_ready d"
    using unlink_at_spec [OF d x] by (auto simp: dict_ready_def)
  obtain d3 where d3: "dictShrinkIfAutoResizeAllowed cr d2 = Some d3" "reorg d2 d3"
    using shrink_auto_spec [OF d2(2), of cr] by (auto simp: resize_step_def)
  have "dict_map d2 = (dict_map d)(dictGetKey x := None)"
    using d2(3) entry_kv [OF refl] map_remove [OF d d2(2)] by metis
  then show ?thesis
    using d2 d3 reorg_map [OF d2(2) d3(2)] by (auto simp: dictTwoPhaseUnlinkFree_def reorg_def dict_ready_def)
qed

subsection \<open>The dict as a finite map\<close>

datatype ('k, 'v) dict_op =
    OpAdd 'k 'v | OpReplace 'k 'v | OpDelete 'k | OpFetch 'k
  | OpRehash nat | OpExpand nat | OpShrink nat

datatype 'v dict_res = ResBool bool | ResVal "'v option option" | ResVoid

text \<open>An operation is run under the resize policy of its moment.\<close>

fun dict_step :: "dictResizeEnable \<times> ('k, 'v) dict_op \<Rightarrow> ('k, 'v) dict \<Rightarrow> (('k, 'v) dict \<times> 'v dict_res) option" where
  "dict_step (cr, OpAdd k v) d = map_option (apsnd ResBool) (dictAdd cr d k v)"
| "dict_step (cr, OpReplace k v) d = map_option (apsnd ResBool) (dictReplace cr d k v)"
| "dict_step (cr, OpDelete k) d = map_option (apsnd ResBool) (dictDelete cr d k)"
| "dict_step (cr, OpFetch k) d = map_option (apsnd ResVal) (dictFetchValue cr d k)"
| "dict_step (cr, OpRehash n) d = map_option (apsnd (\<lambda>_. ResVoid)) (dictRehash cr d (Suc n))"
| "dict_step (cr, OpExpand n) d = map_option (apsnd (\<lambda>_. ResVoid)) (dictExpand cr d n)"
| "dict_step (cr, OpShrink n) d = map_option (apsnd (\<lambda>_. ResVoid)) (dictShrink cr d n)"

text \<open>The same operations on a map; rehashing and resizing have no effect on it.\<close>

fun map_step :: "dictResizeEnable \<times> ('k, 'v) dict_op \<Rightarrow> ('k \<rightharpoonup> 'v option) \<Rightarrow> ('k \<rightharpoonup> 'v option) \<times> 'v dict_res" where
  "map_step (_, OpAdd k v) m =
     (if m k = None then (m(k \<mapsto> Some v), ResBool True) else (m, ResBool False))"
| "map_step (_, OpReplace k v) m = (m(k \<mapsto> Some v), ResBool (m k = None))"
| "map_step (_, OpDelete k) m = (m(k := None), ResBool (m k \<noteq> None))"
| "map_step (_, OpFetch k) m = (m, ResVal (m k))"
| "map_step (_, OpRehash n) m = (m, ResVoid)"
| "map_step (_, OpExpand n) m = (m, ResVoid)"
| "map_step (_, OpShrink n) m = (m, ResVoid)"

definition valued_dict :: "('k, 'v) dict \<Rightarrow> bool" where
  "valued_dict d \<longleftrightarrow> dict_ok d \<and> dict_ready d \<and> \<not> no_value (dict_type d)"

lemma reorg_valued: "valued_dict d \<Longrightarrow> reorg d d' \<Longrightarrow> valued_dict d' \<and> dict_map d' = dict_map d"
  using reorg_map by (auto simp: valued_dict_def reorg_def dict_ready_def)

lemma dict_step_refines:
  assumes d: "valued_dict d"
  shows "\<exists>d' r. dict_step oper d = Some (d', r) \<and> valued_dict d' \<and> map_step oper (dict_map d) = (dict_map d', r)"
proof -
  obtain cr p where oper: "oper = (cr, p)" by (cases oper)
  have ok: "dict_ok d" "dict_ready d" "\<not> no_value (dict_type d)" using d by (auto simp: valued_dict_def)
  show ?thesis
  proof (cases p)
    case (OpAdd k v)
    then show ?thesis
      using dictAdd_spec [OF ok(1,2), of cr k v] ok(3)
      by (auto simp: oper valued_dict_def same_params_def stored_def dom_def split: if_splits)
  next
    case (OpReplace k v)
    then show ?thesis
      using dictReplace_spec [OF ok, of cr k v] ok(3)
      by (auto simp: oper valued_dict_def same_params_def dom_def)
  next
    case (OpDelete k)
    then show ?thesis
      using dictDelete_spec [OF ok(1,2), of cr k] ok(3)
      by (auto simp: oper valued_dict_def same_params_def dom_def)
  next
    case (OpFetch k)
    then show ?thesis
      using dictFetchValue_spec [OF ok(1,3), of cr k] reorg_valued [OF d] by (auto simp: oper)
  next
    case (OpRehash n)
    then show ?thesis
      using dictRehash_spec [OF ok(1), of "Suc n" cr] reorg_valued [OF d] by (auto simp: oper)
  next
    case (OpExpand n)
    then show ?thesis
      using dictExpand_spec [OF ok(1), of cr n] reorg_valued [OF d] by (auto simp: oper resize_step_def)
  next
    case (OpShrink n)
    then show ?thesis
      using dictShrink_spec [OF ok(1), of cr n] reorg_valued [OF d] by (auto simp: oper resize_step_def)
  qed
qed

interpretation finite_map: component_refinement valued_dict dict_map dict_step map_step
  by unfold_locales (rule dict_step_refines)

lemma dictCreate_ok [simp]: "dict_ok (dictCreate type)"
  by (simp add: dictCreate_def dict_ok_def ht_ok_def dictReset_def dict_kvs_def ht_kvs_def)

lemma dictCreate_map [simp]: "dict_map (dictCreate type) = Map.empty"
  by (simp add: dictCreate_def dict_map_def dictReset_def)

lemma dictCreate_valued: "\<not> no_value type \<Longrightarrow> valued_dict (dictCreate type)"
  by (simp add: valued_dict_def dict_ready_def) (simp add: dictCreate_def)

text \<open>C1: A dict with values behaves as a finite map. Whatever sequence of insertions, replacements,
  deletions, lookups, rehashing steps and resizes is run on a fresh dict, under whatever sequence of
  resize policies, no operation fails an assertion or leaves its arrays, and all results are
  those of the same sequence on a map.\<close>

theorem dict_refines_map:
  assumes "\<not> no_value type"
  shows "\<exists>d rs. run_ops dict_step opers (dictCreate type) = Some (d, rs) \<and> dict_ok d \<and>
     run_spec map_step opers Map.empty = (dict_map d, rs)"
  using finite_map.run_refines [OF dictCreate_valued [OF assms], of opers] by (auto simp: valued_dict_def)

definition demo_type :: "nat dictType" where
  "demo_type = \<lparr>hashFunction = (\<lambda>n. n), no_value = False, keys_are_odd = False, embedded_entry = False,
     no_incremental_rehash = False, has_rehashingStarted = True, has_rehashingCompleted = True,
     resizeAllowed = None\<rparr>"

definition demo_ops :: "(dictResizeEnable \<times> (nat, nat) dict_op) list" where
  "demo_ops = [(DICT_RESIZE_ENABLE, OpAdd 7 70), (DICT_RESIZE_ENABLE, OpExpand 9), (DICT_RESIZE_AVOID, OpAdd 7 71),
     (DICT_RESIZE_FORBID, OpReplace 7 72), (DICT_RESIZE_ENABLE, OpRehash 3), (DICT_RESIZE_ENABLE, OpFetch 7),
     (DICT_RESIZE_ENABLE, OpDelete 7), (DICT_RESIZE_ENABLE, OpFetch 7)]"

theorem dict_refines_map_witness:
  "\<exists>d. run_ops dict_step demo_ops (dictCreate demo_type) = Some (d, [ResBool True, ResVoid, ResBool False,
     ResBool False, ResVoid, ResVal (Some (Some 72)), ResBool True, ResVal None]) \<and> dict_ok d"
  using dict_refines_map [of demo_type demo_ops] by (auto simp: demo_type_def demo_ops_def)

text \<open>C19: The count that \<^verbatim>\<open>dictSize\<close> returns after any sequence of operations is the number of keys.\<close>

theorem dictSize_counts_keys:
  assumes "\<not> no_value type" and "run_ops dict_step opers (dictCreate type) = Some (d, rs)"
  shows "dictSize d = card (dom (fst (run_spec map_step opers Map.empty)))"
  using finite_map.run_refines [OF dictCreate_valued [OF assms(1)], of opers] assms(2)
  by (auto simp: valued_dict_def dictSize_card)

definition demo_dict :: "(nat, nat) dict" where
  "demo_dict = \<lparr>dict_type = demo_type,
     ht0 = \<lparr>ht_table = [[], [ENormal 5 (Some 50), ENormal 1 (Some 10)], [], []], ht_used = 2, ht_size_exp = 2\<rparr>,
     ht1 = \<lparr>ht_table = [[ENormal 8 (Some 80)], [], [], [], [], [], [], []], ht_used = 1, ht_size_exp = 3\<rparr>,
     rehashidx = 1, pauserehash = 0, pauseAutoResize = 0, dict_events = []\<rparr>"

lemmas demo_simps = demo_dict_def demo_type_def DICTHT_SIZE_MASK_def DICTHT_SIZE_def

lemma demo_dict_ok: "dict_ok demo_dict"
proof -
  have h: "ht_ok (dict_type demo_dict) (ht0 demo_dict)" "ht_ok (dict_type demo_dict) (ht1 demo_dict)"
    by (simp_all add: demo_simps ht_ok_def All_less_Suc bucket_ok_def kind_ok_def)
  have "\<forall>k. count (image_mset fst (dict_kvs demo_dict)) k \<le> 1"
    by (simp add: demo_simps dict_kvs_def ht_kvs_def kv_def)
  then show ?thesis
    using h by (simp add: dict_ok_def) (simp add: demo_simps)
qed

lemma demo_dict_map: "dict_map demo_dict = [8 \<mapsto> Some 80, 1 \<mapsto> Some 10, 5 \<mapsto> Some 50]" "pauserehash demo_dict = 0"
  by (simp_all add: demo_dict_def dict_map_def kv_def)

theorem dictSize_counts_keys_witness:
  "\<exists>d rs. run_ops dict_step demo_ops (dictCreate demo_type) = Some (d, rs) \<and> dictSize d = 0"
proof -
  have t: "\<not> no_value demo_type" by (simp add: demo_type_def)
  then obtain d rs where d: "run_ops dict_step demo_ops (dictCreate demo_type) = Some (d, rs)"
    using finite_map.run_refines [OF dictCreate_valued, of demo_type demo_ops] by blast
  then have "dictSize d = 0"
    using dictSize_counts_keys [OF t d] by (simp add: demo_ops_def)
  then show ?thesis using d by blast
qed

text \<open>C14: The loop that calls \<^verbatim>\<open>dictRehash\<close> until no work remains ends under every resize policy and keeps the contents. If
  the policy refuses to rehash the dict, it ends at once and the dict is as before, with both tables when it was rehashing;
  otherwise the dict has only one table afterwards, with all the entries. The policy that enables resizing refuses
  only a dict that is not rehashing.\<close>

theorem rehash_all_completes:
  assumes "dict_ok d"
  shows "\<exists>d'. rehash_all cr d = Some d' \<and> dict_ok d' \<and> dict_map d' = dict_map d \<and>
     (if rehash_refused cr d then d' = d else \<not> dictIsRehashing d' \<and> ht_used (ht0 d') = dictSize d) \<and>
     (cr = DICT_RESIZE_ENABLE \<longrightarrow> \<not> dictIsRehashing d' \<and> ht_used (ht0 d') = dictSize d)"
proof -
  obtain d' where d': "rehash_all cr d = Some d'" "reorg d d'" "d' = d \<and> rehash_refused cr d \<or> rehashidx d' = -1"
    using rehash_all_spec [OF assms] by blast
  have ok: "dict_ok d'" and sz: "dictSize d' = dictSize d"
    using d'(2) dictSize_kvs [of d'] dictSize_kvs [OF assms] by (auto simp: reorg_def)
  have one: "\<not> dictIsRehashing d' \<Longrightarrow> ht_used (ht0 d') = dictSize d"
    using ok sz by (simp add: dict_ok_def dictIsRehashing_def dictSize_def dictReset_def)
  have "rehash_refused cr d \<Longrightarrow> d' = d" using d'(1) by (simp add: rehash_all.simps [of cr d] dictRehash_def)
  moreover have "\<not> rehash_refused cr d \<Longrightarrow> \<not> dictIsRehashing d'" using d'(3) by (simp add: dictIsRehashing_def)
  moreover have "cr = DICT_RESIZE_ENABLE \<Longrightarrow> rehash_refused cr d \<Longrightarrow> \<not> dictIsRehashing d" by (simp add: rehash_refused_def Let_def)
  ultimately show ?thesis using d'(1) ok one reorg_map [OF assms d'(2)] by auto
qed

theorem rehash_all_completes_witness:
  "\<exists>d'. rehash_all DICT_RESIZE_ENABLE demo_dict = Some d' \<and> \<not> dictIsRehashing d' \<and> ht_used (ht0 d') = 3"
  using rehash_all_completes [OF demo_dict_ok, of DICT_RESIZE_ENABLE] by (auto simp: dictSize_def demo_dict_def)

text \<open>C16: One call of \<^verbatim>\<open>dictRehash\<close> for at least one bucket returns, keeps the contents, and reports that work remains only if it
  advanced the rehash index; otherwise rehashing was refused or is over.\<close>

theorem dictRehash_progress:
  assumes "dict_ok d" and "n \<noteq> 0"
  shows "\<exists>d' more. dictRehash cr d n = Some (d', more) \<and> dict_ok d' \<and> dict_map d' = dict_map d \<and>
     (if more then rehashidx d < rehashidx d' else d' = d \<and> rehash_refused cr d \<or> \<not> dictIsRehashing d')"
proof -
  obtain d' more where r: "dictRehash cr d n = Some (d', more)" "reorg d d'"
    "more \<longrightarrow> rehashidx d < rehashidx d'" "\<not> more \<longrightarrow> d' = d \<and> rehash_refused cr d \<or> rehashidx d' = -1"
    using dictRehash_spec [OF assms] by blast
  then have "dict_ok d'" "dict_map d' = dict_map d"
    using reorg_map [OF assms(1)] by (auto simp: reorg_def)
  then show ?thesis
    using r by (intro exI [of _ d'] exI [of _ more]) (simp add: dictIsRehashing_def)
qed

theorem dictRehash_progress_witness:
  "\<exists>d' more. dictRehash DICT_RESIZE_ENABLE demo_dict 1 = Some (d', more) \<and> dict_map d' 5 = Some (Some 50)"
proof -
  obtain d' more where "dictRehash DICT_RESIZE_ENABLE demo_dict 1 = Some (d', more)" "dict_map d' = dict_map demo_dict"
    using dictRehash_progress [OF demo_dict_ok, of 1] by blast
  then show ?thesis by (intro exI [of _ d'] exI [of _ more]) (simp add: demo_dict_map)
qed

text \<open>C17: The two phases of an unlink: the first finds the entry and pauses rehashing, so that the position
  stays valid; the second removes exactly that key and resumes rehashing. When the key is absent, the
  first phase finds nothing and does not pause.\<close>

theorem two_phase_unlink_deletes:
  assumes "dict_ok d"
  shows "\<exists>d1 r. dictTwoPhaseUnlinkFind cr d k = Some (d1, r) \<and> dict_ok d1 \<and> dict_map d1 = dict_map d \<and>
     (r = None \<longleftrightarrow> dict_map d k = None) \<and>
     pauserehash d1 = pauserehash d + (if r = None then 0 else 1) \<and>
     (\<exists>d2. dictTwoPhaseUnlinkFree cr d1 r = Some d2 \<and> dict_ok d2 \<and>
        dict_map d2 = (dict_map d)(k := None) \<and> pauserehash d2 = pauserehash d)"
proof -
  obtain d1 r where f: "dictTwoPhaseUnlinkFind cr d k = Some (d1, r)" "dict_ok d1" "dict_map d1 = dict_map d"
    "pauserehash d1 = pauserehash d + (if r = None then 0 else 1)" "found d1 k (dict_keys d) r"
    using twoPhaseFind_spec [OF assms] by blast
  have n: "dict_map d k = None \<longleftrightarrow> k \<notin> dict_keys d"
    using dom_dict_map [OF assms] by (auto simp: domIff)
  show ?thesis
  proof (cases r)
    case None
    then have "dict_map d = (dict_map d)(k := None)" using f(5) n by auto
    then show ?thesis using None f n by (auto simp: dictTwoPhaseUnlinkFree_def)
  next
    case (Some pos)
    then obtain x where x: "entry_at d1 pos = Some x" "dictGetKey x = k" "k \<in> dict_keys d"
      using f(5) by auto
    then show ?thesis
      using Some f n twoPhaseFree_spec [OF f(2) x(1), of cr] by auto
  qed
qed

theorem two_phase_unlink_deletes_witness:
  "\<exists>d1 r d2. dictTwoPhaseUnlinkFind DICT_RESIZE_ENABLE demo_dict 8 = Some (d1, Some r) \<and>
     pauserehash d1 = 1 \<and> dictTwoPhaseUnlinkFree DICT_RESIZE_ENABLE d1 (Some r) = Some d2 \<and>
     dict_map d2 8 = None \<and> dict_map d2 1 = Some (Some 10)"
proof -
  obtain d1 r d2 where f: "dictTwoPhaseUnlinkFind DICT_RESIZE_ENABLE demo_dict 8 = Some (d1, r)"
    "r = None \<longleftrightarrow> dict_map demo_dict 8 = None"
    "pauserehash d1 = pauserehash demo_dict + (if r = None then 0 else 1)"
    "dictTwoPhaseUnlinkFree DICT_RESIZE_ENABLE d1 r = Some d2" "dict_map d2 = (dict_map demo_dict)(8 := None)"
    using two_phase_unlink_deletes [OF demo_dict_ok] by blast
  moreover from f(2) obtain pos where "r = Some pos" by (auto simp: demo_dict_map)
  ultimately show ?thesis
    by (intro exI [of _ d1] exI [of _ pos] exI [of _ d2]) (simp add: demo_dict_map)
qed

end
