(* ===== verification/Dict_Scan.thy ===== *)
theory Dict_Scan
  imports Dict_Spec "HOL-Library.Word"
begin

text \<open>
  The stateless cursor iteration of \<^verbatim>\<open>dict.c\<close>. The cursor is a 64-bit word whose bits are incremented
  from the most significant end, so that a bucket that was visited before a resize is visited in
  all its expansions, or with all the buckets that it is merged with. The main result: a
  complete scan returns every entry that is in the dict all the time, whatever happens to the
  tables between the calls.
\<close>

subsection \<open>The code\<close>

text \<open>\<^verbatim>\<open>rev\<close>, with its loop on the shift width.\<close>

fun rev_loop :: "nat \<Rightarrow> 64 word \<Rightarrow> 64 word \<Rightarrow> 64 word" where
  "rev_loop s m v =
     (let s = s div 2 in
      if s > 0 then
        let m = m XOR push_bit s m in
        rev_loop s m ((drop_bit s v AND m) OR (push_bit s v AND NOT m))
      else v)"

declare rev_loop.simps [simp del]

definition rev_word :: "64 word \<Rightarrow> 64 word" where
  "rev_word v = rev_loop 64 (NOT 0) v"

text \<open>The entries that a walk along \<^verbatim>\<open>dictGetNext\<close> meets.\<close>

fun chain_entries :: "('k, 'v) dictEntry list \<Rightarrow> ('k, 'v) dictEntry list" where
  "chain_entries [] = []"
| "chain_entries (de # rest) = de # chain_entries (dictGetNext de rest)"

definition scan_mask :: "('k, 'v) ht \<Rightarrow> 64 word" where
  "scan_mask h = word_of_nat (DICTHT_SIZE_MASK (ht_size_exp h))"

definition scan_bucket :: "('k, 'v) ht \<Rightarrow> 64 word \<Rightarrow> ('k, 'v) dictEntry list option" where
  "scan_bucket h v = map_option chain_entries (get_bucket h (unat (v AND scan_mask h)))"

text \<open>Set the unmasked bits and increment the reversed cursor.\<close>

definition scan_next :: "64 word \<Rightarrow> 64 word \<Rightarrow> 64 word" where
  "scan_next m v = rev_word (rev_word (v OR NOT m) + 1)"

text \<open>The loop over the expansions in the larger table \<open>h\<close>.\<close>

partial_function (option) scan_expansions ::
  "('k, 'v) ht \<Rightarrow> 64 word \<Rightarrow> 64 word \<Rightarrow> ('k, 'v) dictEntry list \<Rightarrow> (64 word \<times> ('k, 'v) dictEntry list) option" where
  "scan_expansions h m0 v acc = do {
     es \<leftarrow> scan_bucket h v;
     let v = scan_next (scan_mask h) v;
     if v AND (m0 XOR scan_mask h) \<noteq> 0 then scan_expansions h m0 v (acc @ es)
     else Some (v, acc @ es)
   }"

text \<open>The result is the next cursor and the entries that are passed to the callback, in order. The
  callback is taken not to change the dict.\<close>

definition dictScan :: "('k, 'v) dict \<Rightarrow> 64 word \<Rightarrow> (('k, 'v) dict \<times> 64 word \<times> ('k, 'v) dictEntry list) option" where
  "dictScan d v =
     (if dictSize d = 0 then Some (d, 0, [])
      else do {
        let d = d\<lparr>pauserehash := pauserehash d + 1\<rparr>;
        (v, es) \<leftarrow>
          (if \<not> dictIsRehashing d then do {
             es \<leftarrow> scan_bucket (ht0 d) v;
             Some (scan_next (scan_mask (ht0 d)) v, es)
           }
           else do {
             let (small, large) =
               (if DICTHT_SIZE (ht_size_exp (ht0 d)) > DICTHT_SIZE (ht_size_exp (ht1 d))
                then (ht1 d, ht0 d) else (ht0 d, ht1 d));
             es \<leftarrow> scan_bucket small v;
             scan_expansions large (scan_mask small) v es
           });
        Some (d\<lparr>pauserehash := pauserehash d - 1\<rparr>, v, es)
      })"

subsection \<open>Bit reversal\<close>

text \<open>One round of the reversal exchanges the positions whose numbers differ in the bit \<open>s\<close>.\<close>

definition swap_pos :: "nat \<Rightarrow> nat \<Rightarrow> nat" where
  "swap_pos s n = (if even (n div s) then n + s else n - s)"

lemma rev_round:
  assumes "\<And>n. n < 64 \<Longrightarrow> bit (m :: 64 word) n \<longleftrightarrow> even (n div s)" and "n < 64" and "swap_pos s n < 64"
    and "0 < s"
  shows "bit ((drop_bit s v AND m) OR (push_bit s v AND NOT m) :: 64 word) n \<longleftrightarrow> bit v (swap_pos s n)"
proof -
  have "odd (n div s) \<Longrightarrow> s \<le> n" by (metis div_eq_0_iff even_zero not_le)
  then show ?thesis
    using assms by (auto simp: bit_simps swap_pos_def add.commute)
qed

definition alternating :: "nat \<Rightarrow> 64 word \<Rightarrow> bool" where
  "alternating s m \<longleftrightarrow> (\<forall>n<64. bit m n \<longleftrightarrow> even (n div s))"

lemma alternating_half:
  assumes m: "alternating (2 * s) m" and s: "0 < s"
  shows "alternating s (m XOR push_bit s m)"
  unfolding alternating_def
proof (intro allI impI)
  fix n :: nat assume n: "n < 64"
  define q where "q = n div (2 * s)"
  define r where "r = n mod (2 * s)"
  have nqr: "n = 2 * s * q + r" and r: "r < 2 * s" using s by (simp_all add: q_def r_def)
  show "bit (m XOR push_bit s m) n \<longleftrightarrow> even (n div s)"
  proof (cases "r < s")
    case True
    then have "n div s = 2 * q"
      using s nqr by (intro div_nat_eqI) (auto simp: algebra_simps)
    moreover have "s \<le> n \<Longrightarrow> 0 < q" using True nqr by (cases q) auto
    moreover have "0 < q \<Longrightarrow> n - s = 2 * s * (q - 1) + (r + s)"
      using nqr by (cases q) (auto simp: algebra_simps)
    then have "0 < q \<Longrightarrow> (n - s) div (2 * s) = q - 1" using True s by simp
    moreover have "0 < q \<Longrightarrow> s \<le> n" using nqr by (cases q) auto
    ultimately show ?thesis
      using m n by (cases "0 < q") (auto simp: alternating_def bit_simps q_def [symmetric])
  next
    case False
    then have "n div s = 2 * q + 1"
      using s r nqr by (intro div_nat_eqI) (auto simp: algebra_simps)
    moreover have "n - s = 2 * s * q + (r - s)" using False nqr by simp
    then have "(n - s) div (2 * s) = q" using r s by simp
    moreover have "s \<le> n" using False nqr by simp
    ultimately show ?thesis
      using m n by (auto simp: alternating_def bit_simps q_def [symmetric])
  qed
qed

fun swaps :: "nat \<Rightarrow> nat \<Rightarrow> nat" where
  "swaps 0 n = n"
| "swaps (Suc k) n = swap_pos (2 ^ k) (swaps k n)"

lemma swap_flip: "swap_pos (2 ^ k) n = flip_bit k n"
proof (cases "bit n k")
  case True
  have "unset_bit k n + 2 ^ k = unset_bit k n OR 2 ^ k"
    by (rule disjunctive_add) (auto simp: bit_simps)
  also have "\<dots> = n"
    using True by (intro bit_eqI) (auto simp: bit_simps)
  finally show ?thesis
    using True by (auto simp: swap_pos_def flip_bit_eq_if bit_iff_odd)
next
  case False
  then show ?thesis by (simp add: swap_pos_def flip_bit_eq_if set_bit_eq bit_iff_odd)
qed

lemma bit_swaps: "bit (swaps k n) j \<longleftrightarrow> bit n j \<noteq> (j < k)"
  by (induction k arbitrary: j) (auto simp: swap_flip bit_simps less_Suc_eq)

lemma bit_below_64: "n < 64 \<Longrightarrow> bit (n :: nat) j \<Longrightarrow> j < 6"
proof -
  assume "n < 64" "bit n j"
  moreover from this(1) have "take_bit 6 n = n" by (simp add: take_bit_nat_eq_self_iff)
  ultimately show "j < 6" by (metis bit_take_bit_iff)
qed

lemma swaps_bound: "k \<le> 6 \<Longrightarrow> n < 64 \<Longrightarrow> swaps k n < 64"
proof -
  assume "k \<le> 6" "n < 64"
  then have "take_bit 6 (swaps k n) = swaps k n"
    using \<open>k \<le> 6\<close> by (intro bit_eqI) (auto simp: bit_simps bit_swaps dest: bit_below_64 [OF \<open>n < 64\<close>])
  then show ?thesis by (simp add: take_bit_nat_eq_self_iff)
qed

lemma swaps_6: "n < 64 \<Longrightarrow> swaps 6 n = 63 - n"
proof -
  assume n: "n < 64"
  have "n + swaps 6 n = n OR swaps 6 n"
    using bit_below_64 [OF n] by (intro disjunctive_add) (auto simp: bit_swaps)
  also have "\<dots> = mask 6"
    using bit_below_64 [OF n] by (intro bit_eqI) (auto simp: bit_simps bit_swaps)
  finally show ?thesis by (simp add: mask_eq_exp_minus_1)
qed

lemma rev_loop_bits:
  assumes "alternating (2 ^ k) m" and "k \<le> 6" and "n < 64"
  shows "bit (rev_loop (2 ^ k) m v) n \<longleftrightarrow> bit v (swaps k n)"
  using assms(1,2)
proof (induction k arbitrary: m v)
  case 0
  show ?case by (subst rev_loop.simps) simp
next
  case (Suc k)
  let ?s = "2 ^ k :: nat"
  let ?m = "m XOR push_bit ?s m"
  let ?v = "(drop_bit ?s v AND ?m) OR (push_bit ?s v AND NOT ?m)"
  have m: "alternating ?s ?m" using Suc.prems(1) by (intro alternating_half) auto
  have "rev_loop (2 ^ Suc k) m v = rev_loop ?s ?m ?v"
    by (subst rev_loop.simps) (simp add: Let_def)
  then have "bit (rev_loop (2 ^ Suc k) m v) n \<longleftrightarrow> bit ?v (swaps k n)"
    using Suc.IH [OF m] Suc.prems(2) by simp
  also have "\<dots> \<longleftrightarrow> bit v (swap_pos ?s (swaps k n))"
    using m Suc.prems(2) assms(3) swaps_bound [of k n] swaps_bound [of "Suc k" n]
    by (intro rev_round) (auto simp: alternating_def)
  finally show ?case by simp
qed

lemma bit_rev_word [bit_simps]: "bit (rev_word v) n \<longleftrightarrow> n < 64 \<and> bit v (63 - n)"
proof (cases "n < 64")
  case True
  have "alternating (2 ^ 6) (NOT 0)" by (simp add: alternating_def bit_simps)
  then show ?thesis
    using rev_loop_bits [of 6 "NOT 0" n v] swaps_6 [OF True] True by (simp add: rev_word_def)
next
  case False
  then show ?thesis using bit_imp_le_length [of "rev_word v" n] by auto
qed

lemma rev_word_rev_word [simp]: "rev_word (rev_word v) = v"
  by (rule bit_word_eqI) (auto simp: bit_simps)

lemma rev_word_0 [simp]: "rev_word 0 = 0"
  by (rule bit_word_eqI) (simp add: bit_simps)

lemma rev_word_eq_0 [simp]: "rev_word v = 0 \<longleftrightarrow> v = 0"
  by (metis rev_word_0 rev_word_rev_word)

subsection \<open>The order of the cursor\<close>

text \<open>The position of a cursor, and of a hash, in the order of the scan.\<close>

definition scan_pos :: "64 word \<Rightarrow> nat" where
  "scan_pos v = unat (rev_word v)"

lemma scan_pos_bound: "scan_pos v < 2 ^ 64"
  using unsigned_less [of "rev_word v"] by (simp add: scan_pos_def)

lemma scan_pos_0 [simp]: "scan_pos 0 = 0" "scan_pos v = 0 \<longleftrightarrow> v = 0"
  by (simp_all add: scan_pos_def unat_eq_0)

lemma scan_pos_div: "scan_pos x div 2 ^ k = unat (drop_bit k (rev_word x))"
  by (simp only: scan_pos_def unat_drop_bit_eq) (simp add: drop_bit_eq_div)

lemma scan_pos_block:
  assumes "e \<le> 64"
  shows "scan_pos v div 2 ^ (64 - e) = scan_pos w div 2 ^ (64 - e) \<longleftrightarrow> take_bit e v = take_bit e w"
proof -
  have "scan_pos v div 2 ^ (64 - e) = scan_pos w div 2 ^ (64 - e) \<longleftrightarrow>
      drop_bit (64 - e) (rev_word v) = drop_bit (64 - e) (rev_word w)"
    by (simp add: word_unat_eq_iff scan_pos_div)
  also have "\<dots> \<longleftrightarrow> (\<forall>n<e. bit v n = bit w n)"
  proof
    assume d: "drop_bit (64 - e) (rev_word v) = drop_bit (64 - e) (rev_word w)"
    show "\<forall>n<e. bit v n = bit w n"
    proof (intro allI impI)
      fix n assume "n < e"
      then show "bit v n = bit w n"
        using assms arg_cong [OF d, of "\<lambda>x. bit x (e - 1 - n)"] by (auto simp: bit_simps)
    qed
  next
    assume b: "\<forall>n<e. bit v n = bit w n"
    show "drop_bit (64 - e) (rev_word v) = drop_bit (64 - e) (rev_word w)"
      using b assms by (intro bit_word_eqI) (auto simp: bit_simps)
  qed
  also have "\<dots> \<longleftrightarrow> take_bit e v = take_bit e w"
    using assms by (auto simp: bit_eq_iff bit_simps) (metis less_le_trans)+
  finally show ?thesis .
qed

text \<open>Incrementing a cursor under a mask of \<open>e\<close> bits goes to the start of the next block.\<close>

lemma scan_pos_next:
  assumes "e \<le> 64"
  shows "scan_pos (scan_next (mask e) v) = (scan_pos v div 2 ^ (64 - e) + 1) * 2 ^ (64 - e) mod 2 ^ 64"
proof -
  let ?k = "64 - e" and ?r = "rev_word v"
  define N where "N = (scan_pos v div 2 ^ ?k + 1) * 2 ^ ?k"
  have "rev_word (v OR NOT (mask e)) = push_bit ?k (drop_bit ?k ?r) OR mask ?k"
    using assms by (intro bit_word_eqI) (auto simp: bit_simps)
  also have "\<dots> = push_bit ?k (drop_bit ?k ?r) + mask ?k"
    by (rule disjunctive_add [symmetric]) (auto simp: bit_simps)
  finally have "rev_word (v OR NOT (mask e)) + 1 = (drop_bit ?k ?r + 1) * 2 ^ ?k"
    by (simp add: push_bit_eq_mult mask_eq_exp_minus_1 algebra_simps)
  also have "\<dots> = word_of_nat N"
    by (simp add: scan_pos_div N_def algebra_simps)
  finally have "scan_pos (scan_next (mask e) v) = unat (word_of_nat N :: 64 word)"
    by (simp add: scan_pos_def scan_next_def)
  then have "scan_pos (scan_next (mask e) v) = N mod 2 ^ 64"
    by (simp add: unsigned_of_nat take_bit_eq_mod)
  then show ?thesis by (simp add: N_def)
qed

text \<open>The test at the end of the loop over the expansions: whether a block of the smaller table ends.\<close>

lemma scan_pos_test:
  assumes "e0 \<le> e1" and "e1 \<le> 64"
  shows "v AND (mask e0 XOR mask e1) = 0 \<longleftrightarrow> scan_pos v mod 2 ^ (64 - e0) div 2 ^ (64 - e1) = 0"
proof -
  have "scan_pos v mod 2 ^ (64 - e0) div 2 ^ (64 - e1) =
      unat (drop_bit (64 - e1) (take_bit (64 - e0) (rev_word v)))"
    by (simp only: scan_pos_def unat_drop_bit_eq unsigned_take_bit_eq)
      (simp add: drop_bit_eq_div take_bit_eq_mod)
  then have "scan_pos v mod 2 ^ (64 - e0) div 2 ^ (64 - e1) = 0 \<longleftrightarrow>
      drop_bit (64 - e1) (take_bit (64 - e0) (rev_word v)) = 0"
    by (simp add: unat_eq_0)
  also have "\<dots> \<longleftrightarrow> (\<forall>n. e0 \<le> n \<and> n < e1 \<longrightarrow> \<not> bit v n)"
  proof
    assume d: "drop_bit (64 - e1) (take_bit (64 - e0) (rev_word v)) = 0"
    show "\<forall>n. e0 \<le> n \<and> n < e1 \<longrightarrow> \<not> bit v n"
    proof (intro allI impI)
      fix n assume "e0 \<le> n \<and> n < e1"
      then show "\<not> bit v n"
        using assms arg_cong [OF d, of "\<lambda>x. bit x (e1 - 1 - n)"] by (auto simp: bit_simps)
    qed
  next
    assume "\<forall>n. e0 \<le> n \<and> n < e1 \<longrightarrow> \<not> bit v n"
    then show "drop_bit (64 - e1) (take_bit (64 - e0) (rev_word v)) = 0"
      using assms by (intro bit_word_eqI) (auto simp: bit_simps)
  qed
  also have "\<dots> \<longleftrightarrow> v AND (mask e0 XOR mask e1) = 0"
    using assms by (auto simp: bit_eq_iff bit_simps) (meson not_le, meson less_le_trans not_le)
  finally show ?thesis by blast
qed

text \<open>The position of an entry is that of its hash.\<close>

definition entry_pos :: "'k dictType \<Rightarrow> ('k, 'v) dictEntry \<Rightarrow> nat" where
  "entry_pos type x = scan_pos (word_of_nat (hashFunction type (dictGetKey x)))"

lemma entry_pos_block:
  assumes "e \<le> 64"
  shows "entry_pos type x div 2 ^ (64 - e) = scan_pos v div 2 ^ (64 - e) \<longleftrightarrow>
     hashFunction type (dictGetKey x) mod 2 ^ e = unat v mod 2 ^ e"
proof -
  let ?h = "hashFunction type (dictGetKey x)"
  have "entry_pos type x div 2 ^ (64 - e) = scan_pos v div 2 ^ (64 - e) \<longleftrightarrow>
      unat (take_bit e (word_of_nat ?h :: 64 word)) = unat (take_bit e v)"
    using scan_pos_block [OF assms] by (simp add: entry_pos_def word_unat_eq_iff)
  also have "\<dots> \<longleftrightarrow> take_bit e (take_bit 64 ?h) = take_bit e (unat v)"
    by (simp only: unsigned_take_bit_eq unsigned_of_nat) simp
  also have "\<dots> \<longleftrightarrow> ?h mod 2 ^ e = unat v mod 2 ^ e"
    using assms by (simp only: take_bit_take_bit min.absorb1) (simp add: take_bit_eq_mod)
  finally show ?thesis .
qed

lemma chain_entries_ok: "chain_ok type c \<Longrightarrow> chain_entries c = c"
  by (induction c) (auto simp: dictGetNext_def)

subsection \<open>What one call emits\<close>

definition ht_entries :: "('k, 'v) ht \<Rightarrow> ('k, 'v) dictEntry set" where
  "ht_entries h = set (concat (ht_table h))"

definition ht_bits :: "('k, 'v) ht \<Rightarrow> nat" where
  "ht_bits h = nat (ht_size_exp h)"

lemma scan_mask_eq: "ht_size_exp h \<noteq> -1 \<Longrightarrow> scan_mask h = mask (ht_bits h)"
  by (simp add: scan_mask_def ht_bits_def DICTHT_SIZE_MASK_def DICTHT_SIZE_def mask_eq_exp_minus_1)

lemma ht_bits_le: "ht_ok type h \<Longrightarrow> ht_bits h \<le> 60"
  by (auto simp: ht_ok_def ht_bits_def)

lemma scan_bucket_spec:
  assumes h: "ht_ok type h" and e: "ht_size_exp h \<noteq> -1"
  shows "\<exists>es. scan_bucket h v = Some es \<and>
     set es = {x \<in> ht_entries h. entry_pos type x div 2 ^ (64 - ht_bits h) = scan_pos v div 2 ^ (64 - ht_bits h)}"
proof -
  let ?e = "ht_bits h" and ?i = "unat v mod 2 ^ ht_bits h"
  have len: "length (ht_table h) = 2 ^ ?e" using h e by (auto simp: ht_ok_def ht_bits_def)
  have i: "?i < length (ht_table h)" by (simp add: len)
  have idx: "unat (v AND scan_mask h) = ?i"
    by (simp only: scan_mask_eq [OF e] take_bit_eq_mask [symmetric] unsigned_take_bit_eq) (simp add: take_bit_eq_mod)
  have b: "bucket_ok type (ht_size_exp h) j (ht_table h ! j)" if "j < length (ht_table h)" for j
    using h that by (simp add: ht_ok_def)
  have in_bucket: "x \<in> set (ht_table h ! ?i) \<longleftrightarrow> x \<in> ht_entries h \<and> hashFunction type (dictGetKey x) mod 2 ^ ?e = ?i" for x
  proof
    assume "x \<in> set (ht_table h ! ?i)"
    then show "x \<in> ht_entries h \<and> hashFunction type (dictGetKey x) mod 2 ^ ?e = ?i"
      using b [OF i] i e by (auto simp: bucket_ok_def AND_SIZE_MASK ht_bits_def ht_entries_def)
  next
    assume x: "x \<in> ht_entries h \<and> hashFunction type (dictGetKey x) mod 2 ^ ?e = ?i"
    then obtain j where "j < length (ht_table h)" "x \<in> set (ht_table h ! j)"
      by (auto simp: ht_entries_def in_set_conv_nth) metis
    then show "x \<in> set (ht_table h ! ?i)"
      using b [of j] x e by (auto simp: bucket_ok_def AND_SIZE_MASK ht_bits_def)
  qed
  have "chain_entries (ht_table h ! ?i) = ht_table h ! ?i"
    using b [OF i] by (auto simp: bucket_ok_def intro: chain_entries_ok)
  then have "scan_bucket h v = Some (ht_table h ! ?i)"
    using i idx by (simp add: scan_bucket_def get_bucket_def)
  then show ?thesis
    using in_bucket ht_bits_le [OF h] entry_pos_block [of ?e type _ v] by auto
qed

text \<open>The end of a block of a multiple of the block size.\<close>

lemma block_end:
  fixes K :: nat
  assumes "0 < K" and "B = p div (M * K)" and "0 < M"
  shows "(p div K + 1) * K \<le> (B + 1) * (M * K)" and "p < (p div K + 1) * K"
    and "(p div K + 1) * K mod (M * K) = 0 \<longleftrightarrow> (p div K + 1) * K = (B + 1) * (M * K)"
    and "(p div K + 1) * K < (B + 1) * (M * K) \<Longrightarrow> (p div K + 1) * K div (M * K) = B"
proof -
  let ?q = "p div K"
  have B: "B = ?q div M" using assms by (simp add: div_mult2_eq mult.commute)
  have "?q + 1 \<le> (B + 1) * M"
    using assms(3) B by (metis Suc_eq_plus1 Suc_leI dividend_less_div_times add_mult_distrib mult_1 add.commute)
  then show 1: "(?q + 1) * K \<le> (B + 1) * (M * K)"
    by (metis mult.assoc mult_le_mono1)
  show "p < (?q + 1) * K"
    using assms(1) dividend_less_div_times [of K p] by (simp add: algebra_simps)
  have lo: "B * M \<le> ?q" using B by (simp add: mult.commute)
  have m: "(?q + 1) * K mod (M * K) = (?q + 1) mod M * K"
    by (rule mod_mult_mult2)
  show 3: "(?q + 1) * K mod (M * K) = 0 \<longleftrightarrow> (?q + 1) * K = (B + 1) * (M * K)"
  proof
    assume "(?q + 1) * K mod (M * K) = 0"
    then have "M dvd ?q + 1" using m assms(1) by (simp add: dvd_eq_mod_eq_0)
    then obtain c where c: "?q + 1 = M * c" by blast
    then have "B < c" using lo assms(3) by (metis Suc_eq_plus1 less_Suc_eq_le mult.commute mult_less_cancel1)
    moreover have "c \<le> B + 1" using \<open>?q + 1 \<le> (B + 1) * M\<close> c assms(3) by (metis mult.commute mult_le_cancel1)
    ultimately have "c = B + 1" by simp
    then show "(?q + 1) * K = (B + 1) * (M * K)" using c by (simp add: algebra_simps)
  qed simp
  have "M * K * B = B * M * K" by (simp add: ac_simps)
  also have "\<dots> \<le> ?q * K" by (rule mult_le_mono1 [OF lo])
  also have "\<dots> \<le> (?q + 1) * K" by simp
  finally show "(?q + 1) * K < (B + 1) * (M * K) \<Longrightarrow> (?q + 1) * K div (M * K) = B"
    by (rule div_nat_eqI) (simp add: algebra_simps)
qed

lemma scan_expansions_spec:
  assumes h: "ht_ok type h" "ht_size_exp h \<noteq> -1" and e0: "e0 \<le> ht_bits h"
    and B: "scan_pos v div 2 ^ (64 - e0) = B"
  shows "\<exists>v' es. scan_expansions h (mask e0) v acc = Some (v', acc @ es) \<and>
     scan_pos v' = (B + 1) * 2 ^ (64 - e0) mod 2 ^ 64 \<and>
     set es = {x \<in> ht_entries h. entry_pos type x div 2 ^ (64 - e0) = B \<and>
        scan_pos v div 2 ^ (64 - ht_bits h) \<le> entry_pos type x div 2 ^ (64 - ht_bits h)}"
  using B
proof (induction "(B + 1) * 2 ^ (64 - e0) - scan_pos v" arbitrary: v acc rule: less_induct)
  case less
  define K :: nat where "K = 2 ^ (64 - ht_bits h)"
  define M :: nat where "M = 2 ^ (ht_bits h - e0)"
  let ?p = "scan_pos v" and ?v = "scan_next (mask (ht_bits h)) v"
  let ?P = "(?p div K + 1) * K"
  have e1: "ht_bits h \<le> 64" using ht_bits_le [OF h(1)] by simp
  have MK: "2 ^ (64 - e0) = M * K" using e0 e1 by (simp add: M_def K_def flip: power_add)
  have pos: "0 < K" "0 < M" by (simp_all add: K_def M_def)
  have B: "B = ?p div (M * K)" using less.prems by (simp add: MK)
  note blk = block_end [OF pos(1) B pos(2)]
  have "?p < 2 ^ 64" by (rule scan_pos_bound)
  moreover have d64: "(2::nat) ^ 64 = 2 ^ e0 * (M * K)"
    using e0 e1 by (simp add: MK [symmetric] flip: power_add)
  ultimately have "B < 2 ^ e0" using B by (simp add: less_mult_imp_div_less)
  then have top: "(B + 1) * (M * K) \<le> 2 ^ 64" unfolding d64 by (intro mult_le_mono1) simp
  have nxt: "scan_pos ?v = ?P mod 2 ^ 64" using scan_pos_next [OF e1] by (simp add: K_def)
  have dv: "M * K dvd 2 ^ 64" unfolding d64 by (rule dvd_triv_right)
  have "scan_pos ?v mod (M * K) = ?P mod (M * K)" using dv by (simp add: nxt mod_mod_cancel)
  also have "\<dots> = (?p div K + 1) mod M * K" by (rule mod_mult_mult2)
  finally have test: "?v AND (mask e0 XOR mask (ht_bits h)) = 0 \<longleftrightarrow> ?P = (B + 1) * (M * K)"
    using scan_pos_test [OF e0 e1, of ?v] blk(3) pos(1) mod_mult_mult2 [of "?p div K + 1" K M]
    by (simp add: MK K_def [symmetric])
  obtain es where es: "scan_bucket h v = Some es" "set es = {x \<in> ht_entries h. entry_pos type x div K = ?p div K}"
    using scan_bucket_spec [OF h, of v] by (auto simp: K_def)
  have same: "x div K = ?p div K \<Longrightarrow> x div (M * K) = B" for x
    using B by (metis div_mult2_eq mult.commute)
  show ?case
  proof (cases "?P = (B + 1) * (M * K)")
    case True
    have "x div K = ?p div K \<longleftrightarrow> x div (M * K) = B \<and> ?p div K \<le> x div K" for x
    proof -
      have "x div (M * K) = B \<Longrightarrow> x < ?P"
        using True pos by (metis Suc_eq_plus1 dividend_less_div_times mult_Suc nat_0_less_mult_iff)
      then have "x div (M * K) = B \<Longrightarrow> x div K < ?p div K + 1" by (simp add: less_mult_imp_div_less)
      then show ?thesis using same [of x] by auto
    qed
    then show ?thesis
      using es True test nxt scan_mask_eq [OF h(2)]
      by (subst scan_expansions.simps) (auto simp: MK K_def [symmetric])
  next
    case False
    then have lt: "?P < (B + 1) * (M * K)" using blk(1) by simp
    then have v: "scan_pos ?v = ?P" using nxt top by simp
    have h1: "(B + 1) * 2 ^ (64 - e0) - scan_pos ?v < (B + 1) * 2 ^ (64 - e0) - ?p"
      unfolding v MK using blk(2) lt by linarith
    have h2: "scan_pos ?v div 2 ^ (64 - e0) = B" unfolding v MK by (rule blk(4) [OF lt])
    obtain v' es' where r: "scan_expansions h (mask e0) ?v (acc @ es) = Some (v', (acc @ es) @ es')"
      "scan_pos v' = (B + 1) * 2 ^ (64 - e0) mod 2 ^ 64"
      "set es' = {x \<in> ht_entries h. entry_pos type x div 2 ^ (64 - e0) = B \<and>
         scan_pos ?v div 2 ^ (64 - ht_bits h) \<le> entry_pos type x div 2 ^ (64 - ht_bits h)}"
      using less.hyps [OF h1 h2, of "acc @ es"] by blast
    have "?P div K = ?p div K + 1" using pos(1) by simp
    then have "set (es @ es') = {x \<in> ht_entries h. entry_pos type x div 2 ^ (64 - e0) = B \<and>
        ?p div 2 ^ (64 - ht_bits h) \<le> entry_pos type x div 2 ^ (64 - ht_bits h)}"
      using es(2) r(3) same v by (auto simp: MK K_def [symmetric])
    moreover have "scan_expansions h (mask e0) v acc = Some (v', acc @ (es @ es'))"
      using es(1) False test r(1) scan_mask_eq [OF h(2)] by (subst scan_expansions.simps) simp
    ultimately show ?thesis using r(2) by blast
  qed
qed

definition dict_entries :: "('k, 'v) dict \<Rightarrow> ('k, 'v) dictEntry set" where
  "dict_entries d = ht_entries (ht0 d) \<union> ht_entries (ht1 d)"

lemma dict_entries_key: "dict_keys d = dictGetKey ` dict_entries d"
  by (simp add: dict_keys_eq ht_keys_def dict_entries_def ht_entries_def image_Un)

text \<open>The two cases of a call, on the tables in the order of their size.\<close>

lemma scan_one_spec:
  assumes h: "ht_ok type h" "ht_size_exp h \<noteq> -1"
  shows "\<exists>es k. scan_bucket h v = Some es \<and> k \<le> 64 \<and>
     scan_pos (scan_next (scan_mask h) v) = (scan_pos v div 2 ^ k + 1) * 2 ^ k mod 2 ^ 64 \<and> set es \<subseteq> ht_entries h \<and>
     (\<forall>x\<in>ht_entries h. scan_pos v \<le> entry_pos type x \<and> entry_pos type x div 2 ^ k = scan_pos v div 2 ^ k \<longrightarrow> x \<in> set es)"
proof -
  have e: "ht_bits h \<le> 64" using ht_bits_le [OF h(1)] by simp
  obtain es where "scan_bucket h v = Some es" "set es = {x \<in> ht_entries h.
      entry_pos type x div 2 ^ (64 - ht_bits h) = scan_pos v div 2 ^ (64 - ht_bits h)}"
    using scan_bucket_spec [OF h] by blast
  then show ?thesis
    using scan_pos_next [OF e, of v] scan_mask_eq [OF h(2)]
    by (intro exI [of _ es] exI [of _ "64 - ht_bits h"]) auto
qed

lemma scan_two_spec:
  assumes s: "ht_ok type s" "ht_size_exp s \<noteq> -1" and l: "ht_ok type l" "ht_size_exp l \<noteq> -1"
    and e: "ht_bits s \<le> ht_bits l"
  shows "\<exists>es0 v' es k. scan_bucket s v = Some es0 \<and> scan_expansions l (scan_mask s) v es0 = Some (v', es) \<and> k \<le> 64 \<and>
     scan_pos v' = (scan_pos v div 2 ^ k + 1) * 2 ^ k mod 2 ^ 64 \<and> set es \<subseteq> ht_entries s \<union> ht_entries l \<and>
     (\<forall>x\<in>ht_entries s \<union> ht_entries l.
        scan_pos v \<le> entry_pos type x \<and> entry_pos type x div 2 ^ k = scan_pos v div 2 ^ k \<longrightarrow> x \<in> set es)"
proof -
  let ?k = "64 - ht_bits s"
  obtain es0 where es0: "scan_bucket s v = Some es0"
    "set es0 = {x \<in> ht_entries s. entry_pos type x div 2 ^ ?k = scan_pos v div 2 ^ ?k}"
    using scan_bucket_spec [OF s] by blast
  obtain v' es where es: "scan_expansions l (mask (ht_bits s)) v es0 = Some (v', es0 @ es)"
    "scan_pos v' = (scan_pos v div 2 ^ ?k + 1) * 2 ^ ?k mod 2 ^ 64"
    "set es = {x \<in> ht_entries l. entry_pos type x div 2 ^ ?k = scan_pos v div 2 ^ ?k \<and>
        scan_pos v div 2 ^ (64 - ht_bits l) \<le> entry_pos type x div 2 ^ (64 - ht_bits l)}"
    using scan_expansions_spec [OF l e refl] by blast
  then show ?thesis
    using es0 scan_mask_eq [OF s(2)] div_le_mono
    by (intro exI [of _ es0] exI [of _ v'] exI [of _ "es0 @ es"] exI [of _ ?k]) auto
qed

lemma dictScan_spec:
  assumes d: "dict_ok d" and n: "dictSize d \<noteq> 0"
  shows "\<exists>v' es k. dictScan d v = Some (d, v', es) \<and> k \<le> 64 \<and>
     scan_pos v' = (scan_pos v div 2 ^ k + 1) * 2 ^ k mod 2 ^ 64 \<and> set es \<subseteq> dict_entries d \<and>
     (\<forall>x\<in>dict_entries d. scan_pos v \<le> entry_pos (dict_type d) x \<and>
        entry_pos (dict_type d) x div 2 ^ k = scan_pos v div 2 ^ k \<longrightarrow> x \<in> set es)"
proof -
  note ok = dict_okD [OF d]
  have e0: "ht_size_exp (ht0 d) \<noteq> -1"
    using n dictSize_kvs [OF d] by (intro ht0_exists [OF d]) auto
  have bits: "ht_bits h \<le> ht_bits h' \<longleftrightarrow> DICTHT_SIZE (ht_size_exp h) \<le> DICTHT_SIZE (ht_size_exp h')"
    if "ht_size_exp h \<noteq> -1" "ht_size_exp h' \<noteq> -1" for h h' :: "('a, 'b) ht"
    using that by (simp add: ht_bits_def DICTHT_SIZE_def)
  show ?thesis
  proof (cases "dictIsRehashing d")
    case False
    then have "ht_entries (ht1 d) = {}" using ok(5) by (auto simp: ht_entries_def dictReset_def)
    then show ?thesis
      using scan_one_spec [OF ok(1) e0, of v] False n
      by (auto simp: dictScan_def dict_entries_def dictIsRehashing_def)
  next
    case True
    have e1: "ht_size_exp (ht1 d) \<noteq> -1" using ok(4) [OF True] by auto
    show ?thesis
    proof (cases "DICTHT_SIZE (ht_size_exp (ht0 d)) > DICTHT_SIZE (ht_size_exp (ht1 d))")
      case big: True
      then have "ht_bits (ht1 d) \<le> ht_bits (ht0 d)" using bits [OF e1 e0] by simp
      then show ?thesis
        using scan_two_spec [OF ok(2) e1 ok(1) e0, of v] True big n
        by (auto simp: dictScan_def dict_entries_def dictIsRehashing_def Un_commute)
    next
      case False
      then have "ht_bits (ht0 d) \<le> ht_bits (ht1 d)" using bits [OF e0 e1] by simp
      then show ?thesis
        using scan_two_spec [OF ok(1) e0 ok(2) e1, of v] True False n
        by (auto simp: dictScan_def dict_entries_def dictIsRehashing_def)
    qed
  qed
qed

subsection \<open>A complete scan\<close>

text \<open>The calls of one scan see the dict in the states \<open>ds\<close>: between two calls anything may happen to it.\<close>

fun scan_run :: "('k, 'v) dict list \<Rightarrow> 64 word \<Rightarrow> (64 word \<times> ('k, 'v) dictEntry list) option" where
  "scan_run [] v = Some (v, [])"
| "scan_run (d # ds) v = do {
     (_, v, es) \<leftarrow> dictScan d v;
     (v, es') \<leftarrow> scan_run ds v;
     Some (v, es @ es')
   }"

lemma key_in_dict:
  assumes "dict_ok d" and "dict_map d k \<noteq> None"
  shows "dictSize d \<noteq> 0" and "\<exists>x\<in>dict_entries d. dictGetKey x = k"
proof -
  have k: "k \<in> dict_keys d" using assms dom_dict_map by (metis domIff)
  then show "\<exists>x\<in>dict_entries d. dictGetKey x = k" by (auto simp: dict_entries_key)
  show "dictSize d \<noteq> 0" using k assms(1) by (auto simp: dictSize_kvs dict_keys_def)
qed

lemma scan_run_emits:
  assumes "\<And>d. d \<in> set ds \<Longrightarrow> dict_ok d \<and> dict_type d = type \<and> dict_map d k \<noteq> None"
    and "scan_pos v \<le> scan_pos (word_of_nat (hashFunction type k))"
    and "scan_run ds v = Some (0, es)" and "v = 0 \<Longrightarrow> ds \<noteq> []"
  shows "k \<in> dictGetKey ` set es"
  using assms
proof (induction ds arbitrary: v es)
  case Nil
  then show ?case by simp
next
  case (Cons d ds)
  let ?p = "scan_pos (word_of_nat (hashFunction type k))"
  have d: "dict_ok d" "dict_type d = type" "dict_map d k \<noteq> None" using Cons.prems(1) by auto
  note key = key_in_dict [OF d(1,3)]
  obtain v' es1 j where s: "dictScan d v = Some (d, v', es1)" "j \<le> 64"
    "scan_pos v' = (scan_pos v div 2 ^ j + 1) * 2 ^ j mod 2 ^ 64"
    "\<forall>x\<in>dict_entries d. scan_pos v \<le> entry_pos type x \<and>
       entry_pos type x div 2 ^ j = scan_pos v div 2 ^ j \<longrightarrow> x \<in> set es1"
    using dictScan_spec [OF d(1) key(1), of v] d(2) by auto
  obtain es2 where r: "scan_run ds v' = Some (0, es2)" "es = es1 @ es2"
    using Cons.prems(3) s(1) by (auto simp: bind_eq_Some_conv)
  obtain x where x: "x \<in> dict_entries d" "dictGetKey x = k" using key(2) by blast
  then have p: "entry_pos type x = ?p" by (simp add: entry_pos_def)
  show ?case
  proof (cases "?p div 2 ^ j = scan_pos v div 2 ^ j")
    case True
    then show ?thesis using s(4) x p Cons.prems(2) r(2) by auto
  next
    case False
    then have "scan_pos v div 2 ^ j + 1 \<le> ?p div 2 ^ j"
      using div_le_mono [OF Cons.prems(2), of "2 ^ j"] by simp
    then have "(scan_pos v div 2 ^ j + 1) * 2 ^ j \<le> ?p"
      by (metis div_times_less_eq_dividend mult_le_mono1 order_trans)
    moreover have "?p < 2 ^ 64" by (rule scan_pos_bound)
    ultimately have v': "scan_pos v' = (scan_pos v div 2 ^ j + 1) * 2 ^ j" "scan_pos v' \<le> ?p"
      using s(3) by auto
    then have "v' \<noteq> 0" by (metis add_is_0 mult_is_0 one_neq_zero power_not_zero scan_pos_0(2) zero_neq_numeral)
    then show ?thesis
      using Cons.IH [OF _ v'(2) r(1)] Cons.prems(1) r(2) by auto
  qed
qed

text \<open>The cursor after \<open>n\<close> calls.\<close>

fun scan_cursor :: "(nat \<Rightarrow> ('k, 'v) dict) \<Rightarrow> nat \<Rightarrow> 64 word option" where
  "scan_cursor f 0 = Some 0"
| "scan_cursor f (Suc n) = do { v \<leftarrow> scan_cursor f n; (_, v, _) \<leftarrow> dictScan (f n) v; Some v }"

lemma dictScan_cursor:
  assumes "dict_ok d"
  shows "\<exists>v' es. dictScan d v = Some (d, v', es) \<and> (v' = 0 \<or> scan_pos v < scan_pos v')"
proof (cases "dictSize d = 0")
  case False
  obtain v' es k where s: "dictScan d v = Some (d, v', es)" "k \<le> 64"
    "scan_pos v' = (scan_pos v div 2 ^ k + 1) * 2 ^ k mod 2 ^ 64"
    using dictScan_spec [OF assms False] by blast
  let ?P = "(scan_pos v div 2 ^ k + 1) * 2 ^ k"
  have lt: "scan_pos v < ?P" using dividend_less_div_times [of "2 ^ k" "scan_pos v"] by simp
  have "?P \<le> 2 ^ 64"
  proof -
    have K: "(2::nat) ^ 64 = 2 ^ (64 - k) * 2 ^ k" using s(2) by (simp flip: power_add)
    then have "scan_pos v div 2 ^ k < 2 ^ (64 - k)"
      using scan_pos_bound [of v] by (metis less_mult_imp_div_less)
    then show ?thesis unfolding K by (intro mult_le_mono1) simp
  qed
  then have "?P mod 2 ^ 64 = 0 \<or> ?P mod 2 ^ 64 = ?P" by (cases "?P = 2 ^ 64") auto
  then show ?thesis using s lt scan_pos_0(2) [of v'] by auto
qed (simp add: dictScan_def)

lemma scan_cursor_progress:
  assumes "\<And>n. dict_ok (f n)"
  shows "(\<exists>m<n. scan_cursor f (Suc m) = Some 0) \<or> (\<exists>v. scan_cursor f n = Some v \<and> n \<le> scan_pos v)"
proof (induction n)
  case (Suc n)
  then show ?case
  proof
    assume "\<exists>v. scan_cursor f n = Some v \<and> n \<le> scan_pos v"
    then obtain v where v: "scan_cursor f n = Some v" "n \<le> scan_pos v" by blast
    obtain v' es where "dictScan (f n) v = Some (f n, v', es)" "v' = 0 \<or> scan_pos v < scan_pos v'"
      using dictScan_cursor [OF assms] by blast
    then show ?case using v by (auto simp: less_Suc_eq)
  qed (auto simp del: scan_cursor.simps)
qed simp

lemma scan_run_snoc:
  "scan_run (ds @ [d]) v = do { (v, es) \<leftarrow> scan_run ds v; (_, v, es') \<leftarrow> dictScan d v; Some (v, es @ es') }"
proof (induction ds arbitrary: v)
  case (Cons x ds)
  show ?case
    by (simp add: Cons.IH split_def)
qed (simp add: split_def)

lemma scan_run_cursor:
  assumes "scan_cursor f n = Some v"
  shows "\<exists>es. scan_run (map f [0..<n]) 0 = Some (v, es)"
  using assms
proof (induction n arbitrary: v)
  case (Suc n)
  then obtain u d es where u: "scan_cursor f n = Some u" "dictScan (f n) u = Some (d, v, es)"
    by (auto simp: bind_eq_Some_conv)
  moreover obtain es' where "scan_run (map f [0..<n]) 0 = Some (u, es')"
    using Suc.IH [OF u(1)] by blast
  ultimately show ?case by (simp add: scan_run_snoc)
qed simp

text \<open>C5: The guarantee of \<^verbatim>\<open>SCAN\<close>. If a key is in the dict at every call of a scan that starts with the
  cursor 0 and goes on until the cursor is 0 again, the scan returns it, even if the
  dict is filled, emptied, rehashed, grown and shrunk in between.\<close>

theorem dictScan_complete:
  assumes "\<And>d. d \<in> set ds \<Longrightarrow> dict_ok d \<and> dict_type d = type \<and> dict_map d k \<noteq> None"
    and "scan_run ds 0 = Some (0, es)" and "ds \<noteq> []"
  shows "k \<in> dictGetKey ` set es"
  using scan_run_emits [OF assms(1) _ assms(2)] assms(3) by simp

theorem dictScan_complete_witness:
  "\<exists>n es. scan_run (replicate n demo_dict) 0 = Some (0, es) \<and> 5 \<in> dictGetKey ` set es \<and> 8 \<in> dictGetKey ` set es"
proof -
  obtain n where "scan_cursor (\<lambda>_. demo_dict) (Suc n) = Some 0"
    using scan_cursor_progress [of "\<lambda>_. demo_dict" "2 ^ 64"] demo_dict_ok scan_pos_bound by (metis not_le)
  then obtain es where "scan_run (map (\<lambda>_. demo_dict) [0..<Suc n]) 0 = Some (0, es)"
    using scan_run_cursor by blast
  then have es: "scan_run (replicate (Suc n) demo_dict) 0 = Some (0, es)"
    by (simp only: map_replicate_const length_upt diff_zero)
  have "k \<in> dictGetKey ` set es" if "dict_map demo_dict k \<noteq> None" for k
  proof (rule dictScan_complete [OF _ es])
    show "dict_ok d \<and> dict_type d = dict_type demo_dict \<and> dict_map d k \<noteq> None"
      if "d \<in> set (replicate (Suc n) demo_dict)" for d
      using that \<open>dict_map demo_dict k \<noteq> None\<close> demo_dict_ok by (metis in_set_replicate)
  qed simp
  moreover have "dict_map demo_dict 5 \<noteq> None" "dict_map demo_dict 8 \<noteq> None" by (simp_all add: demo_dict_map)
  ultimately show ?thesis using es by blast
qed

text \<open>C12: A scan ends: whatever the states of the dict are at its calls, the cursor gets back to 0.\<close>

theorem dictScan_terminates:
  assumes "\<And>n. dict_ok (f n)"
  shows "\<exists>n. scan_cursor f (Suc n) = Some 0"
  using scan_cursor_progress [of f "2 ^ 64", OF assms] scan_pos_bound by (metis not_le)

theorem dictScan_terminates_witness: "\<exists>n. scan_cursor (\<lambda>_. demo_dict) (Suc n) = Some 0"
  using demo_dict_ok by (rule dictScan_terminates)

text \<open>One call returns only entries of the dict, together with the whole bucket of the cursor, and leaves
  the dict as it was, with rehashing paused only during the call.\<close>

theorem dictScan_sound:
  assumes "dict_ok d"
  shows "\<exists>v' es. dictScan d v = Some (d, v', es) \<and>
     (\<forall>x\<in>set es. dict_map d (dictGetKey x) = Some (entry_val x))"
proof (cases "dictSize d = 0")
  case False
  obtain v' es where s: "dictScan d v = Some (d, v', es)" "set es \<subseteq> dict_entries d"
    using dictScan_spec [OF assms False] by blast
  have "dict_map d (dictGetKey x) = Some (entry_val x)" if "x \<in> dict_entries d" for x
  proof -
    have "kv x \<in># dict_kvs d"
      using that by (auto simp: dict_entries_def ht_entries_def dict_kvs_def ht_kvs_def)
    then show ?thesis using dict_map_Some [OF assms] by (simp add: kv_def)
  qed
  then show ?thesis using s by blast
qed (simp add: dictScan_def)

theorem dictScan_sound_witness:
  "\<exists>v' es. dictScan demo_dict 1 = Some (demo_dict, v', es) \<and>
     (\<forall>x\<in>set es. dict_map demo_dict (dictGetKey x) = Some (entry_val x))"
  by (rule dictScan_sound [OF demo_dict_ok])

end
