(* ===== verification/Dict_Iter.thy ===== *)
theory Dict_Iter
  imports Dict_Spec "HOL-Library.Word"
begin

text \<open>
  The rest of \<^verbatim>\<open>dict.c\<close>: emptying a dict, iterators with the fingerprint that detects their misuse, and
  the time-limited rehash.
\<close>

subsection \<open>Emptying\<close>

text \<open>The loop that frees the entries of a chain counts each of them out; the table is then reset.\<close>

fun clear_chain :: "nat \<Rightarrow> ('k, 'v) dictEntry list \<Rightarrow> nat" where
  "clear_chain used [] = used"
| "clear_chain used (he # rest) = clear_chain (ulong_dec used) (dictGetNext he rest)"

function clear_buckets :: "('k, 'v) ht \<Rightarrow> nat \<Rightarrow> nat \<Rightarrow> nat option" where
  "clear_buckets h i used =
     (if i < DICTHT_SIZE (ht_size_exp h) \<and> used > 0 then do {
        b \<leftarrow> get_bucket h i;
        clear_buckets h (i + 1) (clear_chain used b)
      } else Some used)"
  by pat_completeness auto
termination by (relation "measure (\<lambda>(h, i, _). DICTHT_SIZE (ht_size_exp h) - i)") auto

declare clear_buckets.simps [simp del]

definition dictClear :: "('k, 'v) dict \<Rightarrow> nat \<Rightarrow> ('k, 'v) dict option" where
  "dictClear d htidx = do {
     _ \<leftarrow> clear_buckets (dict_ht d htidx) 0 (ht_used (dict_ht d htidx));
     Some (set_ht d htidx dictReset)
   }"

definition dictEmpty :: "('k, 'v) dict \<Rightarrow> ('k, 'v) dict option" where
  "dictEmpty d = do {
     let d = (if dictIsRehashing d then notifyCompleted d else d);
     d \<leftarrow> dictClear d 0;
     d \<leftarrow> dictClear d 1;
     Some (d\<lparr>rehashidx := -1, pauserehash := 0, pauseAutoResize := 0\<rparr>)
   }"

text \<open>Before the dict is freed; what remains to be seen of it are the events.\<close>

definition dictRelease :: "('k, 'v) dict \<Rightarrow> ('k, 'v) dict option" where
  "dictRelease d = do {
     let d = (if dictIsRehashing d then notifyCompleted d else d);
     d \<leftarrow> dictClear d 0;
     dictClear d 1
   }"

subsection \<open>Rehashing for a limited time\<close>

text \<open>\<open>late n\<close> is whether the time is over when the clock is read for the \<open>n\<close>-th time.\<close>

partial_function (option) rehash_timed :: "dictResizeEnable \<Rightarrow> (nat \<Rightarrow> bool) \<Rightarrow> nat \<Rightarrow> ('k, 'v) dict \<Rightarrow> nat \<Rightarrow>
    (('k, 'v) dict \<times> nat) option" where
  "rehash_timed cr late n d rehashes = do {
     (d, more) \<leftarrow> dictRehash cr d 100;
     if \<not> more then Some (d, rehashes)
     else if late n then Some (d, rehashes + 100)
     else rehash_timed cr late (n + 1) d (rehashes + 100)
   }"

definition dictRehashMicroseconds :: "dictResizeEnable \<Rightarrow> (nat \<Rightarrow> bool) \<Rightarrow> ('k, 'v) dict \<Rightarrow>
    (('k, 'v) dict \<times> nat) option" where
  "dictRehashMicroseconds cr late d =
     (if pauserehash d > 0 then Some (d, 0) else rehash_timed cr late 0 d 0)"

subsection \<open>Iterators\<close>

text \<open>The addresses of the two tables enter the fingerprint; \<open>a i\<close> is the address of table \<open>i\<close>.\<close>

definition fingerprint_mix :: "64 word \<Rightarrow> 64 word" where
  "fingerprint_mix h =
     (let h = NOT h + push_bit 21 h;
          h = h XOR drop_bit 24 h;
          h = (h + push_bit 3 h) + push_bit 8 h;
          h = h XOR drop_bit 14 h;
          h = (h + push_bit 2 h) + push_bit 4 h;
          h = h XOR drop_bit 28 h
      in h + push_bit 31 h)"

fun fingerprint_loop :: "64 word list \<Rightarrow> 64 word \<Rightarrow> 64 word" where
  "fingerprint_loop [] h = h"
| "fingerprint_loop (i # integers) h = fingerprint_loop integers (fingerprint_mix (h + i))"

definition dictFingerprint :: "(nat \<Rightarrow> 64 word) \<Rightarrow> ('k, 'v) dict \<Rightarrow> 64 word" where
  "dictFingerprint a d = fingerprint_loop
     [a 0, word_of_int (ht_size_exp (ht0 d)), word_of_nat (ht_used (ht0 d)),
      a 1, word_of_int (ht_size_exp (ht1 d)), word_of_nat (ht_used (ht1 d))] 0"

text \<open>The pointer \<^verbatim>\<open>nextEntry\<close> is the part of the chain that starts with it.\<close>

record ('k, 'v) dictIterator =
  it_index :: int
  it_table :: nat
  it_safe :: bool
  it_entry :: "('k, 'v) dictEntry option"
  it_nextEntry :: "('k, 'v) dictEntry list"
  it_fingerprint :: "64 word"

definition dictInitIterator :: "('k, 'v) dictIterator" where
  "dictInitIterator = \<lparr>it_index = -1, it_table = 0, it_safe = False, it_entry = None, it_nextEntry = [],
     it_fingerprint = 0\<rparr>"

definition dictInitSafeIterator :: "('k, 'v) dictIterator" where
  "dictInitSafeIterator = dictInitIterator\<lparr>it_safe := True\<rparr>"

definition it_fresh :: "('k, 'v) dictIterator \<Rightarrow> bool" where
  "it_fresh it \<longleftrightarrow> it_index it = -1 \<and> it_table it = 0"

definition dictResetIterator :: "(nat \<Rightarrow> 64 word) \<Rightarrow> ('k, 'v) dict \<Rightarrow> ('k, 'v) dictIterator \<Rightarrow> ('k, 'v) dict option" where
  "dictResetIterator a d it =
     (if \<not> it_fresh it then
        if it_safe it then do {
          let d = d\<lparr>pauserehash := pauserehash d - 1\<rparr>;
          c_assert (pauserehash d \<ge> 0);
          Some d
        }
        else do { c_assert (it_fingerprint it = dictFingerprint a d); Some d }
      else Some d)"

text \<open>What the first call of \<^verbatim>\<open>dictNext\<close> does to the dict and the iterator.\<close>

definition it_start :: "(nat \<Rightarrow> 64 word) \<Rightarrow> ('k, 'v) dict \<Rightarrow> ('k, 'v) dictIterator \<Rightarrow>
    ('k, 'v) dict \<times> ('k, 'v) dictIterator" where
  "it_start a d it =
     (if it_fresh it then
        let d' = (if it_safe it then d\<lparr>pauserehash := pauserehash d + 1\<rparr> else d);
            it = (if it_safe it then it else it\<lparr>it_fingerprint := dictFingerprint a d\<rparr>);
            it = (if dictIsRehashing d then it\<lparr>it_index := rehashidx d - 1\<rparr> else it)
        in (d', it)
      else (d, it))"

text \<open>Go to the next bucket: \<open>None\<close> in the second component is the break out of the loop.\<close>

definition it_advance :: "('k, 'v) dict \<Rightarrow> ('k, 'v) dictIterator \<Rightarrow> (('k, 'v) dictIterator \<times> bool)" where
  "it_advance d it =
     (let it = it\<lparr>it_index := it_index it + 1\<rparr> in
      if it_index it \<ge> int (DICTHT_SIZE (ht_size_exp (dict_ht d (it_table it)))) then
        if dictIsRehashing d \<and> it_table it = 0 then (it\<lparr>it_table := 1, it_index := 0\<rparr>, True) else (it, False)
      else (it, True))"

definition it_set :: "('k, 'v) dictIterator \<Rightarrow> ('k, 'v) dictEntry list \<Rightarrow> ('k, 'v) dictIterator" where
  "it_set it chain =
     (case chain of
        [] \<Rightarrow> it\<lparr>it_entry := None\<rparr>
      | e # rest \<Rightarrow> it\<lparr>it_entry := Some e, it_nextEntry := dictGetNext e rest\<rparr>)"

partial_function (option) dictNext :: "(nat \<Rightarrow> 64 word) \<Rightarrow> ('k, 'v) dict \<Rightarrow> ('k, 'v) dictIterator \<Rightarrow>
    (('k, 'v) dict \<times> ('k, 'v) dictIterator \<times> ('k, 'v) dictEntry option) option" where
  "dictNext a d it =
     (if it_entry it = None then
        (case it_start a d it of (d, it) \<Rightarrow>
         case it_advance d it of (it, go) \<Rightarrow>
         if \<not> go then Some (d, it, None)
         else do {
           chain \<leftarrow> get_bucket (dict_ht d (it_table it)) (nat (it_index it));
           let it = it_set it chain;
           if it_entry it \<noteq> None then Some (d, it, it_entry it) else dictNext a d it
         })
      else
        let it = it_set it (it_nextEntry it) in
        if it_entry it \<noteq> None then Some (d, it, it_entry it) else dictNext a d it)"

text \<open>The loop of a client that calls \<^verbatim>\<open>dictNext\<close> until it returns NULL.\<close>

partial_function (option) iterate :: "(nat \<Rightarrow> 64 word) \<Rightarrow> ('k, 'v) dict \<Rightarrow> ('k, 'v) dictIterator \<Rightarrow>
    ('k, 'v) dictEntry list \<Rightarrow> (('k, 'v) dict \<times> ('k, 'v) dictIterator \<times> ('k, 'v) dictEntry list) option" where
  "iterate a d it acc = do {
     (d, it, e) \<leftarrow> dictNext a d it;
     case e of None \<Rightarrow> Some (d, it, acc) | Some e \<Rightarrow> iterate a d it (acc @ [e])
   }"

subsection \<open>An iteration visits every entry once\<close>

text \<open>The entries that are still to be visited.\<close>

definition it_buckets :: "('k, 'v) dict \<Rightarrow> ('k, 'v) dictIterator \<Rightarrow> ('k, 'v) dictEntry list list" where
  "it_buckets d it = drop (nat (it_index it + 1)) (ht_table (dict_ht d (it_table it))) @
     (if dictIsRehashing d \<and> it_table it = 0 then ht_table (ht1 d) else [])"

definition it_rest :: "('k, 'v) dict \<Rightarrow> ('k, 'v) dictIterator \<Rightarrow> ('k, 'v) dictEntry list" where
  "it_rest d it = (if it_entry it = None then [] else it_nextEntry it) @ concat (it_buckets d it)"

definition it_ok :: "('k, 'v) dict \<Rightarrow> ('k, 'v) dictIterator \<Rightarrow> bool" where
  "it_ok d it \<longleftrightarrow> -1 \<le> it_index it \<and> (it_table it = 0 \<or> it_table it = 1 \<and> dictIsRehashing d) \<and>
     (it_entry it \<noteq> None \<longrightarrow> chain_ok (dict_type d) (it_nextEntry it))"

text \<open>Both agree on what the end of an iteration looks at.\<close>

definition it_same :: "('k, 'v) dictIterator \<Rightarrow> ('k, 'v) dictIterator \<Rightarrow> bool" where
  "it_same it it' \<longleftrightarrow> it_safe it' = it_safe it \<and> it_fingerprint it' = it_fingerprint it"

lemma table_length: "ht_ok type h \<Longrightarrow> length (ht_table h) = DICTHT_SIZE (ht_size_exp h)"
  by (auto simp: ht_ok_def DICTHT_SIZE_def)

lemma dict_ht_ok: "dict_ok d \<Longrightarrow> ht_ok (dict_type d) (dict_ht d t)"
  by (simp add: dict_ht_def dict_okD)

lemma it_advance_spec:
  assumes d: "dict_ok d" and it: "it_ok d it"
  shows "case it_buckets d it of
     [] \<Rightarrow> \<exists>i. 0 \<le> i \<and> it_advance d it = (it\<lparr>it_index := i\<rparr>, False)
   | b # bs \<Rightarrow> \<exists>i t. 0 \<le> i \<and> it_advance d it = (it\<lparr>it_index := i, it_table := t\<rparr>, True) \<and>
       get_bucket (dict_ht d t) (nat i) = Some b \<and> it_ok d (it\<lparr>it_index := i, it_table := t\<rparr>) \<and>
       it_buckets d (it\<lparr>it_index := i, it_table := t\<rparr>) = bs \<and> chain_ok (dict_type d) b"
proof -
  let ?t = "it_table it" and ?i = "it_index it + 1"
  let ?T = "ht_table (dict_ht d ?t)"
  have i: "0 \<le> ?i" using it by (simp add: it_ok_def)
  have len: "length ?T = DICTHT_SIZE (ht_size_exp (dict_ht d ?t))"
    by (rule table_length [OF dict_ht_ok [OF d]])
  have chain: "j < length (ht_table (dict_ht d t)) \<Longrightarrow> chain_ok (dict_type d) (ht_table (dict_ht d t) ! j)" for t j
    using dict_ht_ok [OF d, of t] by (simp add: ht_ok_def bucket_ok_def)
  show ?thesis
  proof (cases "nat ?i < length ?T")
    case True
    then have "it_buckets d it = ?T ! nat ?i # it_buckets d (it\<lparr>it_index := ?i, it_table := ?t\<rparr>)"
      using i by (simp add: it_buckets_def Cons_nth_drop_Suc [symmetric] nat_add_distrib Suc_nat_eq_nat_zadd1)
    moreover have "it_advance d it = (it\<lparr>it_index := ?i, it_table := ?t\<rparr>, True)"
      using True len i by (simp add: it_advance_def Let_def nat_less_iff)
    moreover have "it_ok d (it\<lparr>it_index := ?i\<rparr>)" using it i by (auto simp: it_ok_def)
    ultimately show ?thesis
      using True i chain [OF True] by (auto intro!: exI [of _ ?i] exI [of _ ?t] simp: get_bucket_def)
  next
    case False
    then have last: "int (DICTHT_SIZE (ht_size_exp (dict_ht d ?t))) \<le> ?i" using len i by simp
    show ?thesis
    proof (cases "dictIsRehashing d \<and> ?t = 0")
      case True
      then have "ht_table (ht1 d) \<noteq> []"
        using dict_okD(2,4) [OF d] table_length [of _ "ht1 d"] by (auto simp: DICTHT_SIZE_def)
      then obtain b bs where b: "ht_table (ht1 d) = b # bs" by (cases "ht_table (ht1 d)") auto
      then have "it_buckets d it = b # bs" using False True by (simp add: it_buckets_def)
      moreover have "it_advance d it = (it\<lparr>it_index := 0, it_table := 1\<rparr>, True)"
        using last True by (simp add: it_advance_def Let_def)
      ultimately show ?thesis
        using True b it chain [of 0 1]
        by (auto intro!: exI [of _ "0 :: int"] exI [of _ "1 :: nat"] simp: get_bucket_def it_ok_def dict_ht_def it_buckets_def)
    next
      case nr: False
      then have "it_buckets d it = []" using False by (auto simp: it_buckets_def)
      then show ?thesis
        using last nr i by (auto simp: it_advance_def Let_def intro!: exI [of _ ?i])
    qed
  qed
qed

lemma it_start_started: "\<not> it_fresh it \<Longrightarrow> it_start a d it = (d, it)"
  by (simp add: it_start_def)

lemma it_set_simps [simp]:
  "it_set it [] = it\<lparr>it_entry := None\<rparr>"
  "it_set it (e # rest) = it\<lparr>it_entry := Some e, it_nextEntry := dictGetNext e rest\<rparr>"
  by (simp_all add: it_set_def)

text \<open>What a call returns when it goes on to the next bucket, after the start of the iteration.\<close>

definition next_result :: "('k, 'v) dict \<Rightarrow> ('k, 'v) dictIterator \<Rightarrow>
    (('k, 'v) dict \<times> ('k, 'v) dictIterator \<times> ('k, 'v) dictEntry option) option \<Rightarrow> bool" where
  "next_result d it r \<longleftrightarrow> (case it_rest d it of
       [] \<Rightarrow> \<exists>it'. r = Some (d, it', None) \<and> it_same it it' \<and> \<not> it_fresh it'
     | e # es \<Rightarrow> \<exists>it'. r = Some (d, it', Some e) \<and> it_same it it' \<and> \<not> it_fresh it' \<and> it_ok d it' \<and> it_rest d it' = es)"

lemma next_result_cong:
  "it_rest d it = it_rest d it2 \<Longrightarrow> it_same it = it_same it2 \<Longrightarrow> next_result d it r = next_result d it2 r"
  by (simp add: next_result_def cong: list.case_cong)

lemma next_bucket:
  assumes d: "dict_ok d" and "it_ok d it" and "it_entry it = None" and "it_start a d0 it0 = (d, it)"
    and "it_entry it0 = None"
  shows "next_result d it (dictNext a d0 it0)"
  using assms(2-)
proof (induction "length (it_buckets d it)" arbitrary: it d0 it0)
  case 0
  then obtain i where "0 \<le> i" "it_advance d it = (it\<lparr>it_index := i\<rparr>, False)"
    using it_advance_spec [OF d 0(2)] by auto
  then show ?case
    using 0 by (subst dictNext.simps) (auto simp: next_result_def it_rest_def it_same_def it_fresh_def)
next
  case (Suc n)
  then obtain b bs where bs: "it_buckets d it = b # bs" by (cases "it_buckets d it") auto
  obtain i t where adv: "0 \<le> i" "it_advance d it = (it\<lparr>it_index := i, it_table := t\<rparr>, True)"
    "get_bucket (dict_ht d t) (nat i) = Some b" "it_ok d (it\<lparr>it_index := i, it_table := t\<rparr>)"
    "it_buckets d (it\<lparr>it_index := i, it_table := t\<rparr>) = bs" "chain_ok (dict_type d) b"
    using it_advance_spec [OF d Suc.prems(1)] bs by auto
  let ?it = "it\<lparr>it_index := i, it_table := t\<rparr>"
  have nf: "\<not> it_fresh ?it" using adv(1) by (simp add: it_fresh_def)
  show ?case
  proof (cases b)
    case Nil
    have eq: "it\<lparr>it_index := i, it_table := t, it_entry := None\<rparr> = ?it"
      using Suc.prems(2) by (cases it) auto
    have "next_result d ?it (dictNext a d ?it)"
      using Suc bs adv Suc.prems nf by (intro Suc.hyps(1)) (auto simp: it_start_started)
    moreover have "dictNext a d0 it0 = dictNext a d ?it"
      using Suc.prems adv Nil by (subst dictNext.simps) (simp add: eq)
    ultimately show ?thesis
      using Nil bs adv(5) Suc.prems(2) next_result_cong [of d it ?it] by (simp add: it_rest_def it_same_def fun_eq_iff)
  next
    case (Cons e rest)
    let ?it' = "?it\<lparr>it_entry := Some e, it_nextEntry := rest\<rparr>"
    have g: "dictGetNext e rest = rest" "chain_ok (dict_type d) rest" using adv(6) Cons by auto
    then have "dictNext a d0 it0 = Some (d, ?it', Some e)"
      using Suc.prems adv Cons by (subst dictNext.simps) simp
    moreover have "it_buckets d ?it' = bs" using adv(5) by (simp add: it_buckets_def)
    moreover have "it_ok d ?it'" using adv(4) g(2) by (simp add: it_ok_def)
    ultimately show ?thesis
      using bs Cons nf Suc.prems(2) by (simp add: next_result_def it_rest_def it_same_def it_fresh_def)
  qed
qed

lemma dictNext_started:
  assumes d: "dict_ok d" and it: "it_ok d it" and f: "\<not> it_fresh it"
  shows "next_result d it (dictNext a d it)"
proof (cases "it_entry it = None")
  case True
  then show ?thesis using d it f by (intro next_bucket) (auto simp: it_start_started)
next
  case False
  then obtain y where y: "it_entry it = Some y" by blast
  show ?thesis
  proof (cases "it_nextEntry it")
    case Nil
    let ?it = "it\<lparr>it_entry := None\<rparr>"
    have "it_buckets d ?it = it_buckets d it" by (simp add: it_buckets_def)
    moreover have "next_result d ?it (dictNext a d ?it)"
      using d it f by (intro next_bucket) (auto simp: it_start_started it_fresh_def it_ok_def)
    moreover have "dictNext a d it = dictNext a d ?it"
      using Nil y by (subst dictNext.simps) simp
    ultimately show ?thesis
      using Nil y next_result_cong [of d it ?it] by (simp add: it_rest_def it_same_def fun_eq_iff)
  next
    case (Cons e rest)
    let ?it' = "it\<lparr>it_entry := Some e, it_nextEntry := rest\<rparr>"
    have g: "dictGetNext e rest = rest" "chain_ok (dict_type d) rest"
      using it False Cons by (auto simp: it_ok_def)
    then have "dictNext a d it = Some (d, ?it', Some e)"
      using y Cons by (subst dictNext.simps) simp
    moreover have "it_buckets d ?it' = it_buckets d it" by (simp add: it_buckets_def)
    moreover have "it_ok d ?it'" using it g(2) by (simp add: it_ok_def)
    ultimately show ?thesis
      using Cons y f by (simp add: next_result_def it_rest_def it_same_def it_fresh_def)
  qed
qed

lemma iterate_started:
  assumes "dict_ok d" and "it_ok d it" and "\<not> it_fresh it"
  shows "\<exists>it'. iterate a d it acc = Some (d, it', acc @ it_rest d it) \<and> it_same it it' \<and> \<not> it_fresh it'"
  using assms(2,3)
proof (induction "it_rest d it" arbitrary: it acc)
  case Nil
  then show ?case
    using dictNext_started [OF assms(1) Nil(2,3), of a]
    by (subst iterate.simps) (auto simp: next_result_def)
next
  case (Cons e es)
  obtain it' where it': "dictNext a d it = Some (d, it', Some e)" "it_same it it'" "\<not> it_fresh it'" "it_ok d it'"
    "it_rest d it' = es"
    using dictNext_started [OF assms(1) Cons(3,4), of a] Cons(2) [symmetric] by (auto simp: next_result_def)
  then obtain it'' where "iterate a d it' (acc @ [e]) = Some (d, it'', (acc @ [e]) @ es)" "it_same it' it''"
    "\<not> it_fresh it''"
    using Cons(1) [of it' "acc @ [e]"] by auto
  then show ?case
    using it' Cons(2) [symmetric] by (subst iterate.simps) (auto simp: it_same_def)
qed

lemma concat_drop_empty:
  assumes "n \<le> length xs" and "\<forall>i<n. xs ! i = []"
  shows "concat (drop n xs) = concat xs"
proof -
  have "concat (take n xs) = []"
    using assms by (auto simp: in_set_conv_nth)
  then show ?thesis by (metis append_Nil append_take_drop_id concat_append)
qed

lemma it_start_spec:
  assumes d: "dict_ok d" and it: "it = dictInitIterator\<lparr>it_safe := safe\<rparr>"
  shows "\<exists>d' it'. it_start a d it = (d', it') \<and> dict_ok d' \<and> it_ok d' it' \<and> it_entry it' = None \<and> it_safe it' = safe \<and>
     d' = (if safe then d\<lparr>pauserehash := pauserehash d + 1\<rparr> else d) \<and>
     (\<not> safe \<longrightarrow> it_fingerprint it' = dictFingerprint a d) \<and>
     it_rest d' it' = concat (ht_table (ht0 d)) @ concat (ht_table (ht1 d))"
proof -
  note ok = dict_okD [OF d]
  have c: "concat (drop (nat (rehashidx d)) (ht_table (ht0 d))) = concat (ht_table (ht0 d))" if "dictIsRehashing d"
    using ok(4) [OF that] by (intro concat_drop_empty) auto
  show ?thesis
  proof (cases "dictIsRehashing d")
    case True
    then show ?thesis
      using d it c ok(4)
      by (auto simp: it_start_def it_fresh_def dictInitIterator_def it_ok_def it_rest_def it_buckets_def dict_ht_def
          dictIsRehashing_def Let_def)
  next
    case False
    then show ?thesis
      using d it ok(5)
      by (auto simp: it_start_def it_fresh_def dictInitIterator_def it_ok_def it_rest_def it_buckets_def dict_ht_def
          dictIsRehashing_def Let_def dictReset_def)
  qed
qed

lemma dictFingerprint_pause [simp]: "dictFingerprint a (d\<lparr>pauserehash := p\<rparr>) = dictFingerprint a d"
  by (simp add: dictFingerprint_def)

lemma iterate_spec:
  assumes d: "dict_ok d" and p: "safe \<longrightarrow> 0 \<le> pauserehash d"
  shows "\<exists>d' it'. iterate a d (dictInitIterator\<lparr>it_safe := safe\<rparr>) [] =
       Some (d', it', concat (ht_table (ht0 d)) @ concat (ht_table (ht1 d))) \<and>
     dictResetIterator a d' it' = Some d"
proof -
  let ?it0 = "dictInitIterator\<lparr>it_safe := safe\<rparr>"
  obtain d' it where s: "it_start a d ?it0 = (d', it)" "dict_ok d'" "it_ok d' it" "it_entry it = None" "it_safe it = safe"
    "d' = (if safe then d\<lparr>pauserehash := pauserehash d + 1\<rparr> else d)"
    "\<not> safe \<longrightarrow> it_fingerprint it = dictFingerprint a d"
    "it_rest d' it = concat (ht_table (ht0 d)) @ concat (ht_table (ht1 d))"
    using it_start_spec [OF d refl] by blast
  have r: "dictResetIterator a d' it' = Some d" if "it_same it it'" "\<not> it_fresh it'" for it'
    using that s(5-7) p by (auto simp: dictResetIterator_def it_same_def Let_def)
  have n: "next_result d' it (dictNext a d ?it0)"
    using s by (intro next_bucket) (auto simp: dictInitIterator_def)
  show ?thesis
  proof (cases "it_rest d' it")
    case Nil
    then obtain it' where it': "dictNext a d ?it0 = Some (d', it', None)" "it_same it it'" "\<not> it_fresh it'"
      using n by (auto simp: next_result_def)
    then show ?thesis
      unfolding s(8) [symmetric] Nil using r [OF it'(2,3)] by (subst iterate.simps) simp
  next
    case (Cons e es)
    then obtain it' where it': "dictNext a d ?it0 = Some (d', it', Some e)" "it_same it it'" "\<not> it_fresh it'"
      "it_ok d' it'" "it_rest d' it' = es"
      using n by (auto simp: next_result_def)
    obtain it'' where "iterate a d' it' [e] = Some (d', it'', [e] @ es)" "it_same it' it''" "\<not> it_fresh it''"
      using iterate_started [OF s(2) it'(4,3), of a "[e]"] it'(5) by auto
    then show ?thesis
      unfolding s(8) [symmetric] Cons using it'(1,2) r [of it'']
      by (subst iterate.simps) (auto simp: it_same_def)
  qed
qed

lemma entries_map:
  assumes "dict_ok d" and "mset (map kv es) = dict_kvs d"
  shows "distinct (map dictGetKey es)" and "dict_map d = map_of (map kv es)"
proof -
  have m: "mset (map dictGetKey es) = image_mset fst (dict_kvs d)"
    by (simp add: assms(2) [symmetric] multiset.map_comp comp_def kv_def)
  then have "\<forall>k. count (mset (map dictGetKey es)) k \<le> 1" using dict_okD(3) [OF assms(1)] by simp
  then show dist: "distinct (map dictGetKey es)"
    by (rule distinct_count_le_1)
  then have "distinct (map fst (map kv es))" by (simp add: comp_def kv_def)
  then show "dict_map d = map_of (map kv es)"
    using dict_map_Some [OF assms(1)] assms(2) [symmetric]
    by (intro ext option_eqI) (auto simp: image_iff)
qed

text \<open>C13: Iterating over a dict, also in the middle of a rehash, returns every key exactly once, with its
  value, and then NULL. Releasing the iterator passes its checks and leaves the dict as it was.\<close>

theorem iterate_visits_all:
  assumes "dict_ok d" and "safe \<Longrightarrow> 0 \<le> pauserehash d"
  shows "\<exists>d' it' es. iterate a d (dictInitIterator\<lparr>it_safe := safe\<rparr>) [] = Some (d', it', es) \<and>
     distinct (map dictGetKey es) \<and> dict_map d = map_of (map kv es) \<and> dictResetIterator a d' it' = Some d"
proof -
  let ?es = "concat (ht_table (ht0 d)) @ concat (ht_table (ht1 d))"
  have "mset (map kv ?es) = dict_kvs d" by (simp add: dict_kvs_def ht_kvs_def)
  then show ?thesis using iterate_spec [of d safe a] assms entries_map [OF assms(1), of ?es] by blast
qed

theorem iterate_visits_all_witness:
  "\<exists>d' it' es. iterate (\<lambda>_. 4096) demo_dict dictInitSafeIterator [] = Some (d', it', es) \<and>
     map_of (map kv es) 8 = Some (Some 80) \<and> dictResetIterator (\<lambda>_. 4096) d' it' = Some demo_dict"
proof -
  obtain d' it' es where "iterate (\<lambda>_. 4096) demo_dict (dictInitIterator\<lparr>it_safe := True\<rparr>) [] = Some (d', it', es)"
    "dict_map demo_dict = map_of (map kv es)" "dictResetIterator (\<lambda>_. 4096) d' it' = Some demo_dict"
    using iterate_visits_all [OF demo_dict_ok, of True "\<lambda>_. 4096"] by (simp only: demo_dict_map(2)) blast
  moreover from this(2) have "map_of (map kv es) = dict_map demo_dict" by simp
  then have "map_of (map kv es) 8 = Some (Some 80)" by (simp add: demo_dict_map(1))
  ultimately show ?thesis
    by (intro exI [of _ d'] exI [of _ it'] exI [of _ es]) (simp add: dictInitSafeIterator_def)
qed

subsection \<open>The fingerprint\<close>

lemma inj_xor_shift:
  assumes "0 < s"
  shows "inj (\<lambda>x :: 64 word. x XOR drop_bit s x)"
proof (rule injI)
  fix x y :: "64 word" assume e: "x XOR drop_bit s x = y XOR drop_bit s y"
  have "bit x n = bit y n" for n
  proof (induction "64 - n" arbitrary: n rule: less_induct)
    case less
    show ?case
    proof (cases "n < 64")
      case True
      then have "bit x (n + s) = bit y (n + s)" using assms by (intro less) simp
      moreover have "bit (x XOR drop_bit s x) n = bit (y XOR drop_bit s y) n" using e by simp
      ultimately show ?thesis by (auto simp: bit_simps add.commute)
    next
      case False
      then show ?thesis using bit_imp_le_length [of x n] bit_imp_le_length [of y n] by auto
    qed
  qed
  then show "x = y" by (simp add: bit_eq_iff)
qed

lemma inj_odd_mult: "c * c' = (1 :: 64 word) \<Longrightarrow> inj (\<lambda>x. x * c)"
  by (rule inj_on_inverseI [where g = "\<lambda>x. x * c'"]) (simp add: mult.assoc)

lemma inj_fingerprint_mix: "inj fingerprint_mix"
proof -
  let ?m = "\<lambda>c x :: 64 word. x * c" and ?x = "\<lambda>s x :: 64 word. x XOR drop_bit s x"
  have e: "fingerprint_mix = ?m 2147483649 \<circ> ?x 28 \<circ> ?m 21 \<circ> ?x 14 \<circ> ?m 265 \<circ> ?x 24 \<circ> (\<lambda>x. x - 1) \<circ> ?m 2097151"
    by (rule ext) (simp add: fingerprint_mix_def Let_def push_bit_eq_mult not_eq_complement algebra_simps)
  have "inj (?m 2147483649)" by (rule inj_odd_mult [of _ 4611686016279904257]) simp
  moreover have "inj (?m 21)" by (rule inj_odd_mult [of _ 14933078535860113213]) simp
  moreover have "inj (?m 265)" by (rule inj_odd_mult [of _ 15244667743933553977]) simp
  moreover have "inj (?m 2097151)" by (rule inj_odd_mult [of _ 9223367638806167551]) simp
  moreover have "inj (\<lambda>x :: 64 word. x - 1)" by (rule injI) simp
  ultimately show ?thesis unfolding e by (intro inj_compose inj_xor_shift) simp_all
qed

lemma fingerprint_loop_eq [simp]: "fingerprint_loop ns g = fingerprint_loop ns h \<longleftrightarrow> g = h"
  by (induction ns arbitrary: g h) (auto simp: inj_eq [OF inj_fingerprint_mix])

lemma fingerprint_change [simp]: "fingerprint_mix g = fingerprint_mix h \<longleftrightarrow> g = h"
  by (rule inj_eq [OF inj_fingerprint_mix])

text \<open>The six numbers that enter the fingerprint.\<close>

definition fingerprint_integers :: "(nat \<Rightarrow> 64 word) \<Rightarrow> ('k, 'v) dict \<Rightarrow> 64 word list" where
  "fingerprint_integers a d =
     [a 0, word_of_int (ht_size_exp (ht0 d)), word_of_nat (ht_used (ht0 d)),
      a 1, word_of_int (ht_size_exp (ht1 d)), word_of_nat (ht_used (ht1 d))]"

lemma dictFingerprint_integers: "dictFingerprint a d = fingerprint_loop (fingerprint_integers a d) 0"
  by (simp add: dictFingerprint_def fingerprint_integers_def)

lemma fingerprint_update: "i < length ns \<Longrightarrow> fingerprint_loop (ns[i := x]) h = fingerprint_loop ns h \<longleftrightarrow> x = ns ! i"
proof (induction ns arbitrary: i h)
  case (Cons n ns)
  then show ?case by (cases i) auto
qed simp

lemma list_update_single: "length ms = length ns \<Longrightarrow> \<forall>j<length ns. j \<noteq> i \<longrightarrow> ms ! j = ns ! j \<Longrightarrow> ms = ns[i := ms ! i]"
proof (rule nth_equalityI)
  fix j assume "length ms = length ns" "\<forall>j<length ns. j \<noteq> i \<longrightarrow> ms ! j = ns ! j" "j < length ms"
  then show "ms ! j = ns[i := ms ! i] ! j" by (cases "j = i") simp_all
qed simp

lemma All_less_6: "(\<forall>j<(6 :: nat). P j) \<longleftrightarrow> P 0 \<and> P 1 \<and> P 2 \<and> P 3 \<and> P 4 \<and> P 5"
  by (simp add: eval_nat_numeral All_less_Suc conj_ac)

text \<open>C20: The fingerprint of an unsafe iterator detects every change of exactly one of the six numbers it is computed from:
  the address, the size and the number of entries of either table. The mixing function cannot mask it, and releasing
  the iterator fails the assertion. This is the case of insertions and deletions that neither resize nor rehash, in the first or the
  second table. Changes of several of the numbers at once are not covered.\<close>

theorem fingerprint_detects_single_change:
  assumes "it_fingerprint it = dictFingerprint a d" and "\<not> it_fresh it" and "\<not> it_safe it"
    and "i < 6" and "\<forall>j<6. j \<noteq> i \<longrightarrow> fingerprint_integers a' d' ! j = fingerprint_integers a d ! j"
    and "fingerprint_integers a' d' ! i \<noteq> fingerprint_integers a d ! i"
  shows "dictResetIterator a' d' it = None"
proof -
  let ?ns = "fingerprint_integers a d" and ?ms = "fingerprint_integers a' d'"
  have len: "length ?ns = 6" "length ?ms = 6" by (simp_all add: fingerprint_integers_def)
  then have "?ms = ?ns[i := ?ms ! i]" using assms(5) by (intro list_update_single) simp_all
  then have "dictFingerprint a' d' \<noteq> dictFingerprint a d"
    using fingerprint_update [of i ?ns "?ms ! i" 0] assms(4,6) len by (simp add: dictFingerprint_integers)
  then show ?thesis using assms(1-3) by (simp add: dictResetIterator_def)
qed

theorem fingerprint_detects_single_change_witness:
  "dictResetIterator (\<lambda>_. 4096) (demo_dict\<lparr>ht1 := (ht1 demo_dict)\<lparr>ht_used := 7\<rparr>\<rparr>)
     (dictInitIterator\<lparr>it_index := 1, it_fingerprint := dictFingerprint (\<lambda>_. 4096) demo_dict\<rparr>) = None"
  by (rule fingerprint_detects_single_change [where i = 5 and a = "\<lambda>_. 4096" and d = demo_dict])
    (simp_all add: demo_dict_def dictInitIterator_def it_fresh_def fingerprint_integers_def All_less_6)

subsection \<open>Emptying and time-limited rehashing\<close>

lemma clear_chain_ok: "chain_ok type c \<Longrightarrow> length c \<le> used \<Longrightarrow> clear_chain used c = used - length c"
  by (induction c arbitrary: used) (auto simp: dictGetNext_def ulong_dec_def)

text \<open>The counter never wraps: it is always at least the number of entries in the buckets to come.\<close>

lemma clear_buckets_ok:
  assumes "ht_ok type h" and "used = length (concat (drop i (ht_table h)))"
  shows "clear_buckets h i used = Some 0"
  using assms
proof (induction h i used rule: clear_buckets.induct)
  case (1 h i used)
  have len: "length (ht_table h) = DICTHT_SIZE (ht_size_exp h)" by (rule table_length [OF 1(2)])
  show ?case
  proof (cases "i < length (ht_table h) \<and> used > 0")
    case True
    then have "drop i (ht_table h) = ht_table h ! i # drop (Suc i) (ht_table h)"
      by (simp add: Cons_nth_drop_Suc)
    then have u: "used = length (ht_table h ! i) + length (concat (drop (Suc i) (ht_table h)))" using 1(3) by simp
    moreover have "chain_ok type (ht_table h ! i)" using 1(2) True by (simp add: ht_ok_def bucket_ok_def)
    ultimately have "clear_chain used (ht_table h ! i) = length (concat (drop (Suc i) (ht_table h)))"
      using clear_chain_ok by fastforce
    then show ?thesis
      using 1(1) [OF _ _ 1(2)] True len by (subst clear_buckets.simps) (simp add: get_bucket_def)
  next
    case False
    then show ?thesis
      using 1(3) len by (subst clear_buckets.simps) auto
  qed
qed

lemma dictEmpty_events:
  assumes "dict_ok d"
  shows "\<exists>ev. dictEmpty d = Some ((dictCreate (dict_type d))\<lparr>dict_events := ev\<rparr>) \<and>
     ev = dict_events d @ (if dictIsRehashing d \<and> has_rehashingCompleted (dict_type d)
       then [RehashingCompleted (DICTHT_SIZE (ht_size_exp (ht0 d))) (DICTHT_SIZE (ht_size_exp (ht1 d)))] else [])"
proof -
  have "clear_buckets (dict_ht d t) 0 (ht_used (dict_ht d t)) = Some 0" for t
    using dict_ht_ok [OF assms, of t] by (intro clear_buckets_ok) (auto simp: ht_ok_def)
  from this [of 0] this [of 1] show ?thesis
    by (auto simp: dictEmpty_def dictClear_def notifyCompleted_def dict_ht_def set_ht_def dictCreate_def Let_def)
qed

text \<open>Emptying a dict frees every entry, tells a monitor that an unfinished rehash is over, and leaves the
  dict as it is created, with the same type.\<close>

theorem dictEmpty_resets:
  assumes "dict_ok d"
  shows "\<exists>ev. dictEmpty d = Some ((dictCreate (dict_type d))\<lparr>dict_events := ev\<rparr>) \<and>
     ev = dict_events d @ (if dictIsRehashing d \<and> has_rehashingCompleted (dict_type d)
       then [RehashingCompleted (DICTHT_SIZE (ht_size_exp (ht0 d))) (DICTHT_SIZE (ht_size_exp (ht1 d)))] else [])"
  using dictEmpty_events [OF assms] .

theorem dictEmpty_resets_witness:
  "dictEmpty demo_dict = Some ((dictCreate demo_type)\<lparr>dict_events := [RehashingCompleted 4 8]\<rparr>)"
  using dictEmpty_resets [OF demo_dict_ok]
  by (simp add: demo_dict_def demo_type_def dictIsRehashing_def DICTHT_SIZE_def)

lemma rehash_timed_spec:
  assumes "dict_ok d"
  shows "\<exists>d' r. rehash_timed cr late n d m = Some (d', r) \<and> reorg d d' \<and> m \<le> r"
  using assms
proof (induction "length (ht_table (ht0 d)) - nat (rehashidx d)" arbitrary: d n m rule: less_induct)
  case less
  obtain d1 go where d1: "dictRehash cr d 100 = Some (d1, go)" "reorg d d1"
    "go \<longrightarrow> \<not> rehash_refused cr d \<and> rehash_step d d1 \<and> rehashidx d < rehashidx d1"
    using dictRehash_spec [OF less.prems] by (metis zero_neq_numeral)
  show ?case
  proof (cases "go \<and> \<not> late n")
    case True
    have ok: "dict_ok d1" using d1(2) by (simp add: reorg_def)
    have "dictIsRehashing d" "rehash_step d d1" "rehashidx d < rehashidx d1"
      using d1(3) True not_refused by auto
    then have "length (ht_table (ht0 d1)) - nat (rehashidx d1) < length (ht_table (ht0 d)) - nat (rehashidx d)"
      using dict_okD(4) [OF less.prems] dict_okD(4) [OF ok] table_length [OF dict_okD(1) [OF less.prems]]
        table_length [OF dict_okD(1) [OF ok]] by (simp add: rehash_step_def) linarith
    then obtain d' r where "rehash_timed cr late (n + 1) d1 (m + 100) = Some (d', r)" "reorg d1 d'" "m + 100 \<le> r"
      using less.hyps [OF _ ok] by blast
    moreover from this(1) have "rehash_timed cr late n d m = Some (d', r)"
      using d1(1) True by (subst rehash_timed.simps) simp
    ultimately show ?thesis using reorg_trans [OF d1(2)] by fastforce
  next
    case False
    then have "rehash_timed cr late n d m = Some (d1, if go then m + 100 else m)"
      using d1(1) by (subst rehash_timed.simps) auto
    then show ?thesis using d1(2) by fastforce
  qed
qed

text \<open>Rehashing for a limited time returns, even if the time never runs out, and keeps the contents; while
  rehashing is paused it does nothing.\<close>

theorem rehash_microseconds_returns:
  assumes "dict_ok d"
  shows "\<exists>d' r. dictRehashMicroseconds cr late d = Some (d', r) \<and> dict_ok d' \<and> dict_map d' = dict_map d \<and>
     (pauserehash d > 0 \<longrightarrow> d' = d)"
proof (cases "pauserehash d > 0")
  case True
  then show ?thesis using assms by (simp add: dictRehashMicroseconds_def)
next
  case False
  obtain d' r where "rehash_timed cr late 0 d 0 = Some (d', r)" "reorg d d'"
    using rehash_timed_spec [OF assms] by blast
  then show ?thesis
    using False reorg_map [OF assms] by (simp add: dictRehashMicroseconds_def reorg_def)
qed

theorem rehash_microseconds_returns_witness:
  "\<exists>d' r. dictRehashMicroseconds DICT_RESIZE_ENABLE (\<lambda>_. False) demo_dict = Some (d', r) \<and>
     dict_map d' = dict_map demo_dict"
  using rehash_microseconds_returns [OF demo_dict_ok] by blast

end
