(* ===== verification/Dict_Random.thy ===== *)
theory Dict_Random
  imports Dict_Iter
begin

text \<open>
  Random entries of a dict and the statistics of a table. The random number generators are the function
  \<open>rnd\<close>, which gives the result of the \<open>n\<close>-th call; the number of calls made so far is passed along.
\<close>

subsection \<open>One random entry\<close>

text \<open>The two loops that draw until they hit a non-empty bucket.\<close>

partial_function (option) random_bucket2 :: "(nat \<Rightarrow> nat) \<Rightarrow> ('k, 'v) dict \<Rightarrow> nat \<Rightarrow>
    (('k, 'v) dictEntry list \<times> nat) option" where
  "random_bucket2 rnd d n = do {
     let s0 = DICTHT_SIZE (ht_size_exp (ht0 d));
     let h = nat (rehashidx d) + rnd n mod (dictBuckets d - nat (rehashidx d));
     he \<leftarrow> (if h \<ge> s0 then get_bucket (ht1 d) (h - s0) else get_bucket (ht0 d) h);
     if he = [] then random_bucket2 rnd d (n + 1) else Some (he, n + 1)
   }"

partial_function (option) random_bucket1 :: "(nat \<Rightarrow> nat) \<Rightarrow> ('k, 'v) dict \<Rightarrow> nat \<Rightarrow>
    (('k, 'v) dictEntry list \<times> nat) option" where
  "random_bucket1 rnd d n = do {
     let h = rnd n AND DICTHT_SIZE_MASK (ht_size_exp (ht0 d));
     he \<leftarrow> get_bucket (ht0 d) h;
     if he = [] then random_bucket1 rnd d (n + 1) else Some (he, n + 1)
   }"

fun chain_length :: "('k, 'v) dictEntry list \<Rightarrow> nat" where
  "chain_length [] = 0"
| "chain_length (he # rest) = chain_length (dictGetNext he rest) + 1"

fun chain_nth :: "('k, 'v) dictEntry list \<Rightarrow> nat \<Rightarrow> ('k, 'v) dictEntry option" where
  "chain_nth [] n = None"
| "chain_nth (he # rest) 0 = Some he"
| "chain_nth (he # rest) (Suc n) = chain_nth (dictGetNext he rest) n"

definition dictGetRandomKey :: "dictResizeEnable \<Rightarrow> (nat \<Rightarrow> nat) \<Rightarrow> ('k, 'v) dict \<Rightarrow> nat \<Rightarrow>
    (('k, 'v) dict \<times> ('k, 'v) dictEntry option \<times> nat) option" where
  "dictGetRandomKey cr rnd d n =
     (if dictSize d = 0 then Some (d, None, n)
      else do {
        d \<leftarrow> (if dictIsRehashing d then dictRehashStep cr d else Some d);
        (he, n) \<leftarrow> (if dictIsRehashing d then random_bucket2 rnd d n else random_bucket1 rnd d n);
        e \<leftarrow> chain_nth he (rnd n mod chain_length he);
        Some (d, Some e, n + 1)
      })"

subsection \<open>Some entries\<close>

text \<open>The rehashing work at the start.\<close>

fun some_rehash :: "dictResizeEnable \<Rightarrow> ('k, 'v) dict \<Rightarrow> nat \<Rightarrow> ('k, 'v) dict option" where
  "some_rehash cr d 0 = Some d"
| "some_rehash cr d (Suc cnt) =
     (if dictIsRehashing d then do { d \<leftarrow> dictRehashStep cr d; some_rehash cr d cnt } else Some d)"

text \<open>The local variables of \<^verbatim>\<open>dictGetSomeKeys\<close>; \<open>des\<close> is the array of the caller.\<close>

record ('k, 'v) some_state =
  ss_i :: nat
  ss_emptylen :: nat
  ss_stored :: nat
  ss_des :: "('k, 'v) dictEntry option list"
  ss_n :: nat

definition des_set :: "'a option list \<Rightarrow> nat \<Rightarrow> 'a \<Rightarrow> 'a option list option" where
  "des_set des i he = (if i < length des then Some (des[i := Some he]) else None)"

fun some_chain :: "(nat \<Rightarrow> nat) \<Rightarrow> nat \<Rightarrow> ('k, 'v) dictEntry list \<Rightarrow> ('k, 'v) some_state \<Rightarrow> ('k, 'v) some_state option" where
  "some_chain rnd cnt [] s = Some s"
| "some_chain rnd cnt (he # rest) s = do {
     s \<leftarrow> (if ss_stored s < cnt then do {
            des \<leftarrow> des_set (ss_des s) (ss_stored s) he;
            Some (s\<lparr>ss_des := des\<rparr>)
          }
          else do {
            let r = rnd (ss_n s) mod (ss_stored s + 1);
            let s = s\<lparr>ss_n := ss_n s + 1\<rparr>;
            if r < cnt then do { des \<leftarrow> des_set (ss_des s) r he; Some (s\<lparr>ss_des := des\<rparr>) } else Some s
          });
     some_chain rnd cnt (dictGetNext he rest) (s\<lparr>ss_stored := ss_stored s + 1\<rparr>)
   }"

text \<open>The visit of bucket \<open>i\<close> of a table of which the index is in range; the flag is the jump to the end.\<close>

definition some_bucket :: "(nat \<Rightarrow> nat) \<Rightarrow> nat \<Rightarrow> nat \<Rightarrow> ('k, 'v) dict \<Rightarrow> nat \<Rightarrow> ('k, 'v) some_state \<Rightarrow>
    (('k, 'v) some_state \<times> bool) option" where
  "some_bucket rnd cnt maxsizemask d j s =
     (if ss_i s \<ge> DICTHT_SIZE (ht_size_exp (dict_ht d j)) then Some (s, False)
      else do {
        he \<leftarrow> get_bucket (dict_ht d j) (ss_i s);
        if he = [] then do {
          let s = s\<lparr>ss_emptylen := ss_emptylen s + 1\<rparr>;
          if ss_emptylen s \<ge> 5 \<and> ss_emptylen s > cnt then
            Some (s\<lparr>ss_i := rnd (ss_n s) AND maxsizemask, ss_n := ss_n s + 1, ss_emptylen := 0\<rparr>, False)
          else Some (s, False)
        }
        else do {
          s \<leftarrow> some_chain rnd cnt he (s\<lparr>ss_emptylen := 0\<rparr>);
          Some (s, ss_stored s \<ge> cnt)
        }
      })"

definition some_table :: "(nat \<Rightarrow> nat) \<Rightarrow> nat \<Rightarrow> nat \<Rightarrow> ('k, 'v) dict \<Rightarrow> nat \<Rightarrow> nat \<Rightarrow> ('k, 'v) some_state \<Rightarrow>
    (('k, 'v) some_state \<times> bool) option" where
  "some_table rnd cnt maxsizemask d tables j s =
     (if tables = 2 \<and> j = 0 \<and> ss_i s < nat (rehashidx d) then
        if ss_i s \<ge> DICTHT_SIZE (ht_size_exp (ht1 d))
        then some_bucket rnd cnt maxsizemask d j (s\<lparr>ss_i := nat (rehashidx d)\<rparr>)
        else Some (s, False)
      else some_bucket rnd cnt maxsizemask d j s)"

fun some_loop :: "(nat \<Rightarrow> nat) \<Rightarrow> nat \<Rightarrow> nat \<Rightarrow> ('k, 'v) dict \<Rightarrow> nat \<Rightarrow> nat \<Rightarrow> ('k, 'v) some_state \<Rightarrow> ('k, 'v) some_state option" where
  "some_loop rnd cnt maxsizemask d tables 0 s = Some s"
| "some_loop rnd cnt maxsizemask d tables (Suc maxsteps) s =
     (if ss_stored s < cnt then do {
        (s, stop) \<leftarrow> some_table rnd cnt maxsizemask d tables 0 s;
        (s, stop) \<leftarrow> (if \<not> stop \<and> 1 < tables then some_table rnd cnt maxsizemask d tables 1 s else Some (s, stop));
        if stop then Some s
        else some_loop rnd cnt maxsizemask d tables maxsteps (s\<lparr>ss_i := (ss_i s + 1) AND maxsizemask\<rparr>)
      } else Some s)"

definition dictGetSomeKeys :: "dictResizeEnable \<Rightarrow> (nat \<Rightarrow> nat) \<Rightarrow> ('k, 'v) dict \<Rightarrow> ('k, 'v) dictEntry option list \<Rightarrow>
    nat \<Rightarrow> nat \<Rightarrow> (('k, 'v) dict \<times> ('k, 'v) dictEntry option list \<times> nat \<times> nat) option" where
  "dictGetSomeKeys cr rnd d des cnt n = do {
     let cnt = (if dictSize d < cnt then dictSize d else cnt);
     d \<leftarrow> some_rehash cr d cnt;
     let tables = (if dictIsRehashing d then 2 else 1);
     let m0 = DICTHT_SIZE_MASK (ht_size_exp (ht0 d));
     let m1 = DICTHT_SIZE_MASK (ht_size_exp (ht1 d));
     let maxsizemask = (if tables > 1 \<and> m0 < m1 then m1 else m0);
     s \<leftarrow> some_loop rnd cnt maxsizemask d tables (cnt * 10)
       \<lparr>ss_i = rnd n AND maxsizemask, ss_emptylen = 0, ss_stored = 0, ss_des = des, ss_n = n + 1\<rparr>;
     Some (d, ss_des s, (if ss_stored s > cnt then cnt else ss_stored s), ss_n s)
   }"

definition GETFAIR_NUM_ENTRIES :: nat where "GETFAIR_NUM_ENTRIES = 15"

definition dictGetFairRandomKey :: "dictResizeEnable \<Rightarrow> (nat \<Rightarrow> nat) \<Rightarrow> ('k, 'v) dict \<Rightarrow> nat \<Rightarrow>
    (('k, 'v) dict \<times> ('k, 'v) dictEntry option \<times> nat) option" where
  "dictGetFairRandomKey cr rnd d n = do {
     (d, entries, cnt, n) \<leftarrow> dictGetSomeKeys cr rnd d (replicate GETFAIR_NUM_ENTRIES None) GETFAIR_NUM_ENTRIES n;
     if cnt = 0 then dictGetRandomKey cr rnd d n
     else Some (d, entries ! (rnd n mod cnt), n + 1)
   }"

subsection \<open>Statistics\<close>

record dictStats =
  st_buckets :: nat
  st_maxChainLen :: nat
  st_totalChainLen :: nat
  st_htSize :: nat
  st_htUsed :: nat
  st_clvector :: "nat list"

definition DICT_STATS_VECTLEN :: nat where "DICT_STATS_VECTLEN = 50"

definition clvector_incr :: "nat list \<Rightarrow> nat \<Rightarrow> nat list" where
  "clvector_incr cl i = cl[i := cl ! i + 1]"

definition stats_bucket :: "('k, 'v) dictEntry list \<Rightarrow> dictStats \<Rightarrow> dictStats" where
  "stats_bucket b st =
     (if b = [] then st\<lparr>st_clvector := clvector_incr (st_clvector st) 0\<rparr>
      else
        let chainlen = chain_length b in
        st\<lparr>st_buckets := st_buckets st + 1,
          st_clvector := clvector_incr (st_clvector st)
            (if chainlen < DICT_STATS_VECTLEN then chainlen else DICT_STATS_VECTLEN - 1),
          st_maxChainLen := (if chainlen > st_maxChainLen st then chainlen else st_maxChainLen st),
          st_totalChainLen := st_totalChainLen st + chainlen\<rparr>)"

function stats_loop :: "('k, 'v) ht \<Rightarrow> nat \<Rightarrow> dictStats \<Rightarrow> dictStats option" where
  "stats_loop h i st =
     (if i < DICTHT_SIZE (ht_size_exp h) then do {
        b \<leftarrow> get_bucket h i;
        stats_loop h (i + 1) (stats_bucket b st)
      } else Some st)"
  by pat_completeness auto
termination by (relation "measure (\<lambda>(h, i, _). DICTHT_SIZE (ht_size_exp h) - i)") auto

declare stats_loop.simps [simp del]

definition dictGetStatsHt :: "('k, 'v) dict \<Rightarrow> nat \<Rightarrow> bool \<Rightarrow> dictStats option" where
  "dictGetStatsHt d htidx full =
     (let st = \<lparr>st_buckets = 0, st_maxChainLen = 0, st_totalChainLen = 0,
                st_htSize = DICTHT_SIZE (ht_size_exp (dict_ht d htidx)),
                st_htUsed = ht_used (dict_ht d htidx),
                st_clvector = replicate DICT_STATS_VECTLEN 0\<rparr> in
      if \<not> full then Some st else stats_loop (dict_ht d htidx) 0 st)"

definition dictCombineStats :: "dictStats \<Rightarrow> dictStats \<Rightarrow> dictStats" where
  "dictCombineStats from into =
     into\<lparr>st_buckets := st_buckets into + st_buckets from,
       st_maxChainLen := (if st_maxChainLen from > st_maxChainLen into then st_maxChainLen from else st_maxChainLen into),
       st_totalChainLen := st_totalChainLen into + st_totalChainLen from,
       st_htSize := st_htSize into + st_htSize from,
       st_htUsed := st_htUsed into + st_htUsed from,
       st_clvector := map2 (+) (st_clvector into) (st_clvector from)\<rparr>"

subsection \<open>What they return\<close>

lemma chain_length_ok: "chain_ok type c \<Longrightarrow> chain_length c = length c"
  by (induction c) (auto simp: dictGetNext_def)

lemma chain_nth_ok: "chain_ok type c \<Longrightarrow> n < length c \<Longrightarrow> chain_nth c n = Some (c ! n)"
proof (induction c arbitrary: n)
  case (Cons e c)
  then show ?case by (cases n) (auto simp: dictGetNext_def)
qed simp

text \<open>An entry of the dict, as the callers see it: its key with its value.\<close>

definition dict_has :: "('k, 'v) dict \<Rightarrow> ('k, 'v) dictEntry \<Rightarrow> bool" where
  "dict_has d e \<longleftrightarrow> dict_map d (dictGetKey e) = Some (entry_val e)"

lemma bucket_has:
  assumes "dict_ok d" and "get_bucket (dict_ht d t) i = Some b"
  shows "chain_ok (dict_type d) b" and "e \<in> set b \<Longrightarrow> dict_has d e"
proof -
  have i: "i < length (ht_table (dict_ht d t))" "b = ht_table (dict_ht d t) ! i"
    using assms(2) by (auto simp: get_bucket_def split: if_splits)
  then show "chain_ok (dict_type d) b"
    using dict_ht_ok [OF assms(1), of t] by (simp add: ht_ok_def bucket_ok_def)
  assume "e \<in> set b"
  then obtain p where "p < length b" "b ! p = e" by (auto simp: in_set_conv_nth)
  then have "entry_at d (t, i, p) = Some e" using assms(2) by (simp add: entry_at_def)
  then show "dict_has d e" unfolding dict_has_def by (rule entry_at_map [OF assms(1)])
qed

text \<open>What is relied on of the random number generators: their results are 64-bit numbers, and every 64-bit number turns up again
  and again. The Mersenne Twister behind \<^verbatim>\<open>randomULong\<close> is documented to have 64-bit outputs that are equidistributed over its
  period. The results of the few calls of \<^verbatim>\<open>random\<close> are in the same sequence, and may be any of these numbers.\<close>

definition rnd_complete :: "(nat \<Rightarrow> nat) \<Rightarrow> bool" where
  "rnd_complete rnd \<longleftrightarrow> (\<forall>n. rnd n < 2 ^ 64) \<and> (\<forall>v<2 ^ 64. \<forall>n. \<exists>m\<ge>n. rnd m = v)"

lemma rnd_completeD: "rnd_complete rnd \<Longrightarrow> v < 2 ^ 64 \<Longrightarrow> \<exists>m\<ge>n. rnd m = v"
  by (simp add: rnd_complete_def)

text \<open>A table has fewer buckets than there are 64-bit numbers, and so have two tables.\<close>

lemma table_le: "ht_ok type h \<Longrightarrow> length (ht_table h) \<le> 2 ^ 60"
proof -
  assume "ht_ok type h"
  then consider "ht_table h = []" | "length (ht_table h) = 2 ^ nat (ht_size_exp h)" "nat (ht_size_exp h) \<le> 60"
    by (auto simp: ht_ok_def)
  then show ?thesis
  proof cases
    case 2
    then show ?thesis using power_increasing [of "nat (ht_size_exp h)" 60 "2 :: nat"] by simp
  qed simp
qed

text \<open>A loop that draws until it hits ends if there is a hit.\<close>

lemma draw_until_hit:
  assumes f: "\<And>n. f n = (if good n then Some (g n, n + 1) else f (n + 1))" and m: "n \<le> m" "good m"
  shows "\<exists>m. good m \<and> f n = Some (g m, m + (1::nat))"
  using m
proof (induction "m - n" arbitrary: n)
  case 0
  then show ?case using f [of n] by (intro exI [of _ n]) simp
next
  case (Suc k)
  then show ?case using f [of n] Suc.hyps(1) [of "n + 1"] by (cases "good n") auto
qed

lemma random_bucket1_spec:
  assumes d: "dict_ok d" and u: "ht_used (ht0 d) \<noteq> 0" and r: "rnd_complete rnd"
  shows "\<exists>he m i. random_bucket1 rnd d n = Some (he, m) \<and> he \<noteq> [] \<and> get_bucket (dict_ht d 0) i = Some he"
proof -
  note h = dict_okD(1) [OF d]
  obtain i where i: "i < length (ht_table (ht0 d))" "ht_table (ht0 d) ! i \<noteq> []"
    using nonempty_bucket [OF h u] by blast
  then have e: "ht_size_exp (ht0 d) \<noteq> -1" using exp_nonneg [OF h] by auto
  have len: "length (ht_table (ht0 d)) = 2 ^ nat (ht_size_exp (ht0 d))" using h e by (auto simp: ht_ok_def)
  define idx where "idx m = rnd m mod 2 ^ nat (ht_size_exp (ht0 d))" for m
  have b: "get_bucket (ht0 d) (idx m) = Some (ht_table (ht0 d) ! idx m)" for m
    by (simp add: get_bucket_def len idx_def)
  have "i < 2 ^ 64" using i(1) table_le [OF h] by simp
  then obtain m where "n \<le> m" "rnd m = i" using rnd_completeD [OF r] by blast
  then have m: "n \<le> m" "ht_table (ht0 d) ! idx m \<noteq> []" using i len by (simp_all add: idx_def)
  have "random_bucket1 rnd d k = (if ht_table (ht0 d) ! idx k \<noteq> [] then Some (ht_table (ht0 d) ! idx k, k + 1)
      else random_bucket1 rnd d (k + 1))" for k
    using b [of k] by (subst random_bucket1.simps) (simp add: AND_SIZE_MASK e idx_def)
  then obtain m' where "ht_table (ht0 d) ! idx m' \<noteq> []" "random_bucket1 rnd d n = Some (ht_table (ht0 d) ! idx m', m' + 1)"
    using draw_until_hit [of "random_bucket1 rnd d" "\<lambda>k. ht_table (ht0 d) ! idx k \<noteq> []"
      "\<lambda>k. ht_table (ht0 d) ! idx k"] m by blast
  then show ?thesis using b [of m'] by (auto simp: dict_ht_def)
qed

lemma random_bucket2_spec:
  assumes d: "dict_ok d" and u: "dictSize d \<noteq> 0" and reh: "dictIsRehashing d" and r: "rnd_complete rnd"
  shows "\<exists>he m t i. random_bucket2 rnd d n = Some (he, m) \<and> he \<noteq> [] \<and> get_bucket (dict_ht d t) i = Some he"
proof -
  let ?s0 = "length (ht_table (ht0 d))" and ?s1 = "length (ht_table (ht1 d))" and ?r = "nat (rehashidx d)"
  define T where "T = ht_table (ht0 d) @ ht_table (ht1 d)"
  note h = dict_okD [OF d]
  have s: "DICTHT_SIZE (ht_size_exp (ht0 d)) = ?s0" "DICTHT_SIZE (ht_size_exp (ht1 d)) = ?s1"
    using table_length [OF h(1)] table_length [OF h(2)] by auto
  have "?s1 \<noteq> 0" using h(4) [OF reh] exp_nonneg [OF h(2)] by auto
  moreover have "?r \<le> ?s0" using h(4) [OF reh] by blast
  ultimately have lt: "?r < length T" unfolding T_def length_append by linarith
  obtain i where i: "i < length T" "T ! i \<noteq> []"
  proof -
    have "concat T \<noteq> []" using u h(1,2) by (auto simp: T_def dictSize_def ht_ok_def)
    then show ?thesis using that by (auto simp: in_set_conv_nth)
  qed
  have ge: "?r \<le> i"
  proof (rule ccontr)
    assume "\<not> ?r \<le> i"
    then show False using h(4) [OF reh] i(2) by (simp add: T_def nth_append)
  qed
  define idx where "idx m = ?r + rnd m mod (length T - ?r)" for m
  have idx: "idx m < length T" for m
    using lt mod_less_divisor [of "length T - ?r" "rnd m"] unfolding idx_def by linarith
  have b: "(if idx m \<ge> ?s0 then get_bucket (ht1 d) (idx m - ?s0) else get_bucket (ht0 d) (idx m)) = Some (T ! idx m)" for m
    using idx [of m] by (auto simp: get_bucket_def T_def nth_append)
  have "i - ?r < 2 ^ 64" using i(1) table_le [OF h(1)] table_le [OF h(2)] by (simp add: T_def)
  then obtain m where "n \<le> m" "rnd m = i - ?r" using rnd_completeD [OF r] by blast
  then have m: "n \<le> m" "T ! idx m \<noteq> []" using i ge by (simp_all add: idx_def)
  have "random_bucket2 rnd d k = (if T ! idx k \<noteq> [] then Some (T ! idx k, k + 1) else random_bucket2 rnd d (k + 1))" for k
  proof -
    have "?r + rnd k mod (dictBuckets d - ?r) = idx k" by (simp add: idx_def T_def s dictBuckets_def)
    then show ?thesis by (subst random_bucket2.simps) (simp only: Let_def s b Option.bind.simps, simp)
  qed
  then obtain m' where m': "T ! idx m' \<noteq> []" "random_bucket2 rnd d n = Some (T ! idx m', m' + 1)"
    using draw_until_hit [of "random_bucket2 rnd d" "\<lambda>k. T ! idx k \<noteq> []" "\<lambda>k. T ! idx k"] m by blast
  have "\<exists>t i. get_bucket (dict_ht d t) i = Some (T ! idx m')"
  proof (cases "idx m' \<ge> ?s0")
    case True
    then show ?thesis using b [of m'] by (intro exI [of _ 1] exI [of _ "idx m' - ?s0"]) (simp add: dict_ht_def)
  next
    case False
    then show ?thesis using b [of m'] by (intro exI [of _ 0] exI [of _ "idx m'"]) (simp add: dict_ht_def)
  qed
  then show ?thesis using m' by blast
qed

lemma random_key_spec:
  assumes d: "dict_ok d" and r: "rnd_complete rnd"
  shows "\<exists>d' e m. dictGetRandomKey cr rnd d n = Some (d', e, m) \<and> reorg d d' \<and>
     (case e of None \<Rightarrow> dictSize d = 0 | Some x \<Rightarrow> dict_has d x)"
proof (cases "dictSize d = 0")
  case True
  then show ?thesis using d reorg_refl by (auto simp: dictGetRandomKey_def)
next
  case False
  obtain d1 where d1: "(if dictIsRehashing d then dictRehashStep cr d else Some d) = Some d1" "reorg d d1"
    using dictRehashStep_spec [OF d, of cr] reorg_refl [OF d] by (cases "dictIsRehashing d") (auto simp: lookup_step_def)
  have ok: "dict_ok d1" and sz: "dictSize d1 \<noteq> 0"
    using d1(2) False dictSize_kvs [OF d] dictSize_kvs [of d1] by (auto simp: reorg_def)
  have "\<exists>he m t i. (if dictIsRehashing d1 then random_bucket2 rnd d1 n else random_bucket1 rnd d1 n) = Some (he, m) \<and>
      he \<noteq> [] \<and> get_bucket (dict_ht d1 t) i = Some he"
  proof (cases "dictIsRehashing d1")
    case True
    then show ?thesis using random_bucket2_spec [OF ok sz True r] by simp
  next
    case nr: False
    then have "ht_used (ht0 d1) \<noteq> 0" using sz dict_okD(5) [OF ok] by (simp add: dictSize_def dictReset_def)
    then show ?thesis using random_bucket1_spec [OF ok _ r] nr by fastforce
  qed
  then obtain he m t i where he: "(if dictIsRehashing d1 then random_bucket2 rnd d1 n else random_bucket1 rnd d1 n) = Some (he, m)"
    "he \<noteq> []" "get_bucket (dict_ht d1 t) i = Some he" by blast
  let ?k = "rnd m mod length he"
  have k: "?k < length he" using he(2) by simp
  have "dictGetRandomKey cr rnd d n = Some (d1, Some (he ! ?k), m + 1)"
    using False d1(1) he(1) bucket_has(1) [OF ok he(3)] k
    by (simp add: dictGetRandomKey_def chain_length_ok chain_nth_ok)
  moreover have "dict_has d (he ! ?k)"
    using bucket_has(2) [OF ok he(3) nth_mem [OF k]] reorg_map [OF d d1(2)] by (simp add: dict_has_def)
  ultimately show ?thesis using d1(2) by force
qed

text \<open>C23: \<^verbatim>\<open>dictGetRandomKey\<close> returns, with a 64-bit generator that produces every 64-bit number again and again, an entry of
  the dict, and NULL only if the dict is empty; the contents stay the same.\<close>

theorem random_key_is_member:
  assumes "dict_ok d" and "rnd_complete rnd"
  shows "\<exists>d' e m. dictGetRandomKey cr rnd d n = Some (d', e, m) \<and> dict_ok d' \<and> dict_map d' = dict_map d \<and>
     (case e of None \<Rightarrow> dict_map d = Map.empty | Some x \<Rightarrow> dict_map d (dictGetKey x) = Some (entry_val x))"
proof -
  obtain d' e m where r: "dictGetRandomKey cr rnd d n = Some (d', e, m)" "reorg d d'"
    "case e of None \<Rightarrow> dictSize d = 0 | Some x \<Rightarrow> dict_has d x"
    using random_key_spec [OF assms] by blast
  have "dictSize d = 0 \<Longrightarrow> dict_map d = Map.empty"
    using assms(1) dict_map_Some [OF assms(1)] by (intro ext option_eqI) (simp add: dictSize_kvs)
  then show ?thesis
    using r reorg_map [OF assms(1) r(2)] by (cases e) (auto simp: dict_has_def reorg_def)
qed

lemma rnd_complete_counter: "rnd_complete (\<lambda>n. n mod 2 ^ 64)"
proof -
  have "\<exists>m\<ge>n. m mod 2 ^ 64 = v" if "v < 2 ^ 64" for v n :: nat
    by (rule exI [of _ "v + 2 ^ 64 * n"]) (use that in simp)
  then show ?thesis by (simp add: rnd_complete_def)
qed

theorem random_key_is_member_witness:
  "\<exists>d' e m. dictGetRandomKey DICT_RESIZE_ENABLE (\<lambda>n. n mod 2 ^ 64) demo_dict 0 = Some (d', e, m) \<and>
     dict_map d' = dict_map demo_dict"
  using random_key_is_member [OF demo_dict_ok rnd_complete_counter] by blast

text \<open>Every slot of the result that is counted holds an entry of the dict.\<close>

definition some_ok :: "('k, 'v) dict \<Rightarrow> nat \<Rightarrow> ('k, 'v) some_state \<Rightarrow> bool" where
  "some_ok d cnt s \<longleftrightarrow> cnt \<le> length (ss_des s) \<and>
     (\<forall>i<min cnt (ss_stored s). \<exists>x. ss_des s ! i = Some x \<and> dict_has d x)"

lemma some_ok_simps [simp]:
  "some_ok d cnt (s\<lparr>ss_i := i\<rparr>) = some_ok d cnt s"
  "some_ok d cnt (s\<lparr>ss_emptylen := l\<rparr>) = some_ok d cnt s"
  "some_ok d cnt (s\<lparr>ss_n := n\<rparr>) = some_ok d cnt s"
  by (simp_all add: some_ok_def)

lemma some_chain_spec:
  assumes "chain_ok (dict_type d) c" and "\<And>e. e \<in> set c \<Longrightarrow> dict_has d e" and "some_ok d cnt s"
  shows "\<exists>s'. some_chain rnd cnt c s = Some s' \<and> some_ok d cnt s' \<and> length (ss_des s') = length (ss_des s)"
  using assms
proof (induction c arbitrary: s)
  case (Cons e c)
  have g: "dictGetNext e c = c" "chain_ok (dict_type d) c" using Cons.prems(1) by auto
  define r where "r = (if ss_stored s < cnt then ss_stored s else rnd (ss_n s) mod (ss_stored s + 1))"
  define s1 where "s1 = (if ss_stored s < cnt then s else s\<lparr>ss_n := ss_n s + 1\<rparr>)"
  define s2 where "s2 = (if r < cnt then s1\<lparr>ss_des := (ss_des s)[r := Some e]\<rparr> else s1)\<lparr>ss_stored := ss_stored s + 1\<rparr>"
  have "some_ok d cnt s2" "length (ss_des s2) = length (ss_des s)"
    using Cons.prems(2,3) by (auto simp: some_ok_def s2_def s1_def r_def nth_list_update less_Suc_eq)
  moreover have "some_chain rnd cnt (e # c) s = some_chain rnd cnt c s2"
    using g Cons.prems(3) by (auto simp: s2_def s1_def r_def des_set_def some_ok_def Let_def)
  ultimately show ?case using Cons.IH [OF g(2), of s2] Cons.prems(2) by simp
qed simp

lemma some_bucket_spec:
  assumes d: "dict_ok d" and s: "some_ok d cnt s"
  shows "\<exists>s' stop. some_bucket rnd cnt m d j s = Some (s', stop) \<and> some_ok d cnt s' \<and> length (ss_des s') = length (ss_des s)"
proof (cases "ss_i s \<ge> DICTHT_SIZE (ht_size_exp (dict_ht d j))")
  case False
  then obtain b where b: "get_bucket (dict_ht d j) (ss_i s) = Some b"
    using table_length [OF dict_ht_ok [OF d, of j]] by (auto simp: get_bucket_def)
  obtain s' where "some_chain rnd cnt b (s\<lparr>ss_emptylen := 0\<rparr>) = Some s'" "some_ok d cnt s'"
    "length (ss_des s') = length (ss_des s)"
    using some_chain_spec [of d b cnt "s\<lparr>ss_emptylen := 0\<rparr>"] bucket_has [OF d b] s by auto
  then show ?thesis using False b s by (auto simp: some_bucket_def Let_def)
qed (use s in \<open>simp add: some_bucket_def\<close>)

lemma some_table_spec:
  assumes d: "dict_ok d" and s: "some_ok d cnt s"
  shows "\<exists>s' stop. some_table rnd cnt m d t j s = Some (s', stop) \<and> some_ok d cnt s' \<and> length (ss_des s') = length (ss_des s)"
  using some_bucket_spec [OF d s] some_bucket_spec [OF d, of cnt "s\<lparr>ss_i := nat (rehashidx d)\<rparr>"] s
  by (auto simp: some_table_def)

lemma some_loop_spec:
  assumes d: "dict_ok d" and "some_ok d cnt s"
  shows "\<exists>s'. some_loop rnd cnt m d t steps s = Some s' \<and> some_ok d cnt s' \<and> length (ss_des s') = length (ss_des s)"
  using assms(2)
proof (induction steps arbitrary: s)
  case (Suc steps)
  show ?case
  proof (cases "ss_stored s < cnt")
    case True
    obtain s1 st1 where 1: "some_table rnd cnt m d t 0 s = Some (s1, st1)" "some_ok d cnt s1" "length (ss_des s1) = length (ss_des s)"
      using some_table_spec [OF d Suc.prems] by blast
    obtain s2 st2 where 2: "(if \<not> st1 \<and> 1 < t then some_table rnd cnt m d t 1 s1 else Some (s1, st1)) = Some (s2, st2)"
      "some_ok d cnt s2" "length (ss_des s2) = length (ss_des s)"
      using some_table_spec [OF d 1(2), of rnd m t 1] 1(2,3) by (cases "\<not> st1 \<and> 1 < t") auto
    obtain s3 where 3: "some_loop rnd cnt m d t steps (s2\<lparr>ss_i := (ss_i s2 + 1) AND m\<rparr>) = Some s3" "some_ok d cnt s3"
      "length (ss_des s3) = length (ss_des s)"
      using Suc.IH [of "s2\<lparr>ss_i := (ss_i s2 + 1) AND m\<rparr>"] 2 by auto
    have "some_loop rnd cnt m d t (Suc steps) s = Some (if st2 then s2 else s3)"
      using True 1(1) 2(1) 3(1) by simp
    then show ?thesis using 2(2,3) 3(2,3) by auto
  qed (use Suc.prems in simp)
qed simp

lemma some_rehash_spec: "dict_ok d \<Longrightarrow> \<exists>d'. some_rehash cr d n = Some d' \<and> reorg d d'"
proof (induction n arbitrary: d)
  case (Suc n)
  obtain d1 where d1: "dictRehashStep cr d = Some d1" "reorg d d1"
    using dictRehashStep_spec [OF Suc.prems] by (auto simp: lookup_step_def)
  then have "dict_ok d1" by (simp add: reorg_def)
  then obtain d2 where "some_rehash cr d1 n = Some d2" "reorg d1 d2" using Suc.IH by blast
  then show ?case using d1 reorg_trans [OF d1(2)] reorg_refl [OF Suc.prems] by auto
qed (simp add: reorg_refl)

text \<open>C22: \<^verbatim>\<open>dictGetSomeKeys\<close> never writes outside an array of \<^verbatim>\<open>count\<close> pointers; it returns at most \<^verbatim>\<open>count\<close>
  and at most as many as there are entries, and every pointer it counts is an entry of the dict.\<close>

theorem some_keys_in_bounds:
  assumes "dict_ok d" and "length des = cnt"
  shows "\<exists>d' des' k m. dictGetSomeKeys cr rnd d des cnt n = Some (d', des', k, m) \<and> dict_ok d' \<and>
     dict_map d' = dict_map d \<and> length des' = cnt \<and> k \<le> cnt \<and> k \<le> dictSize d \<and>
     (\<forall>i<k. \<exists>x. des' ! i = Some x \<and> dict_map d (dictGetKey x) = Some (entry_val x))"
proof -
  define c where "c = (if dictSize d < cnt then dictSize d else cnt)"
  obtain d1 where d1: "some_rehash cr d c = Some d1" "reorg d d1" using some_rehash_spec [OF assms(1)] by blast
  have ok: "dict_ok d1" "dict_map d1 = dict_map d" using d1(2) reorg_map [OF assms(1)] by (auto simp: reorg_def)
  define t where "t = (if dictIsRehashing d1 then 2 else 1 :: nat)"
  define m where "m = (if t > 1 \<and> DICTHT_SIZE_MASK (ht_size_exp (ht0 d1)) < DICTHT_SIZE_MASK (ht_size_exp (ht1 d1))
    then DICTHT_SIZE_MASK (ht_size_exp (ht1 d1)) else DICTHT_SIZE_MASK (ht_size_exp (ht0 d1)))"
  define s where "s = \<lparr>ss_i = rnd n AND m, ss_emptylen = 0, ss_stored = 0, ss_des = des, ss_n = n + 1\<rparr>"
  have "some_ok d1 c s" using assms(2) by (simp add: some_ok_def s_def c_def)
  then obtain s' where s': "some_loop rnd c m d1 t (c * 10) s = Some s'" "some_ok d1 c s'" "length (ss_des s') = cnt"
    using some_loop_spec [OF ok(1)] assms(2) by (force simp: s_def)
  have "dictGetSomeKeys cr rnd d des cnt n =
      Some (d1, ss_des s', (if ss_stored s' > c then c else ss_stored s'), ss_n s')"
    by (simp only: dictGetSomeKeys_def Let_def c_def [symmetric] d1(1) Option.bind.simps t_def [symmetric]
        m_def [symmetric] s_def [symmetric] s'(1))
  then show ?thesis
    using ok s'(2,3) by (auto simp: some_ok_def dict_has_def c_def)
qed

theorem some_keys_in_bounds_witness:
  "\<exists>d' des' k m. dictGetSomeKeys DICT_RESIZE_ENABLE (\<lambda>n. n) demo_dict [None, None] 2 0 = Some (d', des', k, m) \<and>
     length des' = 2 \<and> k \<le> 2"
  using some_keys_in_bounds [OF demo_dict_ok, of "[None, None]" 2] by simp blast

subsection \<open>The statistics are consistent\<close>

lemma sum_clvector_incr: "i < length cl \<Longrightarrow> sum_list (clvector_incr cl i) = sum_list cl + 1"
  by (simp add: clvector_incr_def sum_list_update)

lemma clvector_incr_simps [simp]:
  "length (clvector_incr cl i) = length cl"
  "i \<noteq> j \<Longrightarrow> clvector_incr cl i ! j = cl ! j"
  "i < length cl \<Longrightarrow> clvector_incr cl i ! i = cl ! i + 1"
  by (simp_all add: clvector_incr_def)

lemma stats_bucket_spec:
  assumes "chain_ok type b" and "length (st_clvector st) = DICT_STATS_VECTLEN"
  shows "length (st_clvector (stats_bucket b st)) = DICT_STATS_VECTLEN"
    and "st_totalChainLen (stats_bucket b st) = st_totalChainLen st + length b"
    and "sum_list (st_clvector (stats_bucket b st)) = sum_list (st_clvector st) + 1"
    and "st_clvector (stats_bucket b st) ! 0 + st_buckets (stats_bucket b st) = st_clvector st ! 0 + st_buckets st + 1"
    and "st_maxChainLen (stats_bucket b st) = max (st_maxChainLen st) (length b)"
    and "st_htUsed (stats_bucket b st) = st_htUsed st" and "st_htSize (stats_bucket b st) = st_htSize st"
  using assms
  by (auto simp: stats_bucket_def Let_def chain_length_ok sum_clvector_incr DICT_STATS_VECTLEN_def)

lemma stats_loop_spec:
  assumes "ht_ok type h" and "length (st_clvector st) = DICT_STATS_VECTLEN" and "i \<le> length (ht_table h)"
  shows "\<exists>st'. stats_loop h i st = Some st' \<and> st_htUsed st' = st_htUsed st \<and> st_htSize st' = st_htSize st \<and>
     st_totalChainLen st' = st_totalChainLen st + length (concat (drop i (ht_table h))) \<and>
     sum_list (st_clvector st') = sum_list (st_clvector st) + (length (ht_table h) - i) \<and>
     st_clvector st' ! 0 + st_buckets st' = st_clvector st ! 0 + st_buckets st + (length (ht_table h) - i) \<and>
     st_maxChainLen st \<le> st_maxChainLen st' \<and> (\<forall>b\<in>set (drop i (ht_table h)). length b \<le> st_maxChainLen st')"
  using assms
proof (induction "length (ht_table h) - i" arbitrary: i st)
  case 0
  then show ?case
    using table_length [OF assms(1)] by (subst stats_loop.simps) auto
next
  case (Suc n)
  then have i: "i < length (ht_table h)" by simp
  let ?b = "ht_table h ! i"
  have c: "chain_ok type ?b" using assms(1) i by (simp add: ht_ok_def bucket_ok_def)
  note sb = stats_bucket_spec [OF c Suc.prems(2)]
  have dr: "drop i (ht_table h) = ?b # drop (Suc i) (ht_table h)" using i by (simp add: Cons_nth_drop_Suc)
  have "stats_loop h i st = stats_loop h (i + 1) (stats_bucket ?b st)"
    using i table_length [OF assms(1)] by (subst stats_loop.simps) (simp add: get_bucket_def)
  moreover have n: "n = length (ht_table h) - (i + 1)" and le: "i + 1 \<le> length (ht_table h)" using Suc.hyps(2) i by simp_all
  obtain st' where "stats_loop h (i + 1) (stats_bucket ?b st) = Some st'"
    "st_htUsed st' = st_htUsed st" "st_htSize st' = st_htSize st"
    "st_totalChainLen st' = st_totalChainLen st + length ?b + length (concat (drop (i + 1) (ht_table h)))"
    "sum_list (st_clvector st') = sum_list (st_clvector st) + 1 + (length (ht_table h) - (i + 1))"
    "st_clvector st' ! 0 + st_buckets st' = st_clvector st ! 0 + st_buckets st + 1 + (length (ht_table h) - (i + 1))"
    "max (st_maxChainLen st) (length ?b) \<le> st_maxChainLen st'"
    "\<forall>b\<in>set (drop (i + 1) (ht_table h)). length b \<le> st_maxChainLen st'"
    using Suc.hyps(1) [OF n assms(1) sb(1) le] unfolding sb by blast
  ultimately show ?case using i dr by auto
qed

text \<open>The statistics of a table agree with the table: the lengths of the chains add up to the number of
  entries, the histogram adds up to the number of buckets, and every bucket is counted either as
  empty or as used.\<close>

theorem stats_consistent:
  assumes "dict_ok d"
  shows "\<exists>st. dictGetStatsHt d t True = Some st \<and> st_totalChainLen st = st_htUsed st \<and>
     sum_list (st_clvector st) = st_htSize st \<and> st_clvector st ! 0 + st_buckets st = st_htSize st \<and>
     (\<forall>b\<in>set (ht_table (dict_ht d t)). length b \<le> st_maxChainLen st)"
proof -
  note h = dict_ht_ok [OF assms, of t]
  let ?st = "\<lparr>st_buckets = 0, st_maxChainLen = 0, st_totalChainLen = 0, st_htSize = length (ht_table (dict_ht d t)),
    st_htUsed = length (concat (ht_table (dict_ht d t))), st_clvector = replicate DICT_STATS_VECTLEN 0\<rparr>"
  have u: "dictGetStatsHt d t True = stats_loop (dict_ht d t) 0 ?st"
    using table_length [OF h] h by (simp add: dictGetStatsHt_def ht_ok_def)
  have "st_clvector ?st ! 0 = 0" by (simp add: DICT_STATS_VECTLEN_def)
  then show ?thesis
    unfolding u using stats_loop_spec [OF h, of ?st 0] by auto
qed

theorem stats_consistent_witness:
  "\<exists>st. dictGetStatsHt demo_dict 0 True = Some st \<and> st_clvector st ! 0 + st_buckets st = st_htSize st"
  using stats_consistent [OF demo_dict_ok] by blast

end
