(* ===== verification/Fenwick.thy ===== *)
theory Fenwick
  imports Valkey_Prelude
begin

unbundle bit_operations_syntax

text \<open>
  The binary indexed tree that \<^verbatim>\<open>kvstore.c\<close> keeps over the sizes of its dicts. The tree is an array that is
  indexed from 1; node \<open>i\<close> holds the sum over the last \<^verbatim>\<open>i & -i\<close> positions up to \<open>i\<close>.
\<close>

subsection \<open>The code\<close>

text \<open>\<^verbatim>\<open>idx & -idx\<close> on a positive \<^verbatim>\<open>int\<close>.\<close>

definition lowbit :: "nat \<Rightarrow> nat" where
  "lowbit i = nat (int i AND - int i)"

text \<open>An access to the array, and the addition of a signed number to an unsigned 64-bit counter (which never
  reaches its upper limit: it counts objects in memory).\<close>

definition bit_get :: "nat list \<Rightarrow> nat \<Rightarrow> nat option" where
  "bit_get t i = (if i < length t then Some (t ! i) else None)"

definition u64_add :: "nat \<Rightarrow> int \<Rightarrow> nat" where
  "u64_add a delta =
     (if 0 \<le> int a + delta then nat (int a + delta) else nat (int a + delta + 18446744073709551616))"

lemma lowbit_rec:
  "lowbit (2 * i) = 2 * lowbit i" "lowbit (2 * i + 1) = 1"
proof -
  have "- (2 * int i) div 2 = - int i" by presburger
  then have "(2 * int i) AND - (2 * int i) = 2 * (int i AND - int i)"
    by (subst and_rec) simp
  then show "lowbit (2 * i) = 2 * lowbit i" by (simp add: lowbit_def nat_mult_distrib)
  have "(- (2 * int i + 1)) div 2 = - int i - 1" by presburger
  then have e: "(2 * int i + 1) AND - (2 * int i + 1) = 1 + 2 * (int i AND NOT (int i))"
    by (subst and_rec) (simp add: not_int_def)
  have n: "int (2 * i + 1) = 2 * int i + 1" by simp
  show "lowbit (2 * i + 1) = 1" by (simp only: lowbit_def n e) simp
qed

lemma lowbit_0 [simp]: "lowbit 0 = 0"
  by (simp add: lowbit_def)

text \<open>A positive number is an odd multiple of its lowest bit.\<close>

lemma lowbit_odd:
  assumes "0 < i"
  shows "\<exists>k m. lowbit i = 2 ^ k \<and> i = (2 * m + 1) * 2 ^ k"
  using assms
proof (induction i rule: less_induct)
  case (less i)
  show ?case
  proof (cases "even i")
    case True
    then obtain j where j: "i = 2 * j" by blast
    then obtain k m where "lowbit j = 2 ^ k" "j = (2 * m + 1) * 2 ^ k" using less.IH [of j] less.prems by auto
    then show ?thesis using j lowbit_rec(1) [of j] by (intro exI [of _ "Suc k"] exI [of _ m]) simp
  next
    case False
    then obtain j where "i = 2 * j + 1" by (elim oddE)
    then show ?thesis using lowbit_rec(2) [of j] by (intro exI [of _ 0] exI [of _ j]) simp
  qed
qed

lemma lowbit_bounds: "0 < i \<Longrightarrow> 0 < lowbit i" "lowbit i \<le> i"
proof -
  show pos: "0 < i \<Longrightarrow> 0 < lowbit i" using lowbit_odd [of i] by auto
  show "lowbit i \<le> i"
  proof (cases "i = 0")
    case False
    then obtain k m where "lowbit i = 2 ^ k" "i = (2 * m + 1) * 2 ^ k" using lowbit_odd [of i] by auto
    then show ?thesis by (metis le_add2 mult_1 mult_le_mono1)
  qed simp
qed

function bit_read :: "nat list \<Rightarrow> nat \<Rightarrow> nat \<Rightarrow> nat option" where
  "bit_read t idx acc =
     (if idx > 0 then do {
        v \<leftarrow> bit_get t idx;
        bit_read t (idx - lowbit idx) (acc + v)
      } else Some acc)"
  by pat_completeness auto
termination by (relation "measure (\<lambda>(_, idx, _). idx)") (auto simp: lowbit_bounds)

declare bit_read.simps [simp del]

function bit_add :: "nat list \<Rightarrow> nat \<Rightarrow> nat \<Rightarrow> int \<Rightarrow> nat list option" where
  "bit_add t n idx delta =
     (if 0 < idx \<and> idx \<le> n then do {
        v \<leftarrow> bit_get t idx;
        c_assert (delta < 0 \<longrightarrow> v \<ge> nat \<bar>delta\<bar>);
        bit_add (t[idx := u64_add v delta]) n (idx + lowbit idx) delta
      } else Some t)"
  by pat_completeness auto
termination by (relation "measure (\<lambda>(_, n, idx, _). Suc n - idx)") (auto simp: lowbit_bounds diff_less_mono2)

declare bit_add.simps [simp del]

fun bit_find :: "nat list \<Rightarrow> nat \<Rightarrow> nat \<Rightarrow> nat \<Rightarrow> nat option" where
  "bit_find t i result target =
     (if i \<noteq> 0 then do {
        let current = result + i;
        v \<leftarrow> bit_get t current;
        if target > v then bit_find t (i div 2) current (target - v) else bit_find t (i div 2) result target
      } else Some result)"

declare bit_find.simps [simp del]

subsection \<open>What the tree represents\<close>

text \<open>\<open>a j\<close> is the value at position \<open>j\<close>, counted from 1.\<close>

definition node_sum :: "(nat \<Rightarrow> nat) \<Rightarrow> nat \<Rightarrow> nat" where
  "node_sum a i = sum a {i - lowbit i<..i}"

definition prefix_sum :: "(nat \<Rightarrow> nat) \<Rightarrow> nat \<Rightarrow> nat" where
  "prefix_sum a i = sum a {0<..i}"

definition fenwick :: "nat list \<Rightarrow> nat \<Rightarrow> (nat \<Rightarrow> nat) \<Rightarrow> bool" where
  "fenwick t n a \<longleftrightarrow> length t = n + 1 \<and> (\<forall>i. 0 < i \<and> i \<le> n \<longrightarrow> t ! i = node_sum a i)"

lemma prefix_sum_0 [simp]: "prefix_sum a 0 = 0"
  by (simp add: prefix_sum_def)

lemma prefix_sum_Suc: "prefix_sum a (Suc i) = prefix_sum a i + a (Suc i)"
proof -
  have "{0<..Suc i} = insert (Suc i) {0<..i}" by auto
  then show ?thesis by (simp add: prefix_sum_def)
qed

lemma prefix_sum_split: "i \<le> j \<Longrightarrow> prefix_sum a j = prefix_sum a i + sum a {i<..j}"
proof -
  assume "i \<le> j"
  then have "{0<..j} = {0<..i} \<union> {i<..j}" by auto
  then show ?thesis unfolding prefix_sum_def by (simp add: sum.union_disjoint)
qed

lemma prefix_sum_mono: "i \<le> j \<Longrightarrow> prefix_sum a i \<le> prefix_sum a j"
  using prefix_sum_split by simp

lemma prefix_sum_node: "prefix_sum a i = prefix_sum a (i - lowbit i) + node_sum a i"
  unfolding node_sum_def by (rule prefix_sum_split) simp

lemma bit_read_spec:
  assumes "fenwick t n a" and "idx \<le> n"
  shows "bit_read t idx acc = Some (acc + prefix_sum a idx)"
  using assms(2)
proof (induction idx arbitrary: acc rule: less_induct)
  case (less idx)
  show ?case
  proof (cases "idx = 0")
    case True
    then show ?thesis by (subst bit_read.simps) simp
  next
    case False
    then have "bit_get t idx = Some (node_sum a idx)"
      using assms(1) less.prems by (simp add: bit_get_def fenwick_def)
    moreover have "idx - lowbit idx < idx" using False lowbit_bounds(1) by simp
    ultimately show ?thesis
      using less False prefix_sum_node [of a idx] by (subst bit_read.simps) simp
  qed
qed

subsection \<open>The nodes that cover a position\<close>

definition covers :: "nat \<Rightarrow> nat \<Rightarrow> bool" where
  "covers i p \<longleftrightarrow> i - lowbit i < p \<and> p \<le> i"

lemma covers_self: "0 < p \<Longrightarrow> covers p p"
  using lowbit_bounds(1) [of p] by (simp add: covers_def)

lemma pow_factor: "j \<le> k \<Longrightarrow> \<exists>e. (2::nat) ^ k = e * 2 ^ j"
  by (metis le_add_diff_inverse2 power_add)

lemma covers_next_le:
  assumes "covers i p" and "p \<noteq> i"
  shows "covers i (p + lowbit p)"
proof -
  have p: "0 < p" "0 < i" using assms(1) by (auto simp: covers_def)
  obtain j m' where j: "lowbit p = 2 ^ j" "p = (2 * m' + 1) * 2 ^ j" using lowbit_odd [OF p(1)] by blast
  obtain k m where k: "lowbit i = 2 ^ k" "i = (2 * m + 1) * 2 ^ k" using lowbit_odd [OF p(2)] by blast
  have lt: "2 * m * 2 ^ k < p" "p < (2 * m + 1) * 2 ^ k"
    using assms k by (auto simp: covers_def algebra_simps)
  have "j < k"
  proof (rule ccontr)
    assume "\<not> j < k"
    then obtain e where "(2::nat) ^ j = e * 2 ^ k" using pow_factor [of k j] by auto
    then have "p = ((2 * m' + 1) * e) * 2 ^ k" using j(2) by (simp only: mult.assoc)
    then have "2 * m < (2 * m' + 1) * e" "(2 * m' + 1) * e < 2 * m + 1"
      using lt by (simp_all only: mult_less_cancel2)
    then show False by linarith
  qed
  then obtain e where "(2::nat) ^ k = e * 2 ^ j" using pow_factor [of j k] by auto
  then have i: "i = ((2 * m + 1) * e) * 2 ^ j" using k(2) by (simp only: mult.assoc)
  have "2 * m' + 1 < (2 * m + 1) * e" using lt(2) k(2) i j(2) by (metis mult_less_cancel2)
  then have "(2 * m' + 1 + 1) * 2 ^ j \<le> ((2 * m + 1) * e) * 2 ^ j" by (intro mult_le_mono1) simp
  then have "p + 2 ^ j \<le> i" using i j(2) by (simp add: algebra_simps)
  then show ?thesis using assms(1) j(1) by (simp add: covers_def)
qed

lemma covers_next_ge:
  assumes c: "covers i (p + lowbit p)" and p: "0 < p"
  shows "covers i p"
proof -
  let ?q = "p + lowbit p"
  have i: "0 < i" using c p by (auto simp: covers_def)
  obtain j m' where j: "lowbit p = 2 ^ j" "p = (2 * m' + 1) * 2 ^ j" using lowbit_odd [OF p] by blast
  obtain k m where k: "lowbit i = 2 ^ k" "i = (2 * m + 1) * 2 ^ k" using lowbit_odd [OF i] by blast
  have q: "?q = (2 * m' + 2) * 2 ^ j" using j by (simp add: algebra_simps)
  have lt: "2 * m * 2 ^ k < ?q" "?q \<le> (2 * m + 1) * 2 ^ k" using c k by (auto simp: covers_def algebra_simps)
  have "2 * m * 2 ^ k < p"
  proof (cases "j \<le> k")
    case True
    then obtain e where "(2::nat) ^ k = e * 2 ^ j" using pow_factor by blast
    then have e: "2 * m * 2 ^ k = (2 * (m * e)) * 2 ^ j" by (simp only: mult.assoc)
    then have "2 * (m * e) < 2 * m' + 2" using lt(1) q by (metis mult_less_cancel2)
    then have "m * e < m' + 1" by simp
    then have "2 * (m * e) < 2 * m' + 1" by linarith
    then show ?thesis unfolding e j(2) by (simp only: mult_less_cancel2) simp
  next
    case False
    then obtain e where "(2::nat) ^ j = e * 2 ^ k" using pow_factor [of k j] by auto
    then have e: "?q = (2 * ((m' + 1) * e)) * 2 ^ k" using q by (simp add: algebra_simps)
    then have "2 * m < 2 * ((m' + 1) * e)" using lt(1) by (metis mult_less_cancel2)
    then have "m < (m' + 1) * e" by simp
    moreover have "2 * ((m' + 1) * e) \<le> 2 * m + 1" using lt(2) e by (metis mult_le_cancel2 zero_less_numeral zero_less_power)
    ultimately show ?thesis by linarith
  qed
  then show ?thesis using c k by (auto simp: covers_def algebra_simps)
qed

lemma covers_step: "0 < p \<Longrightarrow> covers i p \<longleftrightarrow> i = p \<or> covers i (p + lowbit p)"
  using covers_next_le covers_next_ge covers_self by blast

lemma not_covers_next: "0 < p \<Longrightarrow> \<not> covers p (p + lowbit p)"
  using lowbit_bounds(1) [of p] by (simp add: covers_def)

subsection \<open>Updating a value\<close>

lemma node_sum_update:
  assumes "covers i p"
  shows "int (node_sum (a(p := v)) i) = int (node_sum a i) + (int v - int (a p))" and "a p \<le> node_sum a i"
proof -
  have p: "p \<in> {i - lowbit i<..i}" using assms by (simp add: covers_def)
  have "sum (a(p := v)) {i - lowbit i<..i} = v + sum a ({i - lowbit i<..i} - {p})"
    using p by (subst sum.remove [of _ p]) (auto intro: sum.cong)
  moreover have s: "sum a {i - lowbit i<..i} = a p + sum a ({i - lowbit i<..i} - {p})"
    using p by (intro sum.remove) auto
  ultimately show "int (node_sum (a(p := v)) i) = int (node_sum a i) + (int v - int (a p))"
    by (simp add: node_sum_def)
  show "a p \<le> node_sum a i" using s by (simp add: node_sum_def)
qed

lemma node_sum_same: "\<not> covers i p \<Longrightarrow> node_sum (a(p := v)) i = node_sum a i"
  unfolding node_sum_def by (rule sum.cong) (auto simp: covers_def)

lemma bit_add_loop:
  assumes "0 < idx" and "length t = n + 1" and "\<And>i. covers i idx \<Longrightarrow> covers i p"
    and "\<And>i. 0 < i \<Longrightarrow> i \<le> n \<Longrightarrow> t ! i = (if covers i idx then node_sum a i else node_sum (a(p := v)) i)"
  shows "\<exists>t'. bit_add t n idx (int v - int (a p)) = Some t' \<and> fenwick t' n (a(p := v))"
  using assms
proof (induction "Suc n - idx" arbitrary: idx t rule: less_induct)
  case less
  let ?delta = "int v - int (a p)"
  show ?case
  proof (cases "idx \<le> n")
    case False
    then have "\<not> covers i idx" if "i \<le> n" for i using that by (simp add: covers_def)
    then show ?thesis
      using False less.prems by (subst bit_add.simps) (simp add: fenwick_def)
  next
    case True
    let ?t = "t[idx := u64_add (t ! idx) ?delta]" and ?idx = "idx + lowbit idx"
    have idx: "0 < lowbit idx" "covers idx idx" using less.prems(1) lowbit_bounds(1) covers_self by auto
    then have c: "covers idx p" using less.prems(3) by blast
    have g: "t ! idx = node_sum a idx" using less.prems(1,4) True idx(2) by simp
    note upd = node_sum_update [OF c, of a]
    have "u64_add (t ! idx) ?delta = node_sum (a(p := v)) idx"
      using g upd(1) [of v] by (auto simp: u64_add_def)
    then have "?t ! i = (if covers i ?idx then node_sum a i else node_sum (a(p := v)) i)" if "0 < i" "i \<le> n" for i
      using that less.prems True covers_step [OF less.prems(1), of i] not_covers_next [OF less.prems(1)]
      by (auto simp: nth_list_update)
    then have "\<exists>t'. bit_add ?t n ?idx ?delta = Some t' \<and> fenwick t' n (a(p := v))"
      using less.prems idx True covers_step [OF less.prems(1)]
      by (intro less.hyps) auto
    moreover have "nat \<bar>?delta\<bar> \<le> t ! idx" if "?delta < 0" using that g upd(2) by linarith
    ultimately show ?thesis
      using True less.prems(1,2) by (subst bit_add.simps) (simp add: bit_get_def)
  qed
qed

lemma bit_add_spec:
  assumes "fenwick t n a" and "0 < p"
  shows "\<exists>t'. bit_add t n p (int v - int (a p)) = Some t' \<and> fenwick t' n (a(p := v))"
  using assms node_sum_same by (intro bit_add_loop) (auto simp: fenwick_def)

subsection \<open>Finding the position of a target\<close>

lemma lowbit_odd_multiple: "lowbit ((2 * m + 1) * 2 ^ k) = 2 ^ k"
proof (induction k)
  case (Suc k)
  have "(2 * m + 1) * 2 ^ Suc k = 2 * ((2 * m + 1) * 2 ^ k)" by simp
  then show ?case using lowbit_rec(1) Suc by (metis power_Suc)
qed (use lowbit_rec(2) in simp)

lemma node_prefix: "prefix_sum a (m * 2 ^ Suc j + 2 ^ j) = prefix_sum a (m * 2 ^ Suc j) + node_sum a (m * 2 ^ Suc j + 2 ^ j)"
proof -
  have e: "m * 2 ^ Suc j + 2 ^ j = (2 * m + 1) * 2 ^ j" by (simp add: algebra_simps)
  have "lowbit (m * 2 ^ Suc j + 2 ^ j) = 2 ^ j" unfolding e by (rule lowbit_odd_multiple)
  then show ?thesis
    using prefix_sum_node [of a "m * 2 ^ Suc j + 2 ^ j"] by simp
qed

lemma bit_find_loop:
  assumes "fenwick t n a" and "m * 2 ^ j + 2 ^ j \<le> n" and "prefix_sum a (m * 2 ^ j) < T"
    and "T \<le> prefix_sum a (m * 2 ^ j + 2 ^ j)"
  shows "\<exists>r. bit_find t (2 ^ j div 2) (m * 2 ^ j) (T - prefix_sum a (m * 2 ^ j)) = Some r \<and> r < n \<and>
     prefix_sum a r < T \<and> T \<le> prefix_sum a (Suc r)"
  using assms
proof (induction j arbitrary: m)
  case 0
  then show ?case by (subst bit_find.simps) simp
next
  case (Suc j)
  let ?r = "m * 2 ^ Suc j" and ?P = "prefix_sum a"
  have g: "bit_get t (?r + 2 ^ j) = Some (node_sum a (?r + 2 ^ j))"
    using Suc.prems(1,2) by (simp add: bit_get_def fenwick_def)
  have np: "node_sum a (?r + 2 ^ j) = ?P (?r + 2 ^ j) - ?P ?r" using node_prefix [of a m j] by simp
  have le: "?P ?r \<le> ?P (?r + 2 ^ j)" by (rule prefix_sum_mono) simp
  show ?case
  proof (cases "T > ?P (?r + 2 ^ j)")
    case True
    have m: "(2 * m + 1) * 2 ^ j = ?r + 2 ^ j" by (simp add: algebra_simps)
    have lt: "?P (?r + 2 ^ j) - ?P ?r < T - ?P ?r" using True le by (rule diff_less_mono)
    have "bit_find t (2 ^ Suc j div 2) ?r (T - ?P ?r) = bit_find t (2 ^ j div 2) (?r + 2 ^ j) (T - ?P (?r + 2 ^ j))"
      using g np le lt by (subst bit_find.simps) (simp add: Let_def)
    moreover have "?r + 2 ^ j + 2 ^ j = ?r + 2 ^ Suc j" by simp
    ultimately show ?thesis
      using Suc.IH [of "2 * m + 1"] Suc.prems True unfolding m by (simp add: add.commute)
  next
    case False
    have m: "2 * m * 2 ^ j = ?r" by simp
    have lt: "\<not> ?P (?r + 2 ^ j) - ?P ?r < T - ?P ?r" using False by linarith
    have "bit_find t (2 ^ Suc j div 2) ?r (T - ?P ?r) = bit_find t (2 ^ j div 2) ?r (T - ?P ?r)"
      using g np lt by (subst bit_find.simps) (simp add: Let_def)
    then show ?thesis
      using Suc.IH [of "2 * m"] Suc.prems False unfolding m by simp
  qed
qed

lemma bit_find_spec:
  assumes t: "fenwick t (2 ^ b) a" and T: "0 < T" "T \<le> prefix_sum a (2 ^ b)"
  shows "\<exists>r. bit_find t (2 ^ b) 0 T = Some r \<and> r < 2 ^ b \<and> prefix_sum a r < T \<and> T \<le> prefix_sum a (Suc r)"
proof -
  have "bit_get t (2 ^ b) = Some (prefix_sum a (2 ^ b))"
    using t node_prefix [of a 0 b] by (simp add: bit_get_def fenwick_def)
  then have "bit_find t (2 ^ b) 0 T = bit_find t (2 ^ b div 2) 0 T"
    using T by (subst bit_find.simps) (simp add: Let_def)
  then show ?thesis using bit_find_loop [OF t, of 0 b T] T by simp
qed

end
