(* ===== verification/Kvstore.thy ===== *)
theory Kvstore
  imports Dict_Scan Dict_Random Fenwick
begin

text \<open>
  The key-value store of \<^verbatim>\<open>kvstore.c\<close>: an array of dicts, one for each slot, with the totals over all of them:
  the number of keys, of buckets and of non-empty dicts, the list of the dicts that are being
  rehashed, and the binary indexed tree over the sizes of the dicts.

  The callbacks by which a dict reports the start and the end of a rehash are applied to the store right after
  the operation on the dict that caused them: they only read the table sizes, which the events carry. A dict that
  is in the rehashing list is represented there by its index.
\<close>

subsection \<open>State\<close>

record ('k, 'v) kvstore =
  kvs_on_demand :: bool
  kvs_free_empty :: bool
  kvs_dtype :: "'k dictType"
  kvs_dicts :: "('k, 'v) dict option list"
  kvs_nodes :: "bool list"
  num_dicts_bits :: nat
  kvs_rehashing :: "nat list"
  resize_cursor :: nat
  allocated_dicts :: int
  non_empty_dicts :: int
  key_count :: nat
  bucket_count :: nat
  dict_size_index :: "nat list"
  overhead_hashtable_lut :: nat
  overhead_hashtable_rehashing :: nat

definition num_dicts :: "('k, 'v) kvstore \<Rightarrow> nat" where
  "num_dicts kvs = 2 ^ num_dicts_bits kvs"

text \<open>The outer option is the access out of range, the inner one the NULL pointer.\<close>

definition kvstoreGetDict :: "('k, 'v) kvstore \<Rightarrow> int \<Rightarrow> ('k, 'v) dict option option" where
  "kvstoreGetDict kvs didx =
     (if 0 \<le> didx \<and> nat didx < length (kvs_dicts kvs) then Some (kvs_dicts kvs ! nat didx) else None)"

subsection \<open>Callbacks of the dicts\<close>

definition kvstoreDictRehashingStarted :: "nat \<Rightarrow> nat \<Rightarrow> nat \<Rightarrow> ('k, 'v) kvstore \<Rightarrow> ('k, 'v) kvstore" where
  "kvstoreDictRehashingStarted didx from to kvs = kvs\<lparr>
     kvs_rehashing := kvs_rehashing kvs @ [didx],
     kvs_nodes := (kvs_nodes kvs)[didx := True],
     bucket_count := u64_add (bucket_count kvs) (int to),
     overhead_hashtable_lut := u64_add (overhead_hashtable_lut kvs) (int to),
     overhead_hashtable_rehashing := u64_add (overhead_hashtable_rehashing kvs) (int from)\<rparr>"

definition kvstoreDictRehashingCompleted :: "nat \<Rightarrow> nat \<Rightarrow> nat \<Rightarrow> ('k, 'v) kvstore \<Rightarrow> ('k, 'v) kvstore" where
  "kvstoreDictRehashingCompleted didx from to kvs =
     (let kvs = (if kvs_nodes kvs ! didx
                 then kvs\<lparr>kvs_rehashing := remove1 didx (kvs_rehashing kvs), kvs_nodes := (kvs_nodes kvs)[didx := False]\<rparr>
                 else kvs) in
      kvs\<lparr>bucket_count := u64_add (bucket_count kvs) (- int from),
        overhead_hashtable_lut := u64_add (overhead_hashtable_lut kvs) (- int from),
        overhead_hashtable_rehashing := u64_add (overhead_hashtable_rehashing kvs) (- int from)\<rparr>)"

fun kvs_event :: "nat \<Rightarrow> ('k, 'v) kvstore \<Rightarrow> rehash_event \<Rightarrow> ('k, 'v) kvstore" where
  "kvs_event didx kvs (RehashingStarted from to) = kvstoreDictRehashingStarted didx from to kvs"
| "kvs_event didx kvs (RehashingCompleted from to) = kvstoreDictRehashingCompleted didx from to kvs"

text \<open>Put back a dict after an operation on it, and deliver the events.\<close>

definition kvs_put :: "('k, 'v) kvstore \<Rightarrow> nat \<Rightarrow> ('k, 'v) dict \<Rightarrow> ('k, 'v) kvstore" where
  "kvs_put kvs didx d =
     foldl (kvs_event didx) (kvs\<lparr>kvs_dicts := (kvs_dicts kvs)[didx := Some (d\<lparr>dict_events := []\<rparr>)]\<rparr>) (dict_events d)"

subsection \<open>Sizes\<close>

definition kvstoreDictSize :: "('k, 'v) kvstore \<Rightarrow> int \<Rightarrow> nat option" where
  "kvstoreDictSize kvs didx = do {
     d \<leftarrow> kvstoreGetDict kvs didx;
     Some (case d of None \<Rightarrow> 0 | Some d \<Rightarrow> dictSize d)
   }"

definition kvstoreSize :: "('k, 'v) kvstore \<Rightarrow> nat option" where
  "kvstoreSize kvs = (if num_dicts kvs \<noteq> 1 then Some (key_count kvs) else kvstoreDictSize kvs 0)"

definition kvstoreBuckets :: "('k, 'v) kvstore \<Rightarrow> nat option" where
  "kvstoreBuckets kvs =
     (if num_dicts kvs \<noteq> 1 then Some (bucket_count kvs)
      else do {
        d \<leftarrow> kvstoreGetDict kvs 0;
        Some (case d of None \<Rightarrow> 0 | Some d \<Rightarrow> dictBuckets d)
      })"

definition cumulativeKeyCountRead :: "('k, 'v) kvstore \<Rightarrow> nat \<Rightarrow> nat option" where
  "cumulativeKeyCountRead kvs didx =
     (if num_dicts kvs = 1 then do { c_assert (didx = 0); kvstoreSize kvs }
      else bit_read (dict_size_index kvs) (didx + 1) 0)"

definition cumulativeKeyCountAdd :: "('k, 'v) kvstore \<Rightarrow> nat \<Rightarrow> int \<Rightarrow> ('k, 'v) kvstore option" where
  "cumulativeKeyCountAdd kvs didx delta = do {
     let kvs = kvs\<lparr>key_count := u64_add (key_count kvs) delta\<rparr>;
     r \<leftarrow> kvstoreGetDict kvs (int didx);
     d \<leftarrow> r;
     let dsize = dictSize d;
     let non_empty_dicts_delta = (if dsize = 1 then 1 else if dsize = 0 then -1 else 0);
     let kvs = kvs\<lparr>non_empty_dicts := non_empty_dicts kvs + non_empty_dicts_delta\<rparr>;
     if num_dicts kvs = 1 then Some kvs
     else do {
       t \<leftarrow> bit_add (dict_size_index kvs) (num_dicts kvs) (didx + 1) delta;
       Some (kvs\<lparr>dict_size_index := t\<rparr>)
     }
   }"

subsection \<open>Dicts on demand\<close>

definition createDictIfNeeded :: "('k, 'v) kvstore \<Rightarrow> nat \<Rightarrow> (('k, 'v) kvstore \<times> ('k, 'v) dict) option" where
  "createDictIfNeeded kvs didx = do {
     r \<leftarrow> kvstoreGetDict kvs (int didx);
     case r of
       Some d \<Rightarrow> Some (kvs, d)
     | None \<Rightarrow> do {
         let d = dictCreate (kvs_dtype kvs);
         Some (kvs\<lparr>kvs_dicts := (kvs_dicts kvs)[didx := Some d], kvs_nodes := (kvs_nodes kvs)[didx := False],
           allocated_dicts := allocated_dicts kvs + 1\<rparr>, d)
       }
   }"

definition freeDictIfNeeded :: "('k, 'v) kvstore \<Rightarrow> int \<Rightarrow> ('k, 'v) kvstore option" where
  "freeDictIfNeeded kvs didx =
     (if \<not> kvs_free_empty kvs then Some kvs
      else do {
        r \<leftarrow> kvstoreGetDict kvs didx;
        case r of
          None \<Rightarrow> Some kvs
        | Some d \<Rightarrow>
            if dictSize d \<noteq> 0 \<or> pauserehash d > 0 then Some kvs
            else do {
              d \<leftarrow> dictRelease d;
              let kvs = kvs_put kvs (nat didx) d;
              Some (kvs\<lparr>kvs_dicts := (kvs_dicts kvs)[nat didx := None], allocated_dicts := allocated_dicts kvs - 1\<rparr>)
            }
      })"

fun create_all :: "('k, 'v) kvstore \<Rightarrow> nat \<Rightarrow> nat \<Rightarrow> ('k, 'v) kvstore option" where
  "create_all kvs i 0 = Some kvs"
| "create_all kvs i (Suc n) = do { (kvs, _) \<leftarrow> createDictIfNeeded kvs i; create_all kvs (i + 1) n }"

definition kvstoreCreate :: "'k dictType \<Rightarrow> nat \<Rightarrow> bool \<Rightarrow> bool \<Rightarrow> ('k, 'v) kvstore option" where
  "kvstoreCreate type bits on_demand free_empty = do {
     c_assert (bits \<le> 16);
     c_assert (has_rehashingStarted type);
     c_assert (has_rehashingCompleted type);
     let n = 2 ^ bits;
     let kvs = \<lparr>kvs_on_demand = on_demand, kvs_free_empty = free_empty, kvs_dtype = type,
       kvs_dicts = replicate n None, kvs_nodes = replicate n False, num_dicts_bits = bits,
       kvs_rehashing = [], resize_cursor = 0, allocated_dicts = 0, non_empty_dicts = 0, key_count = 0,
       bucket_count = 0, dict_size_index = (if n > 1 then replicate (n + 1) 0 else []),
       overhead_hashtable_lut = 0, overhead_hashtable_rehashing = 0\<rparr>;
     if \<not> on_demand then create_all kvs 0 n else Some kvs
   }"

text \<open>The loop of \<^verbatim>\<open>kvstoreEmpty\<close>: the node is forgotten first, so that a faked end of rehashing does not touch
  the list, which is emptied afterwards.\<close>

fun empty_all :: "('k, 'v) kvstore \<Rightarrow> nat \<Rightarrow> nat \<Rightarrow> ('k, 'v) kvstore option" where
  "empty_all kvs didx 0 = Some kvs"
| "empty_all kvs didx (Suc n) = do {
     r \<leftarrow> kvstoreGetDict kvs (int didx);
     kvs \<leftarrow> (case r of
         None \<Rightarrow> Some kvs
       | Some d \<Rightarrow> do {
           let kvs = kvs\<lparr>kvs_nodes := (kvs_nodes kvs)[didx := False]\<rparr>;
           d \<leftarrow> dictEmpty d;
           freeDictIfNeeded (kvs_put kvs didx d) (int didx)
         });
     empty_all kvs (didx + 1) n
   }"

definition kvstoreEmpty :: "('k, 'v) kvstore \<Rightarrow> ('k, 'v) kvstore option" where
  "kvstoreEmpty kvs = do {
     kvs \<leftarrow> empty_all kvs 0 (num_dicts kvs);
     Some (kvs\<lparr>kvs_rehashing := [], key_count := 0, non_empty_dicts := 0, resize_cursor := 0, bucket_count := 0,
       dict_size_index := replicate (length (dict_size_index kvs)) 0,
       overhead_hashtable_lut := 0, overhead_hashtable_rehashing := 0\<rparr>)
   }"

subsection \<open>Finding a dict\<close>

definition kvstoreFindDictIndexByKeyIndex :: "('k, 'v) kvstore \<Rightarrow> nat \<Rightarrow> nat option" where
  "kvstoreFindDictIndexByKeyIndex kvs target = do {
     sz \<leftarrow> kvstoreSize kvs;
     if num_dicts kvs = 1 \<or> sz = 0 then Some 0
     else do {
       c_assert (target \<le> sz);
       bit_find (dict_size_index kvs) (2 ^ num_dicts_bits kvs) 0 target
     }
   }"

definition kvstoreGetFirstNonEmptyDictIndex :: "('k, 'v) kvstore \<Rightarrow> nat option" where
  "kvstoreGetFirstNonEmptyDictIndex kvs = kvstoreFindDictIndexByKeyIndex kvs 1"

definition kvstoreGetNextNonEmptyDictIndex :: "('k, 'v) kvstore \<Rightarrow> nat \<Rightarrow> int option" where
  "kvstoreGetNextNonEmptyDictIndex kvs didx =
     (if num_dicts kvs = 1 then do { c_assert (didx = 0); Some (-1) }
      else do {
        read \<leftarrow> cumulativeKeyCountRead kvs didx;
        sz \<leftarrow> kvstoreSize kvs;
        if read + 1 \<le> sz then map_option int (kvstoreFindDictIndexByKeyIndex kvs (read + 1)) else Some (-1)
      })"

definition kvstoreGetFairRandomDictIndex :: "(nat \<Rightarrow> nat) \<Rightarrow> nat \<Rightarrow> ('k, 'v) kvstore \<Rightarrow> (nat \<times> nat) option" where
  "kvstoreGetFairRandomDictIndex rnd n kvs = do {
     sz \<leftarrow> kvstoreSize kvs;
     let target = (if sz \<noteq> 0 then rnd n mod sz + 1 else 0);
     r \<leftarrow> kvstoreFindDictIndexByKeyIndex kvs target;
     Some (r, if sz \<noteq> 0 then n + 1 else n)
   }"

subsection \<open>Scanning\<close>

definition addDictIndexToCursor :: "('k, 'v) kvstore \<Rightarrow> int \<Rightarrow> 64 word \<Rightarrow> 64 word" where
  "addDictIndexToCursor kvs didx cursor =
     (if num_dicts kvs = 1 then cursor
      else if didx < 0 then cursor
      else push_bit (num_dicts_bits kvs) cursor OR word_of_int didx)"

definition getAndClearDictIndexFromCursor :: "('k, 'v) kvstore \<Rightarrow> 64 word \<Rightarrow> nat \<times> 64 word" where
  "getAndClearDictIndexFromCursor kvs cursor =
     (if num_dicts kvs = 1 then (0, cursor)
      else (unat (cursor AND word_of_nat (num_dicts kvs - 1)), drop_bit (num_dicts_bits kvs) cursor))"

text \<open>The second half of \<^verbatim>\<open>kvstoreScan\<close>: dict \<open>didx\<close> is scanned from its own \<open>cursor\<close>. The callback is taken not
  to change the store; its calls are the entries of the result, in order.\<close>

definition scan_dict :: "(('k, 'v) dict \<Rightarrow> bool) \<Rightarrow> ('k, 'v) kvstore \<Rightarrow> nat \<Rightarrow> 64 word \<Rightarrow> bool \<Rightarrow>
    (('k, 'v) kvstore \<times> 64 word \<times> ('k, 'v) dictEntry list) option" where
  "scan_dict skip_cb kvs didx cursor only = do {
     r \<leftarrow> kvstoreGetDict kvs (int didx);
     let skip = (case r of None \<Rightarrow> True | Some d \<Rightarrow> skip_cb d);
     (kvs, cur, es) \<leftarrow> (case r of
         None \<Rightarrow> Some (kvs, 0, [])
       | Some d \<Rightarrow>
           if skip then Some (kvs, 0, [])
           else do {
             (d, cur, es) \<leftarrow> dictScan d cursor;
             kvs \<leftarrow> freeDictIfNeeded (kvs_put kvs didx d) (int didx);
             Some (kvs, cur, es)
           });
     if cur = 0 \<or> skip then
       if only then Some (kvs, 0, es)
       else do {
         didx \<leftarrow> kvstoreGetNextNonEmptyDictIndex kvs didx;
         Some (kvs, if didx = -1 then 0 else addDictIndexToCursor kvs didx cur, es)
       }
     else Some (kvs, addDictIndexToCursor kvs (int didx) cur, es)
   }"

definition kvstoreScan :: "(('k, 'v) dict \<Rightarrow> bool) \<Rightarrow> ('k, 'v) kvstore \<Rightarrow> 64 word \<Rightarrow> int \<Rightarrow>
    (('k, 'v) kvstore \<times> 64 word \<times> ('k, 'v) dictEntry list) option" where
  "kvstoreScan skip_cb kvs cursor onlydidx =
     (case getAndClearDictIndexFromCursor kvs cursor of (didx, cursor) \<Rightarrow>
      if onlydidx \<ge> 0 then
        if int didx < onlydidx then do {
          c_assert (nat onlydidx < num_dicts kvs);
          scan_dict skip_cb kvs (nat onlydidx) 0 True
        }
        else if int didx > onlydidx then Some (kvs, 0, [])
        else scan_dict skip_cb kvs didx cursor True
      else scan_dict skip_cb kvs didx cursor False)"

subsection \<open>Expanding and resizing\<close>

fun expand_all :: "dictResizeEnable \<Rightarrow> (nat \<Rightarrow> bool) option \<Rightarrow> (nat \<Rightarrow> bool) \<Rightarrow> ('k, 'v) kvstore \<Rightarrow> nat \<Rightarrow> nat \<Rightarrow> nat \<Rightarrow>
    (('k, 'v) kvstore \<times> bool) option" where
  "expand_all cr try_expand skip_cb kvs newsize i 0 = Some (kvs, True)"
| "expand_all cr try_expand skip_cb kvs newsize i (Suc n) =
     (if skip_cb i then expand_all cr try_expand skip_cb kvs newsize (i + 1) n
      else do {
        (kvs, d) \<leftarrow> createDictIfNeeded kvs i;
        (d, result) \<leftarrow> (case try_expand of Some f \<Rightarrow> dictTryExpand cr f d newsize | None \<Rightarrow> dictExpand cr d newsize);
        let kvs = kvs_put kvs i d;
        if try_expand \<noteq> None \<and> \<not> result then Some (kvs, False)
        else expand_all cr try_expand skip_cb kvs newsize (i + 1) n
      })"

definition kvstoreExpand :: "dictResizeEnable \<Rightarrow> (nat \<Rightarrow> bool) option \<Rightarrow> (nat \<Rightarrow> bool) \<Rightarrow> ('k, 'v) kvstore \<Rightarrow> nat \<Rightarrow>
    (('k, 'v) kvstore \<times> bool) option" where
  "kvstoreExpand cr try_expand skip_cb kvs newsize =
     (if newsize = 0 then Some (kvs, True) else expand_all cr try_expand skip_cb kvs newsize 0 (num_dicts kvs))"

fun resize_loop :: "dictResizeEnable \<Rightarrow> ('k, 'v) kvstore \<Rightarrow> nat \<Rightarrow> ('k, 'v) kvstore option" where
  "resize_loop cr kvs 0 = Some kvs"
| "resize_loop cr kvs (Suc limit) = do {
     let didx = resize_cursor kvs;
     r \<leftarrow> kvstoreGetDict kvs (int didx);
     kvs \<leftarrow> (case r of
         None \<Rightarrow> Some kvs
       | Some d \<Rightarrow> do {
           (d, ok) \<leftarrow> dictShrinkIfNeeded cr d;
           d \<leftarrow> (if ok then Some d else map_option fst (dictExpandIfNeeded cr d));
           Some (kvs_put kvs didx d)
         });
     resize_loop cr (kvs\<lparr>resize_cursor := (didx + 1) mod num_dicts kvs\<rparr>) limit
   }"

definition kvstoreTryResizeDicts :: "dictResizeEnable \<Rightarrow> ('k, 'v) kvstore \<Rightarrow> nat \<Rightarrow> ('k, 'v) kvstore option" where
  "kvstoreTryResizeDicts cr kvs limit =
     resize_loop cr kvs (if limit > num_dicts kvs then num_dicts kvs else limit)"

text \<open>\<open>late i\<close> is the clock that \<^verbatim>\<open>dictRehashMicroseconds\<close> sees in round \<open>i\<close>, and \<open>over i\<close> whether the time is over
  after that round.\<close>

partial_function (option) rehash_rounds :: "dictResizeEnable \<Rightarrow> (nat \<Rightarrow> nat \<Rightarrow> bool) \<Rightarrow> (nat \<Rightarrow> bool) \<Rightarrow> nat \<Rightarrow>
    ('k, 'v) kvstore \<Rightarrow> ('k, 'v) kvstore option" where
  "rehash_rounds cr late over i kvs =
     (case kvs_rehashing kvs of
        [] \<Rightarrow> Some kvs
      | didx # _ \<Rightarrow> do {
          r \<leftarrow> kvstoreGetDict kvs (int didx);
          d \<leftarrow> r;
          (d, _) \<leftarrow> dictRehashMicroseconds cr (late i) d;
          let kvs = kvs_put kvs didx d;
          if over i then Some kvs else rehash_rounds cr late over (i + 1) kvs
        })"

definition kvstoreIncrementallyRehash :: "dictResizeEnable \<Rightarrow> (nat \<Rightarrow> nat \<Rightarrow> bool) \<Rightarrow> (nat \<Rightarrow> bool) \<Rightarrow>
    ('k, 'v) kvstore \<Rightarrow> ('k, 'v) kvstore option" where
  "kvstoreIncrementallyRehash cr late over kvs = rehash_rounds cr late over 0 kvs"

subsection \<open>Operations on one dict\<close>

definition kvstoreDictFetchValue :: "dictResizeEnable \<Rightarrow> ('k, 'v) kvstore \<Rightarrow> nat \<Rightarrow> 'k \<Rightarrow>
    (('k, 'v) kvstore \<times> 'v option option) option" where
  "kvstoreDictFetchValue cr kvs didx key = do {
     r \<leftarrow> kvstoreGetDict kvs (int didx);
     case r of
       None \<Rightarrow> Some (kvs, None)
     | Some d \<Rightarrow> do { (d, v) \<leftarrow> dictFetchValue cr d key; Some (kvs_put kvs didx d, v) }
   }"

definition kvstoreDictFind :: "dictResizeEnable \<Rightarrow> ('k, 'v) kvstore \<Rightarrow> nat \<Rightarrow> 'k \<Rightarrow>
    (('k, 'v) kvstore \<times> (nat \<times> nat \<times> nat) option) option" where
  "kvstoreDictFind cr kvs didx key = do {
     r \<leftarrow> kvstoreGetDict kvs (int didx);
     case r of
       None \<Rightarrow> Some (kvs, None)
     | Some d \<Rightarrow> do { (d, pos) \<leftarrow> dictFind cr d key; Some (kvs_put kvs didx d, pos) }
   }"

definition kvstoreDictAddRaw :: "dictResizeEnable \<Rightarrow> ('k, 'v) kvstore \<Rightarrow> nat \<Rightarrow> 'k \<Rightarrow>
    (('k, 'v) kvstore \<times> ((nat \<times> nat \<times> nat) + (nat \<times> nat \<times> nat))) option" where
  "kvstoreDictAddRaw cr kvs didx key = do {
     (kvs, d) \<leftarrow> createDictIfNeeded kvs didx;
     (d, ret) \<leftarrow> dictAddRaw cr d key;
     let kvs = kvs_put kvs didx d;
     case ret of
       Inl existing \<Rightarrow> Some (kvs, Inl existing)
     | Inr pos \<Rightarrow> do { kvs \<leftarrow> cumulativeKeyCountAdd kvs didx 1; Some (kvs, Inr pos) }
   }"

definition kvstoreDictSetVal :: "('k, 'v) kvstore \<Rightarrow> nat \<Rightarrow> nat \<times> nat \<times> nat \<Rightarrow> 'v \<Rightarrow> ('k, 'v) kvstore option" where
  "kvstoreDictSetVal kvs didx pos val = do {
     r \<leftarrow> kvstoreGetDict kvs (int didx);
     d \<leftarrow> r;
     d \<leftarrow> dictSetVal d pos val;
     Some (kvs_put kvs didx d)
   }"

definition kvstoreDictTwoPhaseUnlinkFind :: "dictResizeEnable \<Rightarrow> ('k, 'v) kvstore \<Rightarrow> nat \<Rightarrow> 'k \<Rightarrow>
    (('k, 'v) kvstore \<times> (nat \<times> nat \<times> nat) option) option" where
  "kvstoreDictTwoPhaseUnlinkFind cr kvs didx key = do {
     r \<leftarrow> kvstoreGetDict kvs (int didx);
     case r of
       None \<Rightarrow> Some (kvs, None)
     | Some d \<Rightarrow> do { (d, pos) \<leftarrow> dictTwoPhaseUnlinkFind cr d key; Some (kvs_put kvs didx d, pos) }
   }"

definition kvstoreDictTwoPhaseUnlinkFree :: "dictResizeEnable \<Rightarrow> ('k, 'v) kvstore \<Rightarrow> nat \<Rightarrow> (nat \<times> nat \<times> nat) option \<Rightarrow>
    ('k, 'v) kvstore option" where
  "kvstoreDictTwoPhaseUnlinkFree cr kvs didx he = do {
     r \<leftarrow> kvstoreGetDict kvs (int didx);
     d \<leftarrow> r;
     d \<leftarrow> dictTwoPhaseUnlinkFree cr d he;
     kvs \<leftarrow> cumulativeKeyCountAdd (kvs_put kvs didx d) didx (-1);
     freeDictIfNeeded kvs (int didx)
   }"

definition kvstoreDictDelete :: "dictResizeEnable \<Rightarrow> ('k, 'v) kvstore \<Rightarrow> nat \<Rightarrow> 'k \<Rightarrow> (('k, 'v) kvstore \<times> bool) option" where
  "kvstoreDictDelete cr kvs didx key = do {
     r \<leftarrow> kvstoreGetDict kvs (int didx);
     case r of
       None \<Rightarrow> Some (kvs, False)
     | Some d \<Rightarrow> do {
         (d, ret) \<leftarrow> dictDelete cr d key;
         let kvs = kvs_put kvs didx d;
         if ret then do {
           kvs \<leftarrow> cumulativeKeyCountAdd kvs didx (-1);
           kvs \<leftarrow> freeDictIfNeeded kvs (int didx);
           Some (kvs, True)
         }
         else Some (kvs, False)
       }
   }"

definition kvstoreDictExpand :: "dictResizeEnable \<Rightarrow> ('k, 'v) kvstore \<Rightarrow> nat \<Rightarrow> nat \<Rightarrow> (('k, 'v) kvstore \<times> bool) option" where
  "kvstoreDictExpand cr kvs didx sz = do {
     r \<leftarrow> kvstoreGetDict kvs (int didx);
     case r of
       None \<Rightarrow> Some (kvs, False)
     | Some d \<Rightarrow> do { (d, ok) \<leftarrow> dictExpand cr d sz; Some (kvs_put kvs didx d, ok) }
   }"

subsection \<open>Iterating over all dicts\<close>

text \<open>\<open>ki_d\<close> is whether the embedded iterator has a dict, which is then dict number \<open>ki_didx\<close>. The address that an
  unsafe iterator would record plays no part for the safe iterators used here.\<close>

record ('k, 'v) kvstoreIterator =
  ki_didx :: int
  ki_next_didx :: int
  ki_d :: bool
  ki_di :: "('k, 'v) dictIterator"

definition kvstoreIteratorInit :: "('k, 'v) kvstore \<Rightarrow> ('k, 'v) kvstoreIterator option" where
  "kvstoreIteratorInit kvs = do {
     first \<leftarrow> kvstoreGetFirstNonEmptyDictIndex kvs;
     Some \<lparr>ki_didx = -1, ki_next_didx = int first, ki_d = False, ki_di = dictInitSafeIterator\<rparr>
   }"

text \<open>End the iteration over the current dict.\<close>

definition ki_leave :: "('k, 'v) kvstore \<Rightarrow> ('k, 'v) kvstoreIterator \<Rightarrow> ('k, 'v) kvstore option" where
  "ki_leave kvs it = do {
     r \<leftarrow> kvstoreGetDict kvs (ki_didx it);
     case r of
       None \<Rightarrow> Some kvs
     | Some d \<Rightarrow> do {
         d \<leftarrow> dictResetIterator (\<lambda>_. 0) d (ki_di it);
         freeDictIfNeeded (kvs_put kvs (nat (ki_didx it)) d) (ki_didx it)
       }
   }"

definition kvstoreIteratorRelease :: "('k, 'v) kvstore \<Rightarrow> ('k, 'v) kvstoreIterator \<Rightarrow> ('k, 'v) kvstore option" where
  "kvstoreIteratorRelease kvs it =
     (if it_fresh (ki_di it) then freeDictIfNeeded kvs (ki_didx it)
      else do {
        r \<leftarrow> kvstoreGetDict kvs (ki_didx it);
        d \<leftarrow> r;
        d \<leftarrow> dictResetIterator (\<lambda>_. 0) d (ki_di it);
        freeDictIfNeeded (kvs_put kvs (nat (ki_didx it)) d) (ki_didx it)
      })"

definition kvstoreIteratorNextDict :: "('k, 'v) kvstore \<Rightarrow> ('k, 'v) kvstoreIterator \<Rightarrow>
    (('k, 'v) kvstore \<times> ('k, 'v) kvstoreIterator \<times> ('k, 'v) dict option) option" where
  "kvstoreIteratorNextDict kvs it =
     (if ki_next_didx it = -1 then Some (kvs, it, None)
      else do {
        kvs \<leftarrow> (if ki_didx it \<noteq> -1 then ki_leave kvs it else Some kvs);
        let didx = ki_next_didx it;
        nxt \<leftarrow> kvstoreGetNextNonEmptyDictIndex kvs (nat didx);
        d \<leftarrow> kvstoreGetDict kvs didx;
        Some (kvs, it\<lparr>ki_didx := didx, ki_next_didx := nxt\<rparr>, d)
      })"

definition kvstoreIteratorNext :: "('k, 'v) kvstore \<Rightarrow> ('k, 'v) kvstoreIterator \<Rightarrow>
    (('k, 'v) kvstore \<times> ('k, 'v) kvstoreIterator \<times> ('k, 'v) dictEntry option) option" where
  "kvstoreIteratorNext kvs it = do {
     (kvs, it, de) \<leftarrow>
       (if ki_d it then do {
          r \<leftarrow> kvstoreGetDict kvs (ki_didx it);
          d \<leftarrow> r;
          (d, di, de) \<leftarrow> dictNext (\<lambda>_. 0) d (ki_di it);
          Some (kvs_put kvs (nat (ki_didx it)) d, it\<lparr>ki_di := di\<rparr>, de)
        } else Some (kvs, it, None));
     case de of
       Some e \<Rightarrow> Some (kvs, it, Some e)
     | None \<Rightarrow> do {
         (kvs, it, r) \<leftarrow> kvstoreIteratorNextDict kvs it;
         case r of
           None \<Rightarrow> Some (kvs, it, None)
         | Some d \<Rightarrow> do {
             (d, di, de) \<leftarrow> dictNext (\<lambda>_. 0) d dictInitSafeIterator;
             Some (kvs_put kvs (nat (ki_didx it)) d, it\<lparr>ki_d := True, ki_di := di\<rparr>, de)
           }
       }
   }"

definition kvstoreIteratorGetCurrentDictIndex :: "('k, 'v) kvstore \<Rightarrow> ('k, 'v) kvstoreIterator \<Rightarrow> int option" where
  "kvstoreIteratorGetCurrentDictIndex kvs it = do {
     c_assert (ki_didx it \<ge> 0 \<and> ki_didx it < int (num_dicts kvs));
     Some (ki_didx it)
   }"

subsection \<open>Iterating over one dict\<close>

record ('k, 'v) kvstoreDictIterator =
  kdi_didx :: nat
  kdi_di :: "('k, 'v) dictIterator"

definition kvstoreGetDictIterator :: "nat \<Rightarrow> ('k, 'v) kvstoreDictIterator" where
  "kvstoreGetDictIterator didx = \<lparr>kdi_didx = didx, kdi_di = dictInitIterator\<rparr>"

definition kvstoreGetDictSafeIterator :: "nat \<Rightarrow> ('k, 'v) kvstoreDictIterator" where
  "kvstoreGetDictSafeIterator didx = \<lparr>kdi_didx = didx, kdi_di = dictInitSafeIterator\<rparr>"

definition kvstoreReleaseDictIterator :: "(nat \<Rightarrow> 64 word) \<Rightarrow> ('k, 'v) kvstore \<Rightarrow> ('k, 'v) kvstoreDictIterator \<Rightarrow>
    ('k, 'v) kvstore option" where
  "kvstoreReleaseDictIterator addr kvs it = do {
     r \<leftarrow> kvstoreGetDict kvs (int (kdi_didx it));
     case r of
       None \<Rightarrow> Some kvs
     | Some d \<Rightarrow> do {
         d \<leftarrow> dictResetIterator addr d (kdi_di it);
         freeDictIfNeeded (kvs_put kvs (kdi_didx it) d) (int (kdi_didx it))
       }
   }"

definition kvstoreDictIteratorNext :: "(nat \<Rightarrow> 64 word) \<Rightarrow> ('k, 'v) kvstore \<Rightarrow> ('k, 'v) kvstoreDictIterator \<Rightarrow>
    (('k, 'v) kvstore \<times> ('k, 'v) kvstoreDictIterator \<times> ('k, 'v) dictEntry option) option" where
  "kvstoreDictIteratorNext addr kvs it = do {
     r \<leftarrow> kvstoreGetDict kvs (int (kdi_didx it));
     case r of
       None \<Rightarrow> Some (kvs, it, None)
     | Some d \<Rightarrow> do {
         (d, di, de) \<leftarrow> dictNext addr d (kdi_di it);
         Some (kvs_put kvs (kdi_didx it) d, it\<lparr>kdi_di := di\<rparr>, de)
       }
   }"

subsection \<open>Random entries of one dict\<close>

definition kvstoreDictGetRandomKey :: "dictResizeEnable \<Rightarrow> (nat \<Rightarrow> nat) \<Rightarrow> ('k, 'v) kvstore \<Rightarrow> nat \<Rightarrow> nat \<Rightarrow>
    (('k, 'v) kvstore \<times> ('k, 'v) dictEntry option \<times> nat) option" where
  "kvstoreDictGetRandomKey cr rnd kvs didx n = do {
     r \<leftarrow> kvstoreGetDict kvs (int didx);
     case r of
       None \<Rightarrow> Some (kvs, None, n)
     | Some d \<Rightarrow> do { (d, e, n) \<leftarrow> dictGetRandomKey cr rnd d n; Some (kvs_put kvs didx d, e, n) }
   }"

definition kvstoreDictGetFairRandomKey :: "dictResizeEnable \<Rightarrow> (nat \<Rightarrow> nat) \<Rightarrow> ('k, 'v) kvstore \<Rightarrow> nat \<Rightarrow> nat \<Rightarrow>
    (('k, 'v) kvstore \<times> ('k, 'v) dictEntry option \<times> nat) option" where
  "kvstoreDictGetFairRandomKey cr rnd kvs didx n = do {
     r \<leftarrow> kvstoreGetDict kvs (int didx);
     case r of
       None \<Rightarrow> Some (kvs, None, n)
     | Some d \<Rightarrow> do { (d, e, n) \<leftarrow> dictGetFairRandomKey cr rnd d n; Some (kvs_put kvs didx d, e, n) }
   }"

definition kvstoreDictGetSomeKeys :: "dictResizeEnable \<Rightarrow> (nat \<Rightarrow> nat) \<Rightarrow> ('k, 'v) kvstore \<Rightarrow> nat \<Rightarrow>
    ('k, 'v) dictEntry option list \<Rightarrow> nat \<Rightarrow> nat \<Rightarrow>
    (('k, 'v) kvstore \<times> ('k, 'v) dictEntry option list \<times> nat \<times> nat) option" where
  "kvstoreDictGetSomeKeys cr rnd kvs didx des cnt n = do {
     r \<leftarrow> kvstoreGetDict kvs (int didx);
     case r of
       None \<Rightarrow> Some (kvs, des, 0, n)
     | Some d \<Rightarrow> do { (d, des, k, n) \<leftarrow> dictGetSomeKeys cr rnd d des cnt n; Some (kvs_put kvs didx d, des, k, n) }
   }"

end
