(* ===== verification/Kvstore_Inv.thy ===== *)
theory Kvstore_Inv
  imports Kvstore
begin

text \<open>
  The invariant of the key-value store: every dict is well-formed, the number of keys is the sum over the dicts, and
  the binary indexed tree represents their sizes. The operations on keys keep it, and are those of a map from
  pairs of a dict index and a key.
\<close>

subsection \<open>Events do not matter for the contents\<close>

lemma dict_events_simps [simp]:
  "dict_kvs (d\<lparr>dict_events := e\<rparr>) = dict_kvs d"
  "dict_map (d\<lparr>dict_events := e\<rparr>) = dict_map d"
  "dict_ok (d\<lparr>dict_events := e\<rparr>) = dict_ok d"
  "dict_ready (d\<lparr>dict_events := e\<rparr>) = dict_ready d"
  "dictSize (d\<lparr>dict_events := e\<rparr>) = dictSize d"
  "dictIsRehashing (d\<lparr>dict_events := e\<rparr>) = dictIsRehashing d"
  "dictBuckets (d\<lparr>dict_events := e\<rparr>) = dictBuckets d"
  by (simp_all add: dict_kvs_def dict_map_def dict_ok_def dict_ready_def dictSize_def dictIsRehashing_def dictBuckets_def)

lemma entry_at_events [simp]: "entry_at (d\<lparr>dict_events := e\<rparr>) pos = entry_at d pos"
  by (simp add: entry_at_def dict_ht_def split: prod.splits)

lemma kvs_event_simps [simp]:
  "kvs_dicts (kvs_event i kvs e) = kvs_dicts kvs"
  "kvs_dtype (kvs_event i kvs e) = kvs_dtype kvs"
  "num_dicts_bits (kvs_event i kvs e) = num_dicts_bits kvs"
  "key_count (kvs_event i kvs e) = key_count kvs"
  "dict_size_index (kvs_event i kvs e) = dict_size_index kvs"
  "non_empty_dicts (kvs_event i kvs e) = non_empty_dicts kvs"
  "allocated_dicts (kvs_event i kvs e) = allocated_dicts kvs"
  "kvs_free_empty (kvs_event i kvs e) = kvs_free_empty kvs"
  "resize_cursor (kvs_event i kvs e) = resize_cursor kvs"
  "length (kvs_nodes (kvs_event i kvs e)) = length (kvs_nodes kvs)"
  by (cases e; simp add: kvstoreDictRehashingStarted_def kvstoreDictRehashingCompleted_def Let_def)+

lemma foldl_kvs_event [simp]:
  "kvs_dicts (foldl (kvs_event i) kvs es) = kvs_dicts kvs"
  "kvs_dtype (foldl (kvs_event i) kvs es) = kvs_dtype kvs"
  "num_dicts_bits (foldl (kvs_event i) kvs es) = num_dicts_bits kvs"
  "key_count (foldl (kvs_event i) kvs es) = key_count kvs"
  "dict_size_index (foldl (kvs_event i) kvs es) = dict_size_index kvs"
  "non_empty_dicts (foldl (kvs_event i) kvs es) = non_empty_dicts kvs"
  "allocated_dicts (foldl (kvs_event i) kvs es) = allocated_dicts kvs"
  "kvs_free_empty (foldl (kvs_event i) kvs es) = kvs_free_empty kvs"
  "resize_cursor (foldl (kvs_event i) kvs es) = resize_cursor kvs"
  "length (kvs_nodes (foldl (kvs_event i) kvs es)) = length (kvs_nodes kvs)"
  by (induction es arbitrary: kvs; simp)+

lemma kvs_put_simps [simp]:
  "kvs_dicts (kvs_put kvs i d) = (kvs_dicts kvs)[i := Some (d\<lparr>dict_events := []\<rparr>)]"
  "kvs_dtype (kvs_put kvs i d) = kvs_dtype kvs"
  "num_dicts_bits (kvs_put kvs i d) = num_dicts_bits kvs"
  "key_count (kvs_put kvs i d) = key_count kvs"
  "dict_size_index (kvs_put kvs i d) = dict_size_index kvs"
  "non_empty_dicts (kvs_put kvs i d) = non_empty_dicts kvs"
  "allocated_dicts (kvs_put kvs i d) = allocated_dicts kvs"
  "kvs_free_empty (kvs_put kvs i d) = kvs_free_empty kvs"
  "resize_cursor (kvs_put kvs i d) = resize_cursor kvs"
  "length (kvs_nodes (kvs_put kvs i d)) = length (kvs_nodes kvs)"
  by (simp_all add: kvs_put_def)

subsection \<open>The invariant\<close>

definition kvs_dict_ok :: "'k dictType \<Rightarrow> ('k, 'v) dict option \<Rightarrow> bool" where
  "kvs_dict_ok type r \<longleftrightarrow> (case r of None \<Rightarrow> True
     | Some d \<Rightarrow> dict_ok d \<and> dict_ready d \<and> dict_type d = type \<and> dict_events d = [])"

lemma kvs_dict_ok_simps [simp]:
  "kvs_dict_ok type None"
  "kvs_dict_ok type (Some d) \<longleftrightarrow> dict_ok d \<and> dict_ready d \<and> dict_type d = type \<and> dict_events d = []"
  by (simp_all add: kvs_dict_ok_def)

definition opt_size :: "('k, 'v) dict option \<Rightarrow> nat" where
  "opt_size r = (case r of None \<Rightarrow> 0 | Some d \<Rightarrow> dictSize d)"

definition opt_map :: "('k, 'v) dict option \<Rightarrow> 'k \<rightharpoonup> 'v option" where
  "opt_map r = (case r of None \<Rightarrow> Map.empty | Some d \<Rightarrow> dict_map d)"

lemma opt_simps [simp]:
  "opt_size None = 0" "opt_size (Some d) = dictSize d" "opt_map None = Map.empty" "opt_map (Some d) = dict_map d"
  by (simp_all add: opt_size_def opt_map_def)

definition kvs_shape :: "('k, 'v) kvstore \<Rightarrow> bool" where
  "kvs_shape kvs \<longleftrightarrow> num_dicts_bits kvs \<le> 16 \<and> length (kvs_dicts kvs) = num_dicts kvs \<and>
     length (kvs_nodes kvs) = num_dicts kvs \<and> (\<forall>r\<in>set (kvs_dicts kvs). kvs_dict_ok (kvs_dtype kvs) r)"

text \<open>The values in the tree, at the positions from 1 on.\<close>

definition from_one :: "(nat \<Rightarrow> nat) \<Rightarrow> nat \<Rightarrow> nat" where
  "from_one s j = (case j of 0 \<Rightarrow> 0 | Suc i \<Rightarrow> s i)"

lemma from_one_update: "from_one (s(i := v)) = (from_one s)(Suc i := v)"
  by (rule ext) (simp add: from_one_def split: nat.split)

lemma from_one_Suc [simp]: "from_one s (Suc i) = s i"
  by (simp add: from_one_def)

lemma prefix_from_one: "prefix_sum (from_one s) n = sum s {..<n}"
  by (induction n) (simp_all add: prefix_sum_Suc)

definition kvs_counts :: "('k, 'v) kvstore \<Rightarrow> (nat \<Rightarrow> nat) \<Rightarrow> bool" where
  "kvs_counts kvs s \<longleftrightarrow> key_count kvs = sum s {..<num_dicts kvs} \<and>
     (num_dicts kvs \<noteq> 1 \<longrightarrow> fenwick (dict_size_index kvs) (num_dicts kvs) (from_one s))"

definition kvs_sizes :: "('k, 'v) kvstore \<Rightarrow> nat \<Rightarrow> nat" where
  "kvs_sizes kvs i = (if i < num_dicts kvs then opt_size (kvs_dicts kvs ! i) else 0)"

definition kvs_ok :: "('k, 'v) kvstore \<Rightarrow> bool" where
  "kvs_ok kvs \<longleftrightarrow> kvs_shape kvs \<and> kvs_counts kvs (kvs_sizes kvs)"

text \<open>The abstract value: a map from pairs of an index and a key.\<close>

definition kvs_map :: "('k, 'v) kvstore \<Rightarrow> nat \<times> 'k \<rightharpoonup> 'v option" where
  "kvs_map kvs = (\<lambda>(i, k). if i < num_dicts kvs then opt_map (kvs_dicts kvs ! i) k else None)"

lemma num_dicts_put [simp]: "num_dicts (kvs_put kvs i d) = num_dicts kvs"
  by (simp add: num_dicts_def)

lemma kvs_shapeD:
  assumes "kvs_shape kvs" and "i < num_dicts kvs"
  shows "kvs_dict_ok (kvs_dtype kvs) (kvs_dicts kvs ! i)" and "kvstoreGetDict kvs (int i) = Some (kvs_dicts kvs ! i)"
  using assms by (auto simp: kvs_shape_def kvstoreGetDict_def)

lemma kvs_shape_put:
  assumes "kvs_shape kvs" and "dict_ok d" and "dict_ready d" and "dict_type d = kvs_dtype kvs"
  shows "kvs_shape (kvs_put kvs i d)"
  using assms set_update_subset_insert [of "kvs_dicts kvs" i "Some (d\<lparr>dict_events := []\<rparr>)"]
  by (auto simp: kvs_shape_def)

lemma kvs_map_put:
  assumes "kvs_shape kvs" and "i < num_dicts kvs"
  shows "kvs_map (kvs_put kvs i d) = (\<lambda>(j, k). if j = i then dict_map d k else kvs_map kvs (j, k))"
  using assms by (auto simp: kvs_map_def kvs_shape_def nth_list_update)

lemma kvs_sizes_put:
  assumes "kvs_shape kvs" and "i < num_dicts kvs"
  shows "kvs_sizes (kvs_put kvs i d) = (kvs_sizes kvs)(i := dictSize d)"
  using assms by (auto simp: kvs_sizes_def kvs_shape_def nth_list_update)

lemma kvs_counts_put [simp]: "kvs_counts (kvs_put kvs i d) s = kvs_counts kvs s"
  by (simp add: kvs_counts_def)

text \<open>Putting back a dict of the same size keeps the invariant.\<close>

lemma kvs_ok_put:
  assumes "kvs_ok kvs" and i: "i < num_dicts kvs" and "dict_ok d" and "dict_ready d" and "dict_type d = kvs_dtype kvs"
    and "dictSize d = opt_size (kvs_dicts kvs ! i)"
  shows "kvs_ok (kvs_put kvs i d)"
proof -
  have "kvs_sizes (kvs_put kvs i d) = kvs_sizes kvs"
    using kvs_sizes_put [OF _ i, of d] assms by (auto simp: kvs_ok_def kvs_sizes_def fun_upd_idem_iff)
  then show ?thesis using assms kvs_shape_put [of kvs d i] by (simp add: kvs_ok_def)
qed

subsection \<open>Counting\<close>

lemma sum_update:
  assumes "i < (n::nat)"
  shows "int (sum (s(i := v)) {..<n}) = int (sum s {..<n}) + (int v - int (s i :: nat))"
proof -
  have "sum (s(i := v)) {..<n} = v + sum s ({..<n} - {i})"
    using assms by (subst sum.remove [of _ i]) (auto intro: sum.cong)
  moreover have "sum s {..<n} = s i + sum s ({..<n} - {i})" using assms by (intro sum.remove) auto
  ultimately show ?thesis by simp
qed

lemma u64_add_exact: "0 \<le> int a + delta \<Longrightarrow> int (u64_add a delta) = int a + delta"
  by (simp add: u64_add_def)

lemma key_count_add_spec:
  assumes "kvs_shape kvs" and c: "kvs_counts kvs s" and i: "i < num_dicts kvs"
    and d: "kvs_dicts kvs ! i = Some d" and v: "int v = int (s i) + delta"
  shows "\<exists>a b e. cumulativeKeyCountAdd kvs i delta =
       Some (kvs\<lparr>key_count := a, dict_size_index := b, non_empty_dicts := e\<rparr>) \<and>
     e = non_empty_dicts kvs + (if dictSize d = 1 then 1 else if dictSize d = 0 then -1 else 0) \<and>
     kvs_counts (kvs\<lparr>key_count := a, dict_size_index := b, non_empty_dicts := e\<rparr>) (s(i := v))"
proof -
  let ?kc = "u64_add (key_count kvs) delta"
  have kc: "?kc = sum (s(i := v)) {..<num_dicts kvs}"
  proof -
    have "int (sum (s(i := v)) {..<num_dicts kvs}) = int (key_count kvs) + delta"
      using sum_update [OF i, of s v] c v by (simp add: kvs_counts_def)
    then show ?thesis using u64_add_exact [of "key_count kvs" delta] by linarith
  qed
  have g: "kvstoreGetDict (kvs\<lparr>key_count := k\<rparr>) (int i) = Some (Some d)" for k
    using kvs_shapeD(2) [OF assms(1) i] d by (simp add: kvstoreGetDict_def split: if_splits)
  show ?thesis
  proof (cases "num_dicts kvs = 1")
    case True
    then show ?thesis
      using g kc
      by (intro exI [of _ ?kc] exI [of _ "dict_size_index kvs"]) (simp add: cumulativeKeyCountAdd_def Let_def kvs_counts_def num_dicts_def)
  next
    case False
    then have "fenwick (dict_size_index kvs) (num_dicts kvs) (from_one s)" using c by (simp add: kvs_counts_def)
    moreover have "delta = int v - int (from_one s (i + 1))" using v by simp
    ultimately obtain t where t: "bit_add (dict_size_index kvs) (num_dicts kvs) (i + 1) delta = Some t"
      "fenwick t (num_dicts kvs) (from_one (s(i := v)))"
      using bit_add_spec [of "dict_size_index kvs" "num_dicts kvs" "from_one s" "i + 1" v]
      by (auto simp: from_one_update)
    then show ?thesis
      using g kc False
      by (intro exI [of _ ?kc] exI [of _ t]) (simp add: cumulativeKeyCountAdd_def Let_def kvs_counts_def num_dicts_def)
  qed
qed

subsection \<open>Creating and freeing dicts\<close>

text \<open>The parameters of a store, which no operation changes.\<close>

definition kvs_params :: "('k, 'v) kvstore \<Rightarrow> ('k, 'v) kvstore \<Rightarrow> bool" where
  "kvs_params kvs kvs' \<longleftrightarrow> num_dicts_bits kvs' = num_dicts_bits kvs \<and> kvs_dtype kvs' = kvs_dtype kvs \<and>
     kvs_free_empty kvs' = kvs_free_empty kvs \<and> resize_cursor kvs' = resize_cursor kvs"

lemma kvs_params_num: "kvs_params kvs kvs' \<Longrightarrow> num_dicts kvs' = num_dicts kvs"
  by (simp add: kvs_params_def num_dicts_def)

lemma kvs_params_put [simp]: "kvs_params kvs (kvs_put kvs i d)"
  by (simp add: kvs_params_def)

lemma kvs_params_refl [simp]: "kvs_params kvs kvs"
  by (simp add: kvs_params_def)

lemma kvs_params_trans: "kvs_params a b \<Longrightarrow> kvs_params b c \<Longrightarrow> kvs_params a c"
  by (simp add: kvs_params_def)

lemma dictCreate_events [simp]: "dict_events (dictCreate type) = []" "dict_type (dictCreate type) = type"
  "dict_ready (dictCreate type)" "dictSize (dictCreate type) = 0"
  by (simp_all add: dictCreate_def dict_ready_def dictSize_def dictReset_def)

lemma createDict_spec:
  assumes k: "kvs_ok kvs" and i: "i < num_dicts kvs"
  shows "\<exists>kvs' d. createDictIfNeeded kvs i = Some (kvs', d) \<and> kvs_ok kvs' \<and> kvs_params kvs kvs' \<and>
     kvs_map kvs' = kvs_map kvs \<and> kvs_dicts kvs' ! i = Some d"
proof -
  have s: "kvs_shape kvs" using k by (simp add: kvs_ok_def)
  note g = kvs_shapeD [OF s i]
  show ?thesis
  proof (cases "kvs_dicts kvs ! i")
    case (Some d)
    then show ?thesis using g k by (simp add: createDictIfNeeded_def)
  next
    case None
    let ?d = "dictCreate (kvs_dtype kvs)"
    let ?kvs = "kvs\<lparr>kvs_dicts := (kvs_dicts kvs)[i := Some ?d], kvs_nodes := (kvs_nodes kvs)[i := False],
      allocated_dicts := allocated_dicts kvs + 1\<rparr>"
    have n: "num_dicts ?kvs = num_dicts kvs" by (simp add: num_dicts_def)
    have "kvs_sizes ?kvs = kvs_sizes kvs"
      using None s i by (intro ext) (auto simp: kvs_sizes_def n kvs_shape_def nth_list_update)
    moreover have "kvs_shape ?kvs"
      using s set_update_subset_insert [of "kvs_dicts kvs" i "Some ?d"] by (auto simp: kvs_shape_def n)
    ultimately have "kvs_ok ?kvs" using k n by (simp add: kvs_ok_def kvs_counts_def)
    moreover have "kvs_map ?kvs = kvs_map kvs"
      using None s i by (intro ext) (auto simp: kvs_map_def n kvs_shape_def nth_list_update)
    ultimately show ?thesis
      using None g i s by (simp add: createDictIfNeeded_def kvs_params_def kvs_shape_def Let_def)
  qed
qed

lemma dictRelease_returns: "dict_ok d \<Longrightarrow> \<exists>d'. dictRelease d = Some d'"
proof -
  assume d: "dict_ok d"
  have "clear_buckets (dict_ht d t) 0 (ht_used (dict_ht d t)) = Some 0" for t
    using dict_ht_ok [OF d, of t] by (intro clear_buckets_ok) (auto simp: ht_ok_def)
  from this [of 0] this [of 1] show ?thesis
    by (auto simp: dictRelease_def dictClear_def notifyCompleted_def dict_ht_def set_ht_def Let_def)
qed

lemma freeDict_shape:
  assumes s: "kvs_shape kvs" and i: "i < num_dicts kvs"
  shows "\<exists>kvs'. freeDictIfNeeded kvs (int i) = Some kvs' \<and> kvs_shape kvs' \<and> kvs_params kvs kvs' \<and>
     kvs_map kvs' = kvs_map kvs \<and> kvs_sizes kvs' = kvs_sizes kvs \<and>
     key_count kvs' = key_count kvs \<and> dict_size_index kvs' = dict_size_index kvs"
proof -
  note g = kvs_shapeD [OF s i]
  consider "\<not> kvs_free_empty kvs \<or> kvs_dicts kvs ! i = None"
    | d where "kvs_free_empty kvs" "kvs_dicts kvs ! i = Some d" by (cases "kvs_dicts kvs ! i") auto
  then show ?thesis
  proof cases
    case 1
    then show ?thesis using g s by (auto simp: freeDictIfNeeded_def)
  next
    case (2 d)
    then have d: "dict_ok d" using g(1) by simp
    obtain d' where d': "dictRelease d = Some d'" using dictRelease_returns [OF d] by blast
    let ?kvs = "(kvs_put kvs i d')\<lparr>kvs_dicts := (kvs_dicts kvs)[i := None], allocated_dicts := allocated_dicts kvs - 1\<rparr>"
    have n: "num_dicts ?kvs = num_dicts kvs" by (simp add: num_dicts_def)
    show ?thesis
    proof (cases "dictSize d \<noteq> 0 \<or> pauserehash d > 0")
      case True
      then show ?thesis using 2 g s by (auto simp: freeDictIfNeeded_def)
    next
      case False
      then have m: "dict_map d = Map.empty"
        using dictSize_kvs [OF d] dict_map_Some [OF d] by (intro ext option_eqI) auto
      have "kvs_sizes ?kvs = kvs_sizes kvs"
        using 2 False s i by (intro ext) (auto simp: kvs_sizes_def n kvs_shape_def nth_list_update)
      moreover have "kvs_shape ?kvs"
        using s set_update_subset_insert [of "kvs_dicts kvs" i None] by (auto simp: kvs_shape_def n)
      moreover have "kvs_map ?kvs = kvs_map kvs"
        using 2 m s i by (intro ext) (auto simp: kvs_map_def n kvs_shape_def nth_list_update)
      moreover have "freeDictIfNeeded kvs (int i) = Some ?kvs"
        using 2 False g d' by (simp add: freeDictIfNeeded_def Let_def)
      ultimately show ?thesis by (auto simp: kvs_params_def)
    qed
  qed
qed

lemma freeDict_spec:
  assumes "kvs_ok kvs" and "i < num_dicts kvs"
  shows "\<exists>kvs'. freeDictIfNeeded kvs (int i) = Some kvs' \<and> kvs_ok kvs' \<and> kvs_params kvs kvs' \<and> kvs_map kvs' = kvs_map kvs"
  using freeDict_shape [of kvs i] assms kvs_params_num by (fastforce simp: kvs_ok_def kvs_counts_def)

subsection \<open>The operations on keys\<close>

text \<open>Finding a dict and putting it back reorganised.\<close>

lemma kvs_put_reorg:
  assumes k: "kvs_ok kvs" and i: "i < num_dicts kvs" and d: "kvs_dicts kvs ! i = Some d" and r: "reorg d d'"
  shows "kvs_ok (kvs_put kvs i d')" and "kvs_map (kvs_put kvs i d') = kvs_map kvs"
proof -
  have s: "kvs_shape kvs" using k by (simp add: kvs_ok_def)
  have ok: "dict_ok d" "dict_ready d" "dict_type d = kvs_dtype kvs" using kvs_shapeD(1) [OF s i] d by auto
  have d': "dict_ok d'" "dict_ready d'" "dict_type d' = kvs_dtype kvs" "dictSize d' = dictSize d" "dict_map d' = dict_map d"
    using r ok dictSize_kvs [of d] dictSize_kvs [of d'] reorg_map [OF ok(1) r] by (auto simp: reorg_def dict_ready_def)
  then show "kvs_ok (kvs_put kvs i d')" using k i d by (intro kvs_ok_put) auto
  show "kvs_map (kvs_put kvs i d') = kvs_map kvs"
    unfolding kvs_map_put [OF s i] using d d'(5) i by (auto simp: kvs_map_def)
qed

lemma kvsFetch_spec:
  assumes k: "kvs_ok kvs" and i: "i < num_dicts kvs" and v: "\<not> no_value (kvs_dtype kvs)"
  shows "\<exists>kvs'. kvstoreDictFetchValue cr kvs i key = Some (kvs', kvs_map kvs (i, key)) \<and> kvs_ok kvs' \<and>
     kvs_params kvs kvs' \<and> kvs_map kvs' = kvs_map kvs"
proof -
  have s: "kvs_shape kvs" using k by (simp add: kvs_ok_def)
  note g = kvs_shapeD [OF s i]
  show ?thesis
  proof (cases "kvs_dicts kvs ! i")
    case None
    then show ?thesis using g k i by (simp add: kvstoreDictFetchValue_def kvs_map_def)
  next
    case (Some d)
    then obtain d' where d': "dictFetchValue cr d key = Some (d', dict_map d key)" "reorg d d'"
      using dictFetchValue_spec [of d cr key] g(1) v by auto
    then show ?thesis
      using g Some i kvs_put_reorg [OF k i Some d'(2)] by (simp add: kvstoreDictFetchValue_def kvs_map_def [of kvs])
  qed
qed

text \<open>A dict whose size changes by one is put back and counted.\<close>

lemma kvs_put_count:
  assumes k: "kvs_ok kvs" and i: "i < num_dicts kvs" and d: "kvs_dicts kvs ! i = Some d"
    and d': "dict_ok d'" "dict_ready d'" "dict_type d' = kvs_dtype kvs"
    and sz: "int (dictSize d') = int (dictSize d) + delta"
  shows "\<exists>kvs'. cumulativeKeyCountAdd (kvs_put kvs i d') i delta = Some kvs' \<and> kvs_ok kvs' \<and> kvs_params kvs kvs' \<and>
     kvs_map kvs' = (\<lambda>(j, key). if j = i then dict_map d' key else kvs_map kvs (j, key)) \<and>
     kvs_dicts kvs' = kvs_dicts (kvs_put kvs i d')"
proof -
  let ?kvs = "kvs_put kvs i d'"
  have s: "kvs_shape kvs" using k by (simp add: kvs_ok_def)
  have shape: "kvs_shape ?kvs" using kvs_shape_put [OF s d'] .
  have c: "kvs_counts ?kvs (kvs_sizes kvs)" using k by (simp add: kvs_ok_def)
  have i': "i < num_dicts ?kvs" using i by simp
  have di: "kvs_dicts ?kvs ! i = Some (d'\<lparr>dict_events := []\<rparr>)" using i s by (simp add: kvs_shape_def)
  have v: "int (dictSize d') = int (kvs_sizes kvs i) + delta" using sz d i by (simp add: kvs_sizes_def)
  obtain a b e where add: "cumulativeKeyCountAdd ?kvs i delta = Some (?kvs\<lparr>key_count := a, dict_size_index := b, non_empty_dicts := e\<rparr>)"
    "kvs_counts (?kvs\<lparr>key_count := a, dict_size_index := b, non_empty_dicts := e\<rparr>) ((kvs_sizes kvs)(i := dictSize d'))"
    using key_count_add_spec [OF shape c i' di v] by blast
  define kvs' where "kvs' = ?kvs\<lparr>key_count := a, dict_size_index := b, non_empty_dicts := e\<rparr>"
  have f: "kvs_sizes kvs' = kvs_sizes ?kvs" "kvs_map kvs' = kvs_map ?kvs" "kvs_shape kvs' = kvs_shape ?kvs"
    "kvs_params kvs kvs'" "kvs_dicts kvs' = kvs_dicts ?kvs"
    unfolding kvs'_def by (auto simp: kvs_sizes_def kvs_map_def kvs_shape_def kvs_params_def num_dicts_def fun_eq_iff)
  then have "kvs_ok kvs'" using shape add(2) kvs_sizes_put [OF s i, of d'] by (simp add: kvs_ok_def kvs'_def [symmetric])
  then show ?thesis using add(1) f kvs_map_put [OF s i, of d'] by (metis kvs'_def)
qed

lemma dictSize_map_upd:
  assumes "dict_ok d" and "dict_ok d'" and "dict_map d' = (dict_map d)(k \<mapsto> v)" and "k \<notin> dom (dict_map d)"
  shows "int (dictSize d') = int (dictSize d) + 1"
proof -
  have "finite (dom (dict_map d))" by (simp add: dict_map_def finite_dom_map_of)
  then show ?thesis using assms dictSize_card [OF assms(1)] dictSize_card [OF assms(2)] by simp
qed

lemma dictSize_map_del:
  assumes "dict_ok d" and "dict_ok d'" and "dict_map d' = (dict_map d)(k := None)" and "k \<in> dom (dict_map d)"
  shows "int (dictSize d') = int (dictSize d) + - 1"
proof -
  have f: "finite (dom (dict_map d))" by (simp add: dict_map_def finite_dom_map_of)
  then have "card (dom (dict_map d)) \<noteq> 0" using assms(4) by auto
  moreover have "dictSize d' = card (dom (dict_map d)) - 1"
    using assms f dictSize_card [OF assms(2)] by simp
  ultimately show ?thesis using dictSize_card [OF assms(1)] by linarith
qed

lemma kvsAddRaw_spec:
  assumes k: "kvs_ok kvs" and i: "i < num_dicts kvs"
  shows "\<exists>kvs' r. kvstoreDictAddRaw cr kvs i key = Some (kvs', r) \<and> kvs_ok kvs' \<and> kvs_params kvs kvs' \<and>
     (if (i, key) \<in> dom (kvs_map kvs) then (\<exists>pos. r = Inl pos) \<and> kvs_map kvs' = kvs_map kvs
      else (\<exists>pos d x. r = Inr pos \<and> kvs_dicts kvs' ! i = Some d \<and> entry_at d pos = Some x \<and> dictGetKey x = key) \<and>
        kvs_map kvs' = (kvs_map kvs)((i, key) \<mapsto> None))"
proof -
  obtain kvs1 d where c: "createDictIfNeeded kvs i = Some (kvs1, d)" "kvs_ok kvs1" "kvs_params kvs kvs1"
    "kvs_map kvs1 = kvs_map kvs" "kvs_dicts kvs1 ! i = Some d"
    using createDict_spec [OF k i] by blast
  have i1: "i < num_dicts kvs1" using kvs_params_num [OF c(3)] i by simp
  have s1: "kvs_shape kvs1" using c(2) by (simp add: kvs_ok_def)
  have d: "dict_ok d" "dict_ready d" "dict_type d = kvs_dtype kvs1" using kvs_shapeD(1) [OF s1 i1] c(5) by auto
  have dm: "dict_map d j = kvs_map kvs (i, j)" for j
  proof -
    have "kvs_map kvs1 (i, j) = dict_map d j" using c(5) i1 by (simp add: kvs_map_def)
    then show ?thesis by (simp only: c(4))
  qed
  obtain d' r x where a: "dictAddRaw cr d key = Some (d', r)" "dict_ok d'" "same_params d d'" "ht_size_exp (ht0 d') \<noteq> -1"
    and r: "if key \<in> dict_keys d then \<exists>pos. r = Inl pos \<and> dict_kvs d' = dict_kvs d \<and>
        entry_at d' pos = Some x \<and> dictGetKey x = key
      else \<exists>pos. r = Inr pos \<and> dict_kvs d' = add_mset (key, None) (dict_kvs d) \<and>
        entry_at d' pos = Some x \<and> kv x = (key, None)"
    using dictAddRaw_spec [OF d(1,2), of cr key] by blast
  have d': "dict_ready d'" "dict_type d' = kvs_dtype kvs1" using readyI [OF a(4)] a(3) d(3) by (auto simp: same_params_def)
  have kin: "key \<in> dict_keys d \<longleftrightarrow> (i, key) \<in> dom (kvs_map kvs)" using dom_dict_map [OF d(1)] dm by (auto simp: dom_def)
  show ?thesis
  proof (cases "key \<in> dict_keys d")
    case True
    then obtain pos where pos: "r = Inl pos" "dict_kvs d' = dict_kvs d" using r by auto
    have sm: "dict_map d' = dict_map d" "dictSize d' = dictSize d"
      using dict_map_cong [OF d(1) a(2)] dictSize_kvs [OF d(1)] dictSize_kvs [OF a(2)] pos(2) by auto
    then have "kvs_ok (kvs_put kvs1 i d')" using c(2,5) i1 a(2) d' by (intro kvs_ok_put) auto
    moreover have "kvs_map (kvs_put kvs1 i d') = kvs_map kvs"
      unfolding kvs_map_put [OF s1 i1] sm(1) c(4) using dm by (auto simp: fun_eq_iff)
    moreover have "kvs_params kvs (kvs_put kvs1 i d')" using c(3) kvs_params_trans kvs_params_put by blast
    moreover have "kvstoreDictAddRaw cr kvs i key = Some (kvs_put kvs1 i d', Inl pos)"
      using c(1) a(1) pos(1) by (simp add: kvstoreDictAddRaw_def Let_def)
    ultimately show ?thesis using True kin by (auto simp del: split_paired_Ex)
  next
    case False
    then obtain pos where pos: "r = Inr pos" "dict_kvs d' = add_mset (key, None) (dict_kvs d)"
      "entry_at d' pos = Some x" "dictGetKey x = key" using r by (auto simp: kv_def)
    have m: "dict_map d' = (dict_map d)(key \<mapsto> None)" using map_insert [OF d(1) a(2) False pos(2)] .
    have "int (dictSize d') = int (dictSize d) + 1"
      using dictSize_map_upd [OF d(1) a(2) m] False dom_dict_map [OF d(1)] by simp
    then obtain kvs' where kvs': "cumulativeKeyCountAdd (kvs_put kvs1 i d') i 1 = Some kvs'" "kvs_ok kvs'" "kvs_params kvs1 kvs'"
      "kvs_map kvs' = (\<lambda>(j, key). if j = i then dict_map d' key else kvs_map kvs1 (j, key))"
      "kvs_dicts kvs' = kvs_dicts (kvs_put kvs1 i d')"
      using kvs_put_count [OF c(2) i1 c(5) a(2) d'] by blast
    moreover have "kvs_map kvs' = (kvs_map kvs)((i, key) \<mapsto> None)"
      unfolding kvs'(4) m c(4) using dm by (auto simp: fun_eq_iff)
    moreover have "kvstoreDictAddRaw cr kvs i key = Some (kvs', Inr pos)"
      using c(1) a(1) pos(1) kvs'(1) by (simp add: kvstoreDictAddRaw_def Let_def)
    moreover have "kvs_params kvs kvs'" using kvs_params_trans [OF c(3) kvs'(3)] .
    moreover have "kvs_dicts kvs' ! i = Some (d'\<lparr>dict_events := []\<rparr>)" using kvs'(5) i1 s1 by (simp add: kvs_shape_def)
    ultimately show ?thesis using False kin pos(3,4) by (auto simp del: split_paired_Ex)
  qed
qed

lemma kvsDelete_spec:
  assumes k: "kvs_ok kvs" and i: "i < num_dicts kvs"
  shows "\<exists>kvs'. kvstoreDictDelete cr kvs i key = Some (kvs', (i, key) \<in> dom (kvs_map kvs)) \<and> kvs_ok kvs' \<and>
     kvs_params kvs kvs' \<and> kvs_map kvs' = (kvs_map kvs)((i, key) := None)"
proof -
  have s: "kvs_shape kvs" using k by (simp add: kvs_ok_def)
  note g = kvs_shapeD [OF s i]
  show ?thesis
  proof (cases "kvs_dicts kvs ! i")
    case None
    then have "kvs_map kvs (i, key) = None" using i by (simp add: kvs_map_def)
    then show ?thesis using None g k by (auto simp: kvstoreDictDelete_def fun_upd_idem)
  next
    case (Some d)
    then have d: "dict_ok d" "dict_ready d" "dict_type d = kvs_dtype kvs" using g(1) by auto
    have dm: "dict_map d j = kvs_map kvs (i, j)" for j using Some i by (simp add: kvs_map_def)
    obtain d' where del: "dictDelete cr d key = Some (d', key \<in> dom (dict_map d))" "dict_ok d'" "dict_ready d'"
      "same_params d d'" "dict_map d' = (dict_map d)(key := None)"
      using dictDelete_spec [OF d(1,2)] by blast
    have ty: "dict_type d' = kvs_dtype kvs" using del(4) d(3) by (simp add: same_params_def)
    have kin: "key \<in> dom (dict_map d) \<longleftrightarrow> (i, key) \<in> dom (kvs_map kvs)" using dm by (auto simp: dom_def)
    show ?thesis
    proof (cases "key \<in> dom (dict_map d)")
      case True
      obtain kvs1 where kvs1: "cumulativeKeyCountAdd (kvs_put kvs i d') i (- 1) = Some kvs1" "kvs_ok kvs1" "kvs_params kvs kvs1"
        "kvs_map kvs1 = (\<lambda>(j, key). if j = i then dict_map d' key else kvs_map kvs (j, key))"
        using kvs_put_count [OF k i Some del(2,3) ty dictSize_map_del [OF d(1) del(2,5) True]] by blast
      have "i < num_dicts kvs1" using kvs_params_num [OF kvs1(3)] i by simp
      then obtain kvs2 where kvs2: "freeDictIfNeeded kvs1 (int i) = Some kvs2" "kvs_ok kvs2" "kvs_params kvs1 kvs2"
        "kvs_map kvs2 = kvs_map kvs1"
        using freeDict_spec [OF kvs1(2)] by blast
      moreover have "kvs_map kvs1 = (kvs_map kvs)((i, key) := None)"
        unfolding kvs1(4) del(5) using dm by (auto simp: fun_eq_iff)
      moreover have "kvstoreDictDelete cr kvs i key = Some (kvs2, True)"
        using True Some g del(1) kvs1(1) kvs2(1) by (simp add: kvstoreDictDelete_def Let_def)
      moreover have "kvs_params kvs kvs2" using kvs_params_trans [OF kvs1(3) kvs2(3)] .
      ultimately show ?thesis using True kin by auto
    next
      case False
      then have same: "dict_map d' = dict_map d" using del(5) by (auto simp: domIff fun_upd_idem)
      then have "dictSize d' = dictSize d" using dictSize_card [OF d(1)] dictSize_card [OF del(2)] by simp
      then have "kvs_ok (kvs_put kvs i d')" using k i Some del(2,3) ty by (intro kvs_ok_put) auto
      moreover have "kvs_map (kvs_put kvs i d') = (kvs_map kvs)((i, key) := None)"
        unfolding kvs_map_put [OF s i] del(5) using dm by (auto simp: fun_eq_iff)
      moreover have "kvstoreDictDelete cr kvs i key = Some (kvs_put kvs i d', False)"
        using False Some g del(1) by (simp add: kvstoreDictDelete_def Let_def)
      ultimately show ?thesis using False kin by auto
    qed
  qed
qed

end
