(* ===== verification/Kvstore_Spec.thy ===== *)
theory Kvstore_Spec
  imports Kvstore_Inv
begin

text \<open>
  What the key-value store promises: its operations are those of one finite map whose keys are pairs of a dict index and
  a key, its size is the number of these pairs, and the tree over the sizes finds the dict that holds
  the key of a given rank.
\<close>

subsection \<open>Unlinking in two phases\<close>

text \<open>The deletion that \<^verbatim>\<open>dbGenericDelete\<close> performs, and the insertion of \<^verbatim>\<open>dbAddInternal\<close>, on one store.\<close>

definition kvs_unlink :: "dictResizeEnable \<Rightarrow> ('k, 'v) kvstore \<Rightarrow> nat \<Rightarrow> 'k \<Rightarrow> (('k, 'v) kvstore \<times> bool) option" where
  "kvs_unlink cr kvs didx key = do {
     (kvs, de) \<leftarrow> kvstoreDictTwoPhaseUnlinkFind cr kvs didx key;
     case de of
       None \<Rightarrow> Some (kvs, False)
     | Some pos \<Rightarrow> do { kvs \<leftarrow> kvstoreDictTwoPhaseUnlinkFree cr kvs didx (Some pos); Some (kvs, True) }
   }"

definition kvs_add :: "dictResizeEnable \<Rightarrow> ('k, 'v) kvstore \<Rightarrow> nat \<Rightarrow> 'k \<Rightarrow> 'v \<Rightarrow> (('k, 'v) kvstore \<times> bool) option" where
  "kvs_add cr kvs didx key val = do {
     (kvs, r) \<leftarrow> kvstoreDictAddRaw cr kvs didx key;
     case r of
       Inl existing \<Rightarrow> Some (kvs, False)
     | Inr pos \<Rightarrow> do { kvs \<leftarrow> kvstoreDictSetVal kvs didx pos val; Some (kvs, True) }
   }"

lemma kvs_dictD:
  assumes "kvs_ok kvs" and "i < num_dicts kvs" and "kvs_dicts kvs ! i = Some d"
  shows "kvstoreGetDict kvs (int i) = Some (Some d)" and "dict_ok d" and "dict_ready d"
    and "dict_type d = kvs_dtype kvs" and "kvs_map kvs (i, k) = dict_map d k"
  using kvs_shapeD [of kvs i] assms by (auto simp: kvs_ok_def kvs_map_def)

text \<open>A dict with the same keys is put back.\<close>

lemma kvs_put_same:
  assumes k: "kvs_ok kvs" and i: "i < num_dicts kvs" and di: "kvs_dicts kvs ! i = Some d"
    and d': "dict_ok d'" "dict_ready d'" "dict_type d' = dict_type d" "dom (dict_map d') = dom (dict_map d)"
  shows "kvs_ok (kvs_put kvs i d')"
    and "kvs_map (kvs_put kvs i d') = (\<lambda>(j, k). if j = i then dict_map d' k else kvs_map kvs (j, k))"
proof -
  note g = kvs_dictD [OF k i di]
  have "dictSize d' = dictSize d" using dictSize_card [OF g(2)] dictSize_card [OF d'(1)] d'(4) by simp
  then show "kvs_ok (kvs_put kvs i d')" using k i di d' g(4) by (intro kvs_ok_put) auto
  show "kvs_map (kvs_put kvs i d') = (\<lambda>(j, k). if j = i then dict_map d' k else kvs_map kvs (j, k))"
    using k i by (intro kvs_map_put) (simp_all add: kvs_ok_def)
qed

lemma kvs_put_dict: "kvs_ok kvs \<Longrightarrow> i < num_dicts kvs \<Longrightarrow> kvs_dicts (kvs_put kvs i d) ! i = Some (d\<lparr>dict_events := []\<rparr>)"
  by (simp add: kvs_ok_def kvs_shape_def)

lemma kvs_add_spec:
  assumes k: "kvs_ok kvs" and i: "i < num_dicts kvs" and v: "\<not> no_value (kvs_dtype kvs)"
  shows "\<exists>kvs'. kvs_add cr kvs i key val = Some (kvs', (i, key) \<notin> dom (kvs_map kvs)) \<and> kvs_ok kvs' \<and>
     kvs_params kvs kvs' \<and>
     kvs_map kvs' = (if (i, key) \<in> dom (kvs_map kvs) then kvs_map kvs else (kvs_map kvs)((i, key) \<mapsto> Some val))"
proof -
  obtain kvs1 r where a: "kvstoreDictAddRaw cr kvs i key = Some (kvs1, r)" "kvs_ok kvs1" "kvs_params kvs kvs1"
    and r: "if (i, key) \<in> dom (kvs_map kvs) then (\<exists>pos. r = Inl pos) \<and> kvs_map kvs1 = kvs_map kvs
      else (\<exists>pos d x. r = Inr pos \<and> kvs_dicts kvs1 ! i = Some d \<and> entry_at d pos = Some x \<and> dictGetKey x = key) \<and>
        kvs_map kvs1 = (kvs_map kvs)((i, key) \<mapsto> None)"
    using kvsAddRaw_spec [OF k i] by blast
  show ?thesis
  proof (cases "(i, key) \<in> dom (kvs_map kvs)")
    case True
    then obtain pos where "r = Inl pos" "kvs_map kvs1 = kvs_map kvs" using r by auto
    then show ?thesis using True a by (auto simp: kvs_add_def)
  next
    case False
    then obtain pos d x where p: "r = Inr pos" "kvs_dicts kvs1 ! i = Some d" "entry_at d pos = Some x"
      "dictGetKey x = key" "kvs_map kvs1 = (kvs_map kvs)((i, key) \<mapsto> None)"
      using r unfolding if_not_P [OF False] by blast
    have i1: "i < num_dicts kvs1" using kvs_params_num [OF a(3)] i by simp
    note g = kvs_dictD [OF a(2) i1 p(2)]
    obtain d' where d': "dictSetVal d pos val = Some d'" "dict_ok d'" "dict_ready d'" "same_params d d'"
      "dict_map d' = (dict_map d)(key \<mapsto> Some val)"
      using setval_map [OF g(2) _ p(3,4), of val] g(4) v a(3) by (auto simp: kvs_params_def)
    have "key \<in> dom (dict_map d)" using g(5) [of key] unfolding p(5) by (metis domI fun_upd_same)
    then have "kvs_ok (kvs_put kvs1 i d')"
      and m: "kvs_map (kvs_put kvs1 i d') = (\<lambda>(j, k). if j = i then dict_map d' k else kvs_map kvs1 (j, k))"
      using kvs_put_same [OF a(2) i1 p(2) d'(2,3)] d'(4,5) by (auto simp: same_params_def insert_absorb)
    moreover have "kvs_map (kvs_put kvs1 i d') = (kvs_map kvs)((i, key) \<mapsto> Some val)"
      unfolding m d'(5) g(5) [symmetric] p(5) by (auto simp: fun_eq_iff)
    moreover have "kvs_params kvs (kvs_put kvs1 i d')" using a(3) kvs_params_trans kvs_params_put by blast
    moreover have "kvs_add cr kvs i key val = Some (kvs_put kvs1 i d', True)"
      using a(1) p(1) g(1) d'(1) by (simp add: kvs_add_def kvstoreDictSetVal_def)
    ultimately show ?thesis using False by auto
  qed
qed

lemma kvs_unlink_spec:
  assumes k: "kvs_ok kvs" and i: "i < num_dicts kvs"
  shows "\<exists>kvs'. kvs_unlink cr kvs i key = Some (kvs', (i, key) \<in> dom (kvs_map kvs)) \<and> kvs_ok kvs' \<and>
     kvs_params kvs kvs' \<and> kvs_map kvs' = (kvs_map kvs)((i, key) := None)"
proof (cases "kvs_dicts kvs ! i")
  case None
  then have "kvs_map kvs (i, key) = None" using i by (simp add: kvs_map_def)
  then show ?thesis using None k i kvs_shapeD(2) [of kvs i]
    by (auto simp: kvs_unlink_def kvstoreDictTwoPhaseUnlinkFind_def fun_upd_idem kvs_ok_def)
next
  case (Some d)
  note g = kvs_dictD [OF k i Some]
  obtain d1 r where f: "dictTwoPhaseUnlinkFind cr d key = Some (d1, r)" "dict_ok d1" "dict_map d1 = dict_map d"
    "found d1 key (dict_keys d) r" "dict_type d1 = dict_type d" "dict_ready d1"
    using twoPhaseFind_spec [OF g(2)] g(3) by blast
  let ?kvs = "kvs_put kvs i d1"
  have kin: "key \<in> dict_keys d \<longleftrightarrow> (i, key) \<in> dom (kvs_map kvs)" using dom_dict_map [OF g(2)] g(5) by (auto simp: dom_def)
  have ok: "kvs_ok ?kvs" using kvs_put_same(1) [OF k i Some f(2,6,5)] f(3) by simp
  have m: "kvs_map ?kvs = kvs_map kvs"
    using kvs_put_same(2) [OF k i Some f(2,6,5)] f(3) g(5) by (auto simp: fun_eq_iff)
  have find: "kvstoreDictTwoPhaseUnlinkFind cr kvs i key = Some (?kvs, r)"
    using g(1) f(1) by (simp add: kvstoreDictTwoPhaseUnlinkFind_def)
  show ?thesis
  proof (cases r)
    case None
    then have "(i, key) \<notin> dom (kvs_map kvs)" using f(4) kin by auto
    then show ?thesis using None find ok m by (auto simp: kvs_unlink_def fun_upd_idem)
  next
    case (Some pos)
    then obtain x where x: "entry_at d1 pos = Some x" "dictGetKey x = key" "key \<in> dict_keys d" using f(4) by auto
    let ?d1 = "d1\<lparr>dict_events := []\<rparr>"
    obtain d2 where d2: "dictTwoPhaseUnlinkFree cr ?d1 (Some pos) = Some d2" "dict_ok d2"
      "dict_map d2 = (dict_map d)(key := None)" "dict_type d2 = dict_type d" "dict_ready d2"
      using twoPhaseFree_spec [of ?d1 pos x cr] f x by auto
    note p = kvs_put_dict [OF k i, of d1]
    have i1: "i < num_dicts ?kvs" using i by simp
    have "key \<in> dom (dict_map d)" using x(3) dom_dict_map [OF g(2)] by simp
    then have "int (dictSize d2) = int (dictSize ?d1) + - 1"
      using dictSize_map_del [of ?d1 d2 key] f d2 by simp
    then obtain kvs2 where kvs2: "cumulativeKeyCountAdd (kvs_put ?kvs i d2) i (- 1) = Some kvs2" "kvs_ok kvs2"
      "kvs_params ?kvs kvs2" "kvs_map kvs2 = (\<lambda>(j, key). if j = i then dict_map d2 key else kvs_map ?kvs (j, key))"
      using kvs_put_count [OF ok i1 p d2(2,5)] d2(4) g(4) by auto
    have "i < num_dicts kvs2" using kvs_params_num [OF kvs2(3)] i by simp
    then obtain kvs3 where kvs3: "freeDictIfNeeded kvs2 (int i) = Some kvs3" "kvs_ok kvs3" "kvs_params kvs2 kvs3"
      "kvs_map kvs3 = kvs_map kvs2"
      using freeDict_spec [OF kvs2(2)] by blast
    have "kvs_map kvs2 = (kvs_map kvs)((i, key) := None)"
      unfolding kvs2(4) m d2(3) using g(5) by (auto simp: fun_eq_iff)
    moreover have "kvs_unlink cr kvs i key = Some (kvs3, True)"
      using Some find kvs_dictD(1) [OF ok i1 p] d2(1) kvs2(1) kvs3(1)
      by (simp add: kvs_unlink_def kvstoreDictTwoPhaseUnlinkFree_def)
    moreover have "kvs_params kvs kvs3" using kvs_params_trans kvs_params_put kvs2(3) kvs3(3) by blast
    ultimately show ?thesis using kvs3 kin x(3) by auto
  qed
qed

subsection \<open>Resizing\<close>

text \<open>A state between two operations: the cursor of the background resizing is inside the array too.\<close>

definition kvs_wf :: "nat \<Rightarrow> ('k, 'v) kvstore \<Rightarrow> bool" where
  "kvs_wf n kvs \<longleftrightarrow> kvs_ok kvs \<and> num_dicts kvs = n \<and> resize_cursor kvs < n \<and> \<not> no_value (kvs_dtype kvs)"

lemma kvs_wf_params: "kvs_wf n kvs \<Longrightarrow> kvs_ok kvs' \<Longrightarrow> kvs_params kvs kvs' \<Longrightarrow> kvs_wf n kvs'"
  using kvs_params_num by (auto simp: kvs_wf_def kvs_params_def)

lemma kvsExpand_spec:
  assumes k: "kvs_ok kvs" and i: "i < num_dicts kvs"
  shows "\<exists>kvs' r. kvstoreDictExpand cr kvs i sz = Some (kvs', r) \<and> kvs_ok kvs' \<and> kvs_params kvs kvs' \<and>
     kvs_map kvs' = kvs_map kvs"
proof (cases "kvs_dicts kvs ! i")
  case None
  then show ?thesis using k i kvs_shapeD(2) [of kvs i] by (simp add: kvstoreDictExpand_def kvs_ok_def)
next
  case (Some d)
  obtain d' r where "dictExpand cr d sz = Some (d', r)" "reorg d d'"
    using dictExpand_spec [OF kvs_dictD(2) [OF k i Some], of cr sz] by (auto simp: resize_step_def)
  then show ?thesis using kvs_dictD(1) [OF k i Some] kvs_put_reorg [OF k i Some] by (simp add: kvstoreDictExpand_def)
qed

lemma resize_one_spec:
  assumes d: "dict_ok d"
  shows "\<exists>d1 r d2. dictShrinkIfNeeded cr d = Some (d1, r) \<and>
     (if r then Some d1 else map_option fst (dictExpandIfNeeded cr d1)) = Some d2 \<and> reorg d d2"
proof -
  obtain d1 r where s: "dictShrinkIfNeeded cr d = Some (d1, r)" "reorg d d1"
    using dictShrinkIfNeeded_spec [OF d, of cr] by (auto simp: resize_step_def)
  then obtain d2 r2 where e: "dictExpandIfNeeded cr d1 = Some (d2, r2)" "reorg d1 d2"
    using dictExpandIfNeeded_spec [of d1 cr] by (auto simp: resize_step_def reorg_def)
  show ?thesis
    using s e reorg_trans [OF s(2) e(2)] by (cases r) auto
qed

lemma resize_loop_spec:
  assumes "kvs_wf n kvs"
  shows "\<exists>kvs'. resize_loop cr kvs m = Some kvs' \<and> kvs_wf n kvs' \<and> kvs_map kvs' = kvs_map kvs"
  using assms
proof (induction m arbitrary: kvs)
  case (Suc m)
  let ?i = "resize_cursor kvs"
  have k: "kvs_ok kvs" and i: "?i < num_dicts kvs" using Suc.prems by (auto simp: kvs_wf_def)
  have adv: "kvs_wf n (q\<lparr>resize_cursor := (?i + 1) mod num_dicts q\<rparr>) \<and>
      kvs_map (q\<lparr>resize_cursor := (?i + 1) mod num_dicts q\<rparr>) = kvs_map q" if "kvs_wf n q" for q :: "('a, 'b) kvstore"
  proof -
    have f: "num_dicts (q\<lparr>resize_cursor := c\<rparr>) = num_dicts q" "kvs_sizes (q\<lparr>resize_cursor := c\<rparr>) = kvs_sizes q"
      "kvs_map (q\<lparr>resize_cursor := c\<rparr>) = kvs_map q" "kvs_shape (q\<lparr>resize_cursor := c\<rparr>) = kvs_shape q" for c
      by (auto simp: num_dicts_def kvs_sizes_def kvs_map_def kvs_shape_def fun_eq_iff)
    have "num_dicts q > 0" by (simp add: num_dicts_def)
    then show ?thesis using that f by (auto simp: kvs_wf_def kvs_ok_def kvs_counts_def)
  qed
  obtain q where q: "resize_loop cr kvs (Suc m) = resize_loop cr (q\<lparr>resize_cursor := (?i + 1) mod num_dicts q\<rparr>) m"
    "kvs_wf n q" "kvs_map q = kvs_map kvs"
  proof (cases "kvs_dicts kvs ! ?i")
    case None
    then show ?thesis using that [of kvs] Suc.prems k i kvs_shapeD(2) [of kvs ?i] by (simp add: kvs_ok_def Let_def)
  next
    case (Some d)
    obtain d1 r d2 where d2: "dictShrinkIfNeeded cr d = Some (d1, r)"
      "(if r then Some d1 else map_option fst (dictExpandIfNeeded cr d1)) = Some d2" "reorg d d2"
      using resize_one_spec [OF kvs_dictD(2) [OF k i Some]] by blast
    show ?thesis
      using that [of "kvs_put kvs ?i d2"] d2 kvs_dictD(1) [OF k i Some] kvs_put_reorg [OF k i Some d2(3)]
        kvs_wf_params [OF Suc.prems] by (simp add: Let_def)
  qed
  then show ?case using Suc.IH adv [OF q(2)] by force
qed simp

subsection \<open>The number of keys\<close>

lemma kvstoreSize_sum:
  assumes "kvs_ok kvs"
  shows "kvstoreSize kvs = Some (sum (kvs_sizes kvs) {..<num_dicts kvs})"
proof (cases "num_dicts kvs = 1")
  case True
  then show ?thesis
    using assms kvs_shapeD(2) [of kvs 0] by (simp add: kvstoreSize_def kvstoreDictSize_def kvs_ok_def kvs_sizes_def opt_size_def)
next
  case False
  then show ?thesis using assms by (simp add: kvstoreSize_def kvs_ok_def kvs_counts_def)
qed

lemma kvs_map_card:
  assumes k: "kvs_ok kvs"
  shows "card (dom (kvs_map kvs)) = sum (kvs_sizes kvs) {..<num_dicts kvs}"
proof -
  let ?D = "\<lambda>i. dom (opt_map (kvs_dicts kvs ! i))"
  have c: "finite (?D i) \<and> card (?D i) = kvs_sizes kvs i" if "i < num_dicts kvs" for i
  proof (cases "kvs_dicts kvs ! i")
    case (Some d)
    have "finite (dom (dict_map d))" by (simp add: dict_map_def finite_dom_map_of)
    then show ?thesis
      using Some that dictSize_card [OF kvs_dictD(2) [OF k that Some]] by (simp add: kvs_sizes_def)
  qed (use that in \<open>simp add: kvs_sizes_def\<close>)
  have "dom (kvs_map kvs) = (SIGMA i:{..<num_dicts kvs}. ?D i)" by (auto simp: kvs_map_def split: if_splits)
  then show ?thesis using c by simp
qed

lemma kvstoreSize_spec: "kvs_ok kvs \<Longrightarrow> kvstoreSize kvs = Some (card (dom (kvs_map kvs)))"
  by (simp add: kvstoreSize_sum kvs_map_card)

subsection \<open>The store as one finite map\<close>

datatype ('k, 'v) kvs_op =
    KAdd nat 'k 'v | KFetch nat 'k | KDelete nat 'k | KUnlink nat 'k | KExpand nat nat | KResize nat | KSize

datatype 'v kvs_res = KBool bool | KVal "'v option option" | KNat nat | KVoid

fun kvs_step :: "dictResizeEnable \<times> ('k, 'v) kvs_op \<Rightarrow> ('k, 'v) kvstore \<Rightarrow> (('k, 'v) kvstore \<times> 'v kvs_res) option" where
  "kvs_step (cr, KAdd i k v) kvs = map_option (apsnd KBool) (kvs_add cr kvs i k v)"
| "kvs_step (cr, KFetch i k) kvs = map_option (apsnd KVal) (kvstoreDictFetchValue cr kvs i k)"
| "kvs_step (cr, KDelete i k) kvs = map_option (apsnd KBool) (kvstoreDictDelete cr kvs i k)"
| "kvs_step (cr, KUnlink i k) kvs = map_option (apsnd KBool) (kvs_unlink cr kvs i k)"
| "kvs_step (cr, KExpand i n) kvs = map_option (apsnd (\<lambda>_. KVoid)) (kvstoreDictExpand cr kvs i n)"
| "kvs_step (cr, KResize n) kvs = map_option (\<lambda>kvs. (kvs, KVoid)) (kvstoreTryResizeDicts cr kvs n)"
| "kvs_step (cr, KSize) kvs = map_option (\<lambda>n. (kvs, KNat n)) (kvstoreSize kvs)"

fun kvs_spec :: "dictResizeEnable \<times> ('k, 'v) kvs_op \<Rightarrow> (nat \<times> 'k \<rightharpoonup> 'v option) \<Rightarrow> (nat \<times> 'k \<rightharpoonup> 'v option) \<times> 'v kvs_res" where
  "kvs_spec (_, KAdd i k v) m = (if m (i, k) = None then (m((i, k) \<mapsto> Some v), KBool True) else (m, KBool False))"
| "kvs_spec (_, KFetch i k) m = (m, KVal (m (i, k)))"
| "kvs_spec (_, KDelete i k) m = (m((i, k) := None), KBool (m (i, k) \<noteq> None))"
| "kvs_spec (_, KUnlink i k) m = (m((i, k) := None), KBool (m (i, k) \<noteq> None))"
| "kvs_spec (_, KExpand i n) m = (m, KVoid)"
| "kvs_spec (_, KResize n) m = (m, KVoid)"
| "kvs_spec (_, KSize) m = (m, KNat (card (dom m)))"

text \<open>The callers pass an index of the array.\<close>

fun kvs_adm :: "nat \<Rightarrow> dictResizeEnable \<times> ('k, 'v) kvs_op \<Rightarrow> bool" where
  "kvs_adm n (_, KAdd i k v) = (i < n)"
| "kvs_adm n (_, KFetch i k) = (i < n)"
| "kvs_adm n (_, KDelete i k) = (i < n)"
| "kvs_adm n (_, KUnlink i k) = (i < n)"
| "kvs_adm n (_, KExpand i m) = (i < n)"
| "kvs_adm n (_, KResize m) = True"
| "kvs_adm n (_, KSize) = True"

lemma kvs_step_refines:
  assumes a: "kvs_adm n oper" and w: "kvs_wf n kvs"
  shows "\<exists>kvs' r. kvs_step oper kvs = Some (kvs', r) \<and> kvs_wf n kvs' \<and> kvs_spec oper (kvs_map kvs) = (kvs_map kvs', r)"
proof -
  obtain cr p where oper: "oper = (cr, p)" by (cases oper)
  have k: "kvs_ok kvs" "\<not> no_value (kvs_dtype kvs)" "num_dicts kvs = n" using w by (auto simp: kvs_wf_def)
  note keep = kvs_wf_params [OF w]
  show ?thesis
  proof (cases p)
    case (KAdd i key v)
    then show ?thesis
      using a k kvs_add_spec [OF k(1) _ k(2), of i cr key v] keep by (auto simp: oper dom_def split: if_splits)
  next
    case (KFetch i key)
    then show ?thesis using a k kvsFetch_spec [OF k(1) _ k(2), of i cr key] keep by (auto simp: oper)
  next
    case (KDelete i key)
    then show ?thesis using a k kvsDelete_spec [OF k(1), of i cr key] keep by (auto simp: oper dom_def)
  next
    case (KUnlink i key)
    then show ?thesis using a k kvs_unlink_spec [OF k(1), of i cr key] keep by (auto simp: oper dom_def)
  next
    case (KExpand i m)
    then show ?thesis using a k kvsExpand_spec [OF k(1), of i cr m] keep by (auto simp: oper)
  next
    case (KResize m)
    then show ?thesis
      using resize_loop_spec [OF w, of cr "if m > num_dicts kvs then num_dicts kvs else m"]
      by (auto simp: oper kvstoreTryResizeDicts_def)
  next
    case KSize
    then show ?thesis using kvstoreSize_spec [OF k(1)] w by (simp add: oper)
  qed
qed

interpretation slot_map: guarded_refinement "kvs_adm n" "kvs_wf n" kvs_map kvs_step kvs_spec for n
  by unfold_locales (rule kvs_step_refines)

lemma create_all_spec:
  assumes "kvs_ok kvs" and "i + m \<le> num_dicts kvs"
  shows "\<exists>kvs'. create_all kvs i m = Some kvs' \<and> kvs_ok kvs' \<and> kvs_params kvs kvs' \<and> kvs_map kvs' = kvs_map kvs"
  using assms
proof (induction m arbitrary: kvs i)
  case (Suc m)
  obtain kvs1 d where c: "createDictIfNeeded kvs i = Some (kvs1, d)" "kvs_ok kvs1" "kvs_params kvs kvs1"
    "kvs_map kvs1 = kvs_map kvs"
    using createDict_spec [OF Suc.prems(1), of i] Suc.prems(2) by auto
  then obtain kvs2 where "create_all kvs1 (i + 1) m = Some kvs2" "kvs_ok kvs2" "kvs_params kvs1 kvs2" "kvs_map kvs2 = kvs_map kvs1"
    using Suc.IH [of kvs1 "i + 1"] Suc.prems(2) kvs_params_num [OF c(3)] by auto
  then show ?case using c kvs_params_trans [OF c(3)] by simp
qed simp

lemma kvstoreCreate_spec:
  assumes b: "bits \<le> 16" and t: "has_rehashingStarted type" "has_rehashingCompleted type" and v: "\<not> no_value type"
  shows "\<exists>kvs. kvstoreCreate type bits on_demand free_empty = Some kvs \<and> kvs_wf (2 ^ bits) kvs \<and>
     kvs_map kvs = Map.empty \<and> kvs_free_empty kvs = free_empty"
proof -
  define kvs :: "('a, 'b) kvstore" where "kvs = \<lparr>kvs_on_demand = on_demand, kvs_free_empty = free_empty, kvs_dtype = type,
       kvs_dicts = replicate (2 ^ bits) None, kvs_nodes = replicate (2 ^ bits) False, num_dicts_bits = bits,
       kvs_rehashing = [], resize_cursor = 0, allocated_dicts = 0, non_empty_dicts = 0, key_count = 0,
       bucket_count = 0, dict_size_index = (if 2 ^ bits > (1::nat) then replicate (2 ^ bits + 1) 0 else []),
       overhead_hashtable_lut = 0, overhead_hashtable_rehashing = 0\<rparr>"
  have n: "num_dicts kvs = 2 ^ bits" by (simp add: kvs_def num_dicts_def)
  have z: "kvs_sizes kvs = (\<lambda>_. 0)" by (rule ext) (simp add: kvs_sizes_def n, simp add: kvs_def)
  have m: "kvs_map kvs = Map.empty" by (rule ext) (simp add: kvs_map_def n split: prod.split, simp add: kvs_def)
  have "kvs_shape kvs" unfolding kvs_shape_def n by (simp add: kvs_def b)
  moreover have "from_one (\<lambda>_. 0) = (\<lambda>_. 0)" by (auto simp: from_one_def split: nat.split)
  then have "fenwick (replicate (2 ^ bits + 1) 0) (2 ^ bits) (from_one (\<lambda>_. 0))"
    by (simp add: fenwick_def node_sum_def del: replicate.simps)
  then have "kvs_counts kvs (\<lambda>_. 0)" unfolding kvs_counts_def n using one_less_power [of "2::nat" bits] by (auto simp: kvs_def)
  ultimately have ok: "kvs_ok kvs" by (simp add: kvs_ok_def z)
  moreover have "kvs_wf (2 ^ bits) kvs" unfolding kvs_wf_def n using ok v by (simp add: kvs_def)
  moreover obtain kvs' where "create_all kvs 0 (2 ^ bits) = Some kvs'" "kvs_ok kvs'" "kvs_params kvs kvs'" "kvs_map kvs' = kvs_map kvs"
    using create_all_spec [OF ok, of 0 "2 ^ bits"] n by auto
  moreover have "kvstoreCreate type bits on_demand free_empty = (if \<not> on_demand then create_all kvs 0 (2 ^ bits) else Some kvs)"
    using b t by (simp add: kvstoreCreate_def kvs_def Let_def)
  moreover have "kvs_free_empty kvs = free_empty" by (simp add: kvs_def)
  ultimately show ?thesis using m kvs_wf_params [of "2 ^ bits" kvs kvs'] by (auto simp: kvs_params_def)
qed

text \<open>C2: A key-value store behaves as one finite map from pairs of a dict index and a key. Whatever
  sequence of insertions, lookups, deletions (in one or in two phases), expansions, background resizes and size queries is
  run on a fresh store, whether its dicts are created on demand and freed when empty or not, no assertion fails, in
  particular none of the tree of sizes, and every result, the number of keys included, is that of the map.\<close>

theorem kvstore_refines_map:
  fixes opers :: "(dictResizeEnable \<times> ('k, 'v) kvs_op) list"
  assumes "bits \<le> 16" and "has_rehashingStarted type" and "has_rehashingCompleted type" and "\<not> no_value type"
    and "list_all (kvs_adm (2 ^ bits)) opers"
  shows "\<exists>kvs0 kvs rs. kvstoreCreate type bits on_demand free_empty = Some kvs0 \<and>
     run_ops kvs_step opers kvs0 = Some (kvs, rs) \<and> kvs_ok kvs \<and> run_spec kvs_spec opers Map.empty = (kvs_map kvs, rs)"
proof -
  obtain kvs0 :: "('k, 'v) kvstore" where c: "kvstoreCreate type bits on_demand free_empty = Some kvs0" "kvs_wf (2 ^ bits) kvs0" "kvs_map kvs0 = Map.empty"
    using kvstoreCreate_spec [OF assms(1-4)] by blast
  then show ?thesis using slot_map.guarded_run [OF assms(5) c(2)] by (auto simp: kvs_wf_def)
qed

definition demo_kvs_ops :: "(dictResizeEnable \<times> (nat, nat) kvs_op) list" where
  "demo_kvs_ops = [(DICT_RESIZE_ENABLE, KAdd 2 7 70), (DICT_RESIZE_ENABLE, KAdd 3 7 71), (DICT_RESIZE_AVOID, KFetch 2 7),
     (DICT_RESIZE_ENABLE, KResize 9), (DICT_RESIZE_ENABLE, KSize), (DICT_RESIZE_ENABLE, KUnlink 2 7),
     (DICT_RESIZE_ENABLE, KDelete 2 7), (DICT_RESIZE_ENABLE, KFetch 3 7)]"

theorem kvstore_refines_map_witness:
  "\<exists>kvs0 kvs. kvstoreCreate demo_type 2 True True = Some kvs0 \<and>
     run_ops kvs_step demo_kvs_ops kvs0 = Some (kvs, [KBool True, KBool True, KVal (Some (Some 70)), KVoid, KNat 2,
       KBool True, KBool False, KVal (Some (Some 71))])"
  using kvstore_refines_map [of 2 demo_type demo_kvs_ops True True] by (auto simp: demo_type_def demo_kvs_ops_def)

subsection \<open>Finding the dict of a key\<close>

lemma kvs_fenwick:
  assumes "kvs_ok kvs" and "num_dicts kvs \<noteq> 1"
  shows "fenwick (dict_size_index kvs) (2 ^ num_dicts_bits kvs) (from_one (kvs_sizes kvs))"
  using assms by (simp add: kvs_ok_def kvs_counts_def num_dicts_def)

lemma find_rank:
  assumes k: "kvs_ok kvs" and "0 < rank" and "rank \<le> card (dom (kvs_map kvs))"
  shows "\<exists>i. kvstoreFindDictIndexByKeyIndex kvs rank = Some i \<and> i < num_dicts kvs \<and>
     sum (kvs_sizes kvs) {..<i} < rank \<and> rank \<le> sum (kvs_sizes kvs) {..<Suc i}"
proof (cases "num_dicts kvs = 1")
  case True
  then show ?thesis
    using assms kvstoreSize_spec [OF k] kvs_map_card [OF k] by (simp add: kvstoreFindDictIndexByKeyIndex_def)
next
  case False
  then obtain r where "bit_find (dict_size_index kvs) (2 ^ num_dicts_bits kvs) 0 rank = Some r" "r < num_dicts kvs"
    "sum (kvs_sizes kvs) {..<r} < rank" "rank \<le> sum (kvs_sizes kvs) {..<Suc r}"
    using bit_find_spec [OF kvs_fenwick [OF k False], of rank] assms kvs_map_card [OF k]
    by (auto simp: prefix_from_one num_dicts_def)
  then show ?thesis
    using assms False kvstoreSize_spec [OF k] by (simp add: kvstoreFindDictIndexByKeyIndex_def)
qed

text \<open>C10: The dict that \<^verbatim>\<open>kvstoreFindDictIndexByKeyIndex\<close> finds for a rank between 1 and the number of keys
  is the one that holds the key of that rank when the dicts are laid one after another; in particular, it is not empty.\<close>

theorem find_dict_by_rank:
  assumes "kvs_ok kvs" and "0 < rank" and "rank \<le> card (dom (kvs_map kvs))"
  shows "\<exists>i. kvstoreFindDictIndexByKeyIndex kvs rank = Some i \<and> i < num_dicts kvs \<and>
     sum (kvs_sizes kvs) {..<i} < rank \<and> rank \<le> sum (kvs_sizes kvs) {..<Suc i}"
  using find_rank [OF assms] .

definition demo_pair :: "(nat, nat) dict" where
  "demo_pair = \<lparr>dict_type = demo_type,
     ht0 = \<lparr>ht_table = [[], [ENormal 1 (Some 10)], [ENormal 6 (Some 60)], []], ht_used = 2, ht_size_exp = 2\<rparr>,
     ht1 = dictReset, rehashidx = -1, pauserehash = 0, pauseAutoResize = 0, dict_events = []\<rparr>"

lemma demo_pair_ok: "dict_ok demo_pair"
proof -
  have h: "ht_ok (dict_type demo_pair) (ht0 demo_pair)"
    by (simp add: demo_pair_def demo_simps ht_ok_def All_less_Suc bucket_ok_def kind_ok_def)
  have "\<forall>k. count (image_mset fst (dict_kvs demo_pair)) k \<le> 1"
    by (simp add: demo_pair_def dict_kvs_def ht_kvs_def kv_def dictReset_def)
  moreover have "ht_ok (dict_type demo_pair) (ht1 demo_pair)" by (simp add: demo_pair_def ht_ok_def dictReset_def)
  ultimately show ?thesis
    using h by (simp add: dict_ok_def) (simp add: demo_pair_def)
qed

lemma demo_pair_facts: "dictSize demo_pair = 2" "dict_ready demo_pair" "dict_type demo_pair = demo_type"
  "dict_events demo_pair = []" "dict_map demo_pair = [6 \<mapsto> Some 60, 1 \<mapsto> Some 10]"
  by (simp_all add: demo_pair_def dictSize_def dict_ready_def dictReset_def dict_map_def kv_def)

definition demo_kvs :: "(nat, nat) kvstore" where
  "demo_kvs = \<lparr>kvs_on_demand = True, kvs_free_empty = True, kvs_dtype = demo_type,
     kvs_dicts = [None, Some demo_dict, None, Some demo_pair], kvs_nodes = [False, True, False, False], num_dicts_bits = 2,
     kvs_rehashing = [1], resize_cursor = 0, allocated_dicts = 2, non_empty_dicts = 2, key_count = 5,
     bucket_count = 16, dict_size_index = [0, 0, 3, 0, 5],
     overhead_hashtable_lut = 16, overhead_hashtable_rehashing = 4\<rparr>"

lemma demo_dict_facts: "dictSize demo_dict = 3" "dict_ready demo_dict" "dict_type demo_dict = demo_type" "dict_events demo_dict = []"
  by (simp_all add: demo_dict_def dictSize_def dict_ready_def)

lemma demo_kvs_sizes: "kvs_sizes demo_kvs = (\<lambda>i. if i = 1 then 3 else if i = 3 then 2 else 0)" "num_dicts demo_kvs = 4"
  by (auto simp: demo_kvs_def kvs_sizes_def num_dicts_def nth_Cons' demo_dict_facts demo_pair_facts)

lemma demo_kvs_ok: "kvs_ok demo_kvs"
proof -
  have lb: "lowbit (Suc 0) = 1" "lowbit 2 = 2" "lowbit 3 = 1" "lowbit 4 = 4"
    by (simp_all add: lowbit_def)
  have four: "(\<forall>i. 0 < i \<and> i \<le> 4 \<longrightarrow> P i) \<longleftrightarrow> P 1 \<and> P 2 \<and> P 3 \<and> P (4::nat)" for P
    by (auto simp: le_Suc_eq numeral_eq_Suc)
  have sets: "{0<..Suc 0} = {1}" "{0<..2} = {1, 2::nat}" "{2<..3} = {3::nat}" "{0<..4} = {1, 2, 3, 4::nat}" by auto
  have vals: "from_one s 1 = s 0" "from_one s 2 = s 1" "from_one s 3 = s 2" "from_one s 4 = s 3" for s
    by (simp_all add: from_one_def eval_nat_numeral)
  have "kvs_shape demo_kvs"
    by (simp add: kvs_shape_def num_dicts_def demo_kvs_def demo_dict_ok demo_dict_facts demo_pair_ok demo_pair_facts)
  moreover have "fenwick (dict_size_index demo_kvs) 4 (from_one (kvs_sizes demo_kvs))"
    by (simp add: fenwick_def demo_kvs_sizes node_sum_def four lb sets vals)
      (simp add: demo_kvs_def)
  moreover have "key_count demo_kvs = sum (kvs_sizes demo_kvs) {..<4}"
    by (simp add: demo_kvs_sizes lessThan_nat_numeral) (simp add: demo_kvs_def)
  ultimately show ?thesis by (simp add: kvs_ok_def kvs_counts_def demo_kvs_sizes(2))
qed

theorem find_dict_by_rank_witness: "\<exists>i. kvstoreFindDictIndexByKeyIndex demo_kvs 4 = Some i \<and> i = 3"
proof -
  have "card (dom (kvs_map demo_kvs)) = 5"
    by (simp add: kvs_map_card [OF demo_kvs_ok] demo_kvs_sizes lessThan_nat_numeral)
  then obtain i where i: "kvstoreFindDictIndexByKeyIndex demo_kvs 4 = Some i" "i < 4" "4 \<le> sum (kvs_sizes demo_kvs) {..<Suc i}"
    using find_dict_by_rank [OF demo_kvs_ok, of 4] demo_kvs_sizes(2) by auto
  then have "i = 0 \<or> i = 1 \<or> i = 2 \<or> i = 3" by auto
  then have "i = 3" using i(3) by (auto simp: demo_kvs_sizes lessThan_nat_numeral)
  then show ?thesis using i(1) by blast
qed

lemma sum_sizes_mono: "i \<le> j \<Longrightarrow> sum s {..<i::nat} \<le> (sum s {..<j} :: nat)"
  by (intro sum_mono2) auto

text \<open>C11: \<^verbatim>\<open>kvstoreGetNextNonEmptyDictIndex\<close> returns the least index above the given one whose dict is not empty,
  or -1 when all the later dicts are empty; so a walk that follows it visits every dict that has keys.\<close>

theorem next_non_empty_is_least:
  assumes k: "kvs_ok kvs" and i: "i < num_dicts kvs"
  shows "kvstoreGetNextNonEmptyDictIndex kvs i =
     Some (if \<exists>j. i < j \<and> j < num_dicts kvs \<and> kvs_sizes kvs j \<noteq> 0
           then int (LEAST j. i < j \<and> j < num_dicts kvs \<and> kvs_sizes kvs j \<noteq> 0) else -1)"
proof (cases "num_dicts kvs = 1")
  case True
  then show ?thesis using i by (auto simp: kvstoreGetNextNonEmptyDictIndex_def)
next
  case False
  let ?s = "kvs_sizes kvs" and ?n = "num_dicts kvs"
  have rd: "cumulativeKeyCountRead kvs i = Some (sum ?s {..<Suc i})"
    using bit_read_spec [OF kvs_fenwick [OF k False], of "i + 1" 0] i False
    by (simp add: cumulativeKeyCountRead_def prefix_from_one num_dicts_def)
  note sz = kvstoreSize_sum [OF k]
  have split: "sum ?s {..<?n} = sum ?s {..<Suc i} + sum ?s {Suc i..<?n}"
    using i by (simp add: sum.atLeastLessThan_concat [of 0 "Suc i" ?n ?s, symmetric] lessThan_atLeast0)
  show ?thesis
  proof (cases "\<exists>j. i < j \<and> j < ?n \<and> ?s j \<noteq> 0")
    case True
    let ?t = "sum ?s {..<Suc i} + 1"
    have "sum ?s {Suc i..<?n} \<noteq> 0" using True by auto
    then have le: "?t \<le> sum ?s {..<?n}" using split by linarith
    then obtain r where r: "kvstoreFindDictIndexByKeyIndex kvs ?t = Some r" "r < ?n" "sum ?s {..<r} < ?t" "?t \<le> sum ?s {..<Suc r}"
      using find_rank [OF k, of ?t] kvs_map_card [OF k] by auto
    have ir: "i < r" using r(4) sum_sizes_mono [of "Suc r" "Suc i" ?s] by (meson add_le_same_cancel1 le_trans not_less not_one_le_zero Suc_le_mono)
    have "?s r \<noteq> 0" using r(3,4) by auto
    moreover have "?s j = 0" if "i < j" "j < r" for j
    proof -
      have "sum ?s {..<Suc j} \<le> sum ?s {..<r}" using that by (intro sum_sizes_mono) auto
      moreover have "sum ?s {..<Suc i} \<le> sum ?s {..<j}" using that by (intro sum_sizes_mono) auto
      ultimately show ?thesis using r(3) by simp
    qed
    ultimately have "(LEAST j. i < j \<and> j < ?n \<and> ?s j \<noteq> 0) = r"
      using ir r(2) by (intro Least_equality) (auto simp: not_less [symmetric])
    then show ?thesis using True False rd sz le r(1) by (simp add: kvstoreGetNextNonEmptyDictIndex_def)
  next
    case no: False
    then have "sum ?s {Suc i..<?n} = 0" by auto
    then have "\<not> sum ?s {..<Suc i} + 1 \<le> sum ?s {..<?n}" using split by linarith
    then show ?thesis using no False rd sz by (simp add: kvstoreGetNextNonEmptyDictIndex_def)
  qed
qed

theorem next_non_empty_is_least_witness: "kvstoreGetNextNonEmptyDictIndex demo_kvs 1 = Some 3"
proof -
  have e: "1 < j \<and> j < num_dicts demo_kvs \<and> kvs_sizes demo_kvs j \<noteq> 0 \<longleftrightarrow> j = 3" for j
    by (auto simp: demo_kvs_sizes)
  show ?thesis
    using next_non_empty_is_least [OF demo_kvs_ok, of 1] unfolding e by (simp add: demo_kvs_sizes Least_equality)
qed

text \<open>C21: A scan cursor of a store carries the index of the dict in its low bits: what was put in comes out again,
  as long as the cursor of the dict leaves room for it.\<close>

theorem cursor_roundtrip:
  assumes "didx < num_dicts kvs" and "num_dicts_bits kvs \<le> 16" and "unat cursor < 2 ^ (64 - num_dicts_bits kvs)"
  shows "getAndClearDictIndexFromCursor kvs (addDictIndexToCursor kvs (int didx) cursor) = (didx, cursor)"
proof (cases "num_dicts kvs = 1")
  case True
  then show ?thesis using assms(1) by (simp add: getAndClearDictIndexFromCursor_def addDictIndexToCursor_def)
next
  case False
  let ?b = "num_dicts_bits kvs"
  have n: "num_dicts kvs = 2 ^ ?b" by (simp add: num_dicts_def)
  have bitc: "\<not> bit cursor m" if "64 - ?b \<le> m" for m
  proof -
    have "take_bit (64 - ?b) (unat cursor) = unat cursor" using assms(3) by (rule take_bit_nat_eq_self)
    then have "\<not> bit (unat cursor) m" using that by (metis bit_take_bit_iff not_le)
    then show ?thesis by (simp add: bit_unsigned_iff)
  qed
  have low: "?b + m < 64" if "bit cursor m" for m
    using bitc [of m] that assms(2) by linarith
  have small: "bit didx m \<Longrightarrow> m < ?b" for m using assms(1) n by (metis bit_take_bit_iff take_bit_nat_eq_self)
  have "drop_bit ?b (push_bit ?b cursor OR word_of_nat didx) = cursor"
    by (rule bit_word_eqI) (auto simp: bit_drop_bit_eq bit_or_iff bit_push_bit_iff bit_of_nat_iff dest: low small)
  moreover have "(push_bit ?b cursor OR word_of_nat didx) AND word_of_nat (2 ^ ?b - 1) = (word_of_nat didx :: 64 word)"
    by (rule bit_word_eqI) (auto simp: bit_and_iff bit_or_iff bit_push_bit_iff bit_of_nat_iff
        mask_eq_exp_minus_1 [symmetric] bit_mask_iff dest: small)
  moreover have "unat (word_of_nat didx :: 64 word) = didx"
  proof -
    have "didx < 2 ^ 64" using assms(1,2) n power_increasing [of ?b 64 "2::nat"] by simp
    then show ?thesis by (simp add: unsigned_of_nat take_bit_nat_eq_self)
  qed
  ultimately show ?thesis using False n by (simp add: getAndClearDictIndexFromCursor_def addDictIndexToCursor_def)
qed

theorem cursor_roundtrip_witness:
  "getAndClearDictIndexFromCursor demo_kvs (addDictIndexToCursor demo_kvs 3 5) = (3, 5)"
  using cursor_roundtrip [of 3 demo_kvs 5] by (simp add: demo_kvs_sizes) (simp add: demo_kvs_def)

text \<open>C37: The counter of the non-empty dicts is not kept: a deletion that takes a dict from two keys to one
  increments it, although the dict was non-empty before and is non-empty after.\<close>

theorem delete_miscounts_non_empty:
  assumes k: "kvs_ok kvs" and i: "i < num_dicts kvs" and two: "kvs_sizes kvs i = 2" and key: "(i, key) \<in> dom (kvs_map kvs)"
  shows "\<exists>kvs'. kvstoreDictDelete cr kvs i key = Some (kvs', True) \<and> kvs_sizes kvs' = (kvs_sizes kvs)(i := 1) \<and>
     non_empty_dicts kvs' = non_empty_dicts kvs + 1"
proof -
  obtain d where di: "kvs_dicts kvs ! i = Some d" using two i by (cases "kvs_dicts kvs ! i") (auto simp: kvs_sizes_def)
  note g = kvs_dictD [OF k i di]
  have kd: "key \<in> dom (dict_map d)" using key g(5) by (auto simp: dom_def)
  obtain d' where d': "dictDelete cr d key = Some (d', True)" "dict_ok d'" "dict_ready d'" "dict_type d' = kvs_dtype kvs"
    "dict_map d' = (dict_map d)(key := None)"
    using dictDelete_spec [OF g(2,3), of cr key] kd g(4) by (auto simp: same_params_def)
  have sz: "dictSize d = 2" using two di i by (simp add: kvs_sizes_def)
  then have one: "dictSize d' = 1" using dictSize_map_del [OF g(2) d'(2,5) kd] by simp
  let ?kvs = "kvs_put kvs i d'"
  have s: "kvs_shape kvs" using k by (simp add: kvs_ok_def)
  have shape: "kvs_shape ?kvs" using kvs_shape_put [OF s d'(2-4)] .
  have c: "kvs_counts ?kvs (kvs_sizes kvs)" using k by (simp add: kvs_ok_def)
  have v: "int 1 = int (kvs_sizes kvs i) + -1" using two by simp
  obtain a b e where add: "cumulativeKeyCountAdd ?kvs i (-1) = Some (?kvs\<lparr>key_count := a, dict_size_index := b, non_empty_dicts := e\<rparr>)"
    "e = non_empty_dicts ?kvs + 1"
    using key_count_add_spec [OF shape c _ kvs_put_dict [OF k i] v] i one by auto
  let ?k = "?kvs\<lparr>key_count := a, dict_size_index := b, non_empty_dicts := e\<rparr>"
  have "freeDictIfNeeded ?k (int i) = Some ?k"
    using kvs_put_dict [OF k i, of d'] i s one by (simp add: freeDictIfNeeded_def kvstoreGetDict_def kvs_shape_def)
  then have "kvstoreDictDelete cr kvs i key = Some (?k, True)"
    using g(1) d'(1) add(1) by (simp add: kvstoreDictDelete_def Let_def)
  moreover have "kvs_sizes ?k = kvs_sizes ?kvs" by (simp add: kvs_sizes_def num_dicts_def fun_eq_iff)
  then have "kvs_sizes ?k = (kvs_sizes kvs)(i := 1)" using kvs_sizes_put [OF s i, of d'] one by simp
  ultimately show ?thesis using add(2) by auto
qed

theorem delete_miscounts_non_empty_witness:
  "\<exists>kvs'. kvstoreDictDelete DICT_RESIZE_ENABLE demo_kvs 3 6 = Some (kvs', True) \<and> non_empty_dicts kvs' = 3 \<and>
     kvs_sizes kvs' = (\<lambda>i. if i = 1 then 3 else if i = 3 then 1 else 0)"
proof -
  have m: "kvs_map demo_kvs (3, 6) = Some (Some 60)"
    by (simp add: kvs_map_def demo_kvs_sizes(2)) (simp add: demo_kvs_def demo_pair_facts)
  have n: "non_empty_dicts demo_kvs = 2" by (simp add: demo_kvs_def)
  obtain kvs' where "kvstoreDictDelete DICT_RESIZE_ENABLE demo_kvs 3 6 = Some (kvs', True)"
    "kvs_sizes kvs' = (kvs_sizes demo_kvs)(3 := 1)" "non_empty_dicts kvs' = non_empty_dicts demo_kvs + 1"
    using delete_miscounts_non_empty [OF demo_kvs_ok, of 3 6 DICT_RESIZE_ENABLE] m by (auto simp: demo_kvs_sizes dom_def)
  then show ?thesis by (intro exI [of _ kvs']) (auto simp: n demo_kvs_sizes fun_eq_iff)
qed

subsection \<open>Freeing an empty dict\<close>

text \<open>The first insertion into a new dict makes a table of four buckets; both callbacks are called. The deletion of a key from such
  a small table neither resizes nor rehashes it.\<close>

lemma dictNextExp_4: "dictNextExp 4 = 2"
  by (simp add: dictNextExp_def DICT_HT_INITIAL_SIZE_def)

lemma first_insert_events:
  fixes type :: "'k dictType"
  assumes "has_rehashingStarted type" and "has_rehashingCompleted type"
  shows "\<exists>(d :: ('k, 'v) dict) pos. dictAddRaw cr (dictCreate type) key = Some (d, Inr pos) \<and>
     dict_events d = [RehashingStarted 0 4, RehashingCompleted 0 4] \<and> ht_size_exp (ht0 d) = 2 \<and>
     \<not> dictIsRehashing d \<and> pauserehash d = 0"
proof -
  let ?h = "\<lparr>ht_table = replicate 4 [], ht_used = 0, ht_size_exp = 2\<rparr> :: ('k, 'v) ht"
  let ?d = "(dictCreate type :: ('k, 'v) dict)\<lparr>ht0 := ?h, dict_events := [RehashingStarted 0 4, RehashingCompleted 0 4]\<rparr>"
  let ?i = "hashFunction type key mod 4"
  have e: "dictExpandIfAutoResizeAllowed cr (dictCreate type) = Some ?d"
    using assms by (simp add: dictExpandIfAutoResizeAllowed_def dictExpandIfNeeded_def dictExpand_def dictExpandWithOptionalCheck_def
      dictResizeWithOptionalCheck_def dictNextExp_4 dictCreate_def dictReset_def DICTHT_SIZE_def DICT_HT_INITIAL_SIZE_def
      dictIsRehashing_def notifyStarted_def notifyCompleted_def Let_def)
  have r: "rehash_for cr (dictCreate type :: ('k, 'v) dict) h = Some (dictCreate type)" for h
    by (simp add: rehash_for_def dictCreate_def dictIsRehashing_def)
  have ty: "dict_type (dictCreate type :: ('k, 'v) dict) = type" "ht_size_exp (ht0 (dictCreate type :: ('k, 'v) dict)) = -1"
    by (simp_all add: dictCreate_def dictReset_def)
  have i: "?i \<le> 3" using mod_less_divisor [of 4 "hashFunction type key"] by linarith
  have g: "get_bucket ?h ?i = Some []" by (simp add: get_bucket_def)
  have x: "rehashidx ?d = -1" "dict_ht ?d 0 = ?h" by (simp_all add: dictCreate_def dict_ht_def)
  have f: "find_in_tables ?d key (hashFunction type key) 0 = Some None"
    unfolding find_in_tables_def find_in_table_def x by (simp add: AND_SIZE_MASK g dictIsRehashing_def x(1) del: dict.simps)
  have "dictFindPositionForInsert cr (dictCreate type) key = Some (?d, Inr ?i)"
    using e r f by (simp add: dictFindPositionForInsert_def ty AND_SIZE_MASK Let_def dictIsRehashing_def x)
  moreover have "dictInsertAtPosition ?d key ?i = Some (set_ht ?d 0
      ((set_bucket ?h ?i [newEntry (dict_type ?d) key []])\<lparr>ht_used := 1\<rparr>), (0, ?i, 0))"
    using i g by (simp add: dictInsertAtPosition_def dictIsRehashing_def x DICTHT_SIZE_MASK_def DICTHT_SIZE_def set_bucket_def Let_def)
  ultimately have "dictAddRaw cr (dictCreate type) key = Some (set_ht ?d 0
      ((set_bucket ?h ?i [newEntry (dict_type ?d) key []])\<lparr>ht_used := 1\<rparr>), Inr (0, ?i, 0))" by (simp add: dictAddRaw_def)
  then show ?thesis by (simp add: set_ht_def set_bucket_def dictIsRehashing_def dictCreate_def)
qed

lemma small_delete_quiet:
  assumes "dictDelete cr d key = Some (d', r)" and "\<not> dictIsRehashing d" and "DICTHT_SIZE (ht_size_exp (ht0 d)) \<le> 4"
  shows "dict_events d' = dict_events d" and "\<not> dictIsRehashing d'" and "pauserehash d' = pauserehash d"
proof -
  have u: "dict_events d1 = dict_events d \<and> rehashidx d1 = rehashidx d \<and> pauserehash d1 = pauserehash d \<and>
      ht_size_exp (ht0 d1) = ht_size_exp (ht0 d)" if "unlink_at d pos = Some d1" for pos d1
    using that by (auto simp: unlink_at_def set_ht_def set_bucket_def dict_ht_def Let_def bind_eq_Some_conv split: prod.splits if_splits)
  have s: "dictShrinkIfAutoResizeAllowed cr d1 = Some d1"
    if "\<not> dictIsRehashing d1" "DICTHT_SIZE (ht_size_exp (ht0 d1)) \<le> 4" for d1 :: "('a, 'b) dict"
    using that by (simp add: dictShrinkIfAutoResizeAllowed_def dictShrinkIfNeeded_def DICT_HT_INITIAL_SIZE_def)
  have "dict_events d' = dict_events d \<and> rehashidx d' = rehashidx d \<and> pauserehash d' = pauserehash d"
    using assms s u by (auto simp: dictDelete_def dictGenericDelete_def rehash_for_def dictIsRehashing_def Let_def
      bind_eq_Some_conv split: if_splits option.splits) 
  then show "dict_events d' = dict_events d" and "\<not> dictIsRehashing d'" and "pauserehash d' = pauserehash d"
    using assms(2) by (simp_all add: dictIsRehashing_def)
qed

lemma count_add_same:
  assumes "cumulativeKeyCountAdd kvs i delta = Some kvs'"
  shows "bucket_count kvs' = bucket_count kvs" "overhead_hashtable_lut kvs' = overhead_hashtable_lut kvs"
    "kvs_free_empty kvs' = kvs_free_empty kvs" "allocated_dicts kvs' = allocated_dicts kvs" "kvs_dicts kvs' = kvs_dicts kvs"
  using assms by (auto simp: cumulativeKeyCountAdd_def Let_def bind_eq_Some_conv split: if_splits)

lemma kvs_first_add:
  fixes kvs :: "('k, 'v) kvstore"
  assumes k: "kvs_ok kvs" and i: "i < num_dicts kvs" and none: "kvs_dicts kvs ! i = None"
    and t: "has_rehashingStarted (kvs_dtype kvs)" "has_rehashingCompleted (kvs_dtype kvs)"
  shows "\<exists>kvs1 pos d. kvstoreDictAddRaw cr kvs i key = Some (kvs1, Inr pos) \<and> kvs_ok kvs1 \<and> kvs_params kvs kvs1 \<and>
     kvs_map kvs1 = (kvs_map kvs)((i, key) \<mapsto> None) \<and> kvs_dicts kvs1 = (kvs_dicts kvs)[i := Some d] \<and>
     ht_size_exp (ht0 d) = 2 \<and> \<not> dictIsRehashing d \<and> pauserehash d = 0 \<and> allocated_dicts kvs1 = allocated_dicts kvs + 1 \<and>
     kvs_free_empty kvs1 = kvs_free_empty kvs \<and>
     bucket_count kvs1 = bucket_count kvs + 4 \<and> overhead_hashtable_lut kvs1 = overhead_hashtable_lut kvs + 4"
proof -
  have "kvs_map kvs (i, key) = None" using none i by (simp add: kvs_map_def)
  then obtain kvs1 pos where a: "kvstoreDictAddRaw cr kvs i key = Some (kvs1, Inr pos)" "kvs_ok kvs1" "kvs_params kvs kvs1"
    "kvs_map kvs1 = (kvs_map kvs)((i, key) \<mapsto> None)" using kvsAddRaw_spec [OF k i, of cr key] by (auto simp: dom_def)
  obtain d :: "('k, 'v) dict" and p where d: "dictAddRaw cr (dictCreate (kvs_dtype kvs)) key = Some (d, Inr p)"
    "dict_events d = [RehashingStarted 0 4, RehashingCompleted 0 4]" "ht_size_exp (ht0 d) = 2" "\<not> dictIsRehashing d" "pauserehash d = 0"
    using first_insert_events [OF t] by blast
  define kvsc where "kvsc = kvs\<lparr>kvs_dicts := (kvs_dicts kvs)[i := Some (dictCreate (kvs_dtype kvs))],
    kvs_nodes := (kvs_nodes kvs)[i := False], allocated_dicts := allocated_dicts kvs + 1\<rparr>"
  have "createDictIfNeeded kvs i = Some (kvsc, dictCreate (kvs_dtype kvs))"
    using k i none by (simp add: createDictIfNeeded_def kvsc_def kvs_ok_def kvs_shapeD Let_def)
  then have "cumulativeKeyCountAdd (kvs_put kvsc i d) i 1 = Some kvs1"
    using a(1) d(1) by (auto simp: kvstoreDictAddRaw_def Let_def bind_eq_Some_conv)
  note same = count_add_same [OF this]
  have "bucket_count (kvs_put kvsc i d) = bucket_count kvs + 4"
    "overhead_hashtable_lut (kvs_put kvsc i d) = overhead_hashtable_lut kvs + 4"
    by (simp_all add: kvs_put_def d(2) kvstoreDictRehashingStarted_def kvstoreDictRehashingCompleted_def u64_add_def kvsc_def Let_def nat_add_distrib)
  moreover have "kvs_dicts kvs1 = (kvs_dicts kvs)[i := Some (d\<lparr>dict_events := []\<rparr>)]" using same by (simp add: kvsc_def)
  moreover have "allocated_dicts kvs1 = allocated_dicts kvs + 1" "kvs_free_empty kvs1 = kvs_free_empty kvs" using same by (simp_all add: kvsc_def)
  ultimately show ?thesis using a d(3-5) same by (intro exI [of _ kvs1] exI [of _ pos] exI [of _ "d\<lparr>dict_events := []\<rparr>"]) simp
qed

lemma delete_frees_dict:
  assumes k: "kvs_ok kvs" and i: "i < num_dicts kvs" and free: "kvs_free_empty kvs" and di: "kvs_dicts kvs ! i = Some d"
    and del: "dictDelete cr d key = Some (d', True)" and ev: "dict_events d' = []" and z: "dictSize d' = 0"
    and pause: "pauserehash d' \<le> 0" and nr: "\<not> dictIsRehashing d'"
  shows "\<exists>kvs'. kvstoreDictDelete cr kvs i key = Some (kvs', True) \<and> kvs_dicts kvs' = (kvs_dicts kvs)[i := None] \<and>
     allocated_dicts kvs' = allocated_dicts kvs - 1 \<and> bucket_count kvs' = bucket_count kvs \<and>
     overhead_hashtable_lut kvs' = overhead_hashtable_lut kvs"
proof -
  note g = kvs_dictD [OF k i di]
  obtain d2 where d2: "dictDelete cr d key = Some (d2, key \<in> dom (dict_map d))" "dict_ok d2" "dict_ready d2" "same_params d d2"
    "dict_map d2 = (dict_map d)(key := None)"
    using dictDelete_spec [OF g(2,3)] by blast
  then have d': "dict_ok d'" "dict_ready d'" "dict_type d' = kvs_dtype kvs" and kd: "key \<in> dom (dict_map d)"
    and m: "dict_map d' = (dict_map d)(key := None)"
    using del g(4) by (auto simp: same_params_def)
  let ?kvs = "kvs_put kvs i d'"
  obtain kvs1 where kvs1: "cumulativeKeyCountAdd ?kvs i (-1) = Some kvs1" "kvs_dicts kvs1 = kvs_dicts ?kvs"
    using kvs_put_count [OF k i di d' dictSize_map_del [OF g(2) d'(1) m kd]] by blast
  have same: "bucket_count kvs1 = bucket_count kvs" "overhead_hashtable_lut kvs1 = overhead_hashtable_lut kvs" "kvs_free_empty kvs1"
    "allocated_dicts kvs1 = allocated_dicts kvs"
    using count_add_same [OF kvs1(1)] free ev by (simp_all add: kvs_put_def)
  have l: "i < length (kvs_dicts kvs1)" using kvs1(2) k i by (simp add: kvs_ok_def kvs_shape_def)
  have at: "kvs_dicts kvs1 ! i = Some (d'\<lparr>dict_events := []\<rparr>)" using kvs1(2) kvs_put_dict [OF k i] by simp
  obtain d3 where d3: "dictRelease (d'\<lparr>dict_events := []\<rparr>) = Some d3" "dict_events d3 = []"
    using dictRelease_returns [of "d'\<lparr>dict_events := []\<rparr>"] d'(1) nr
    by (auto simp: dictRelease_def dictClear_def notifyCompleted_def Let_def set_ht_def bind_eq_Some_conv split: if_splits)
  define kvs2 where "kvs2 = (kvs_put kvs1 i d3)\<lparr>kvs_dicts := (kvs_dicts (kvs_put kvs1 i d3))[i := None],
    allocated_dicts := allocated_dicts (kvs_put kvs1 i d3) - 1\<rparr>"
  have "freeDictIfNeeded kvs1 (int i) = Some kvs2"
    using at l same(3) z pause d3(1) by (simp add: freeDictIfNeeded_def kvstoreGetDict_def kvs2_def Let_def)
  then have "kvstoreDictDelete cr kvs i key = Some (kvs2, True)"
    using g(1) del kvs1(1) by (simp add: kvstoreDictDelete_def Let_def)
  moreover have "kvs_dicts kvs2 = (kvs_dicts kvs)[i := None]" "allocated_dicts kvs2 = allocated_dicts kvs - 1"
    using same kvs1(2) by (simp_all add: kvs2_def)
  moreover have "bucket_count kvs2 = bucket_count kvs" "overhead_hashtable_lut kvs2 = overhead_hashtable_lut kvs"
    using same d3(2) by (simp_all add: kvs2_def kvs_put_def)
  ultimately show ?thesis by blast
qed

text \<open>C38: Freeing an empty dict does not give its buckets back. In a store that frees its empty dicts, adding a key to a dict that
  is not allocated and deleting the key again restores the dicts and the contents of the store, but the number of buckets, and
  with it the reported memory overhead, has grown by the four buckets of the freed table.\<close>

theorem freed_dict_keeps_buckets:
  assumes k: "kvs_ok kvs" and i: "i < num_dicts kvs" and free: "kvs_free_empty kvs" and none: "kvs_dicts kvs ! i = None"
    and t: "has_rehashingStarted (kvs_dtype kvs)" "has_rehashingCompleted (kvs_dtype kvs)"
  shows "\<exists>kvs1 pos kvs2. kvstoreDictAddRaw cr kvs i key = Some (kvs1, Inr pos) \<and>
     kvstoreDictDelete cr' kvs1 i key = Some (kvs2, True) \<and> kvs_ok kvs2 \<and> kvs_dicts kvs2 = kvs_dicts kvs \<and>
     kvs_map kvs2 = kvs_map kvs \<and> allocated_dicts kvs2 = allocated_dicts kvs \<and>
     bucket_count kvs2 = bucket_count kvs + 4 \<and> overhead_hashtable_lut kvs2 = overhead_hashtable_lut kvs + 4"
proof -
  obtain kvs1 pos d where a: "kvstoreDictAddRaw cr kvs i key = Some (kvs1, Inr pos)" "kvs_ok kvs1" "kvs_params kvs kvs1"
    "kvs_map kvs1 = (kvs_map kvs)((i, key) \<mapsto> None)" "kvs_dicts kvs1 = (kvs_dicts kvs)[i := Some d]"
    "ht_size_exp (ht0 d) = 2" "\<not> dictIsRehashing d" "pauserehash d = 0" "allocated_dicts kvs1 = allocated_dicts kvs + 1"
    "kvs_free_empty kvs1 = kvs_free_empty kvs"
    "bucket_count kvs1 = bucket_count kvs + 4" "overhead_hashtable_lut kvs1 = overhead_hashtable_lut kvs + 4"
    using kvs_first_add [OF k i none t] by blast
  have i1: "i < num_dicts kvs1" using kvs_params_num [OF a(3)] i by simp
  have di: "kvs_dicts kvs1 ! i = Some d" using a(5) k i by (simp add: kvs_ok_def kvs_shape_def)
  note g = kvs_dictD [OF a(2) i1 di]
  have no: "kvs_map kvs (i, j) = None" for j using none i by (simp add: kvs_map_def)
  have m: "dict_map d = [key \<mapsto> None]" by (simp add: fun_eq_iff g(5) [symmetric] a(4) no)
  obtain d' where d': "dictDelete cr' d key = Some (d', key \<in> dom (dict_map d))" "dict_ok d'"
    "dict_map d' = (dict_map d)(key := None)" using dictDelete_spec [OF g(2,3)] by blast
  have z: "dictSize d' = 0" using dictSize_card [OF d'(2)] d'(3) m by simp
  have "dict_events d = []" using kvs_shapeD(1) [of kvs1 i] a(2) i1 di by (simp add: kvs_ok_def)
  then have q: "dict_events d' = []" "\<not> dictIsRehashing d'" "pauserehash d' \<le> 0"
    using small_delete_quiet [OF d'(1) a(7)] a(6,8) by (simp_all add: DICTHT_SIZE_def)
  have del: "dictDelete cr' d key = Some (d', True)" using d'(1) m by simp
  obtain kvs2 where e: "kvstoreDictDelete cr' kvs1 i key = Some (kvs2, True)" "kvs_dicts kvs2 = (kvs_dicts kvs1)[i := None]"
    "allocated_dicts kvs2 = allocated_dicts kvs1 - 1" "bucket_count kvs2 = bucket_count kvs1"
    "overhead_hashtable_lut kvs2 = overhead_hashtable_lut kvs1"
    using delete_frees_dict [OF a(2) i1 _ di del q(1) z q(3,2)] a(10) free by blast
  have "kvs_ok kvs2" "kvs_map kvs2 = kvs_map kvs"
    using kvsDelete_spec [OF a(2) i1, of cr' key] e(1) a(4) no [of key] by (auto simp: fun_upd_idem)
  moreover have "kvs_dicts kvs2 = kvs_dicts kvs" using e(2) a(5) none list_update_id [of "kvs_dicts kvs" i] by simp
  ultimately show ?thesis using a e by (intro exI [of _ kvs1] exI [of _ pos] exI [of _ kvs2]) simp
qed

definition demo_store :: "(nat, nat) kvstore" where
  "demo_store = \<lparr>kvs_on_demand = True, kvs_free_empty = True, kvs_dtype = demo_type,
     kvs_dicts = [None], kvs_nodes = [False], num_dicts_bits = 0,
     kvs_rehashing = [], resize_cursor = 0, allocated_dicts = 0, non_empty_dicts = 0, key_count = 0,
     bucket_count = 0, dict_size_index = [], overhead_hashtable_lut = 0, overhead_hashtable_rehashing = 0\<rparr>"

theorem freed_dict_keeps_buckets_witness:
  "kvstoreCreate demo_type 0 True True = Some demo_store \<and>
   (\<exists>kvs1 pos kvs2. kvstoreDictAddRaw DICT_RESIZE_ENABLE demo_store 0 6 = Some (kvs1, Inr pos) \<and>
     kvstoreDictDelete DICT_RESIZE_ENABLE kvs1 0 6 = Some (kvs2, True) \<and> kvs_map kvs2 = Map.empty \<and> bucket_count kvs2 = 4)"
proof -
  have k: "kvs_ok demo_store"
    by (simp add: demo_store_def kvs_ok_def kvs_shape_def kvs_counts_def kvs_sizes_def num_dicts_def)
  have m: "kvs_map demo_store = Map.empty" by (rule ext) (simp add: demo_store_def kvs_map_def num_dicts_def split: prod.split)
  have "kvstoreCreate demo_type 0 True True = Some demo_store"
    by (simp add: kvstoreCreate_def demo_store_def demo_type_def Let_def)
  moreover have "num_dicts demo_store = 1" "kvs_free_empty demo_store" "kvs_dicts demo_store ! 0 = None" "bucket_count demo_store = 0"
    "has_rehashingStarted (kvs_dtype demo_store)" "has_rehashingCompleted (kvs_dtype demo_store)"
    by (simp_all add: demo_store_def num_dicts_def demo_type_def)
  ultimately show ?thesis
    using freed_dict_keeps_buckets [OF k, of 0 DICT_RESIZE_ENABLE 6 DICT_RESIZE_ENABLE] m by fastforce
qed

subsection \<open>Emptying the store and releasing an unused iterator\<close>

lemma dictEmpty_shape:
  assumes "dict_ok d"
  shows "\<exists>d'. dictEmpty d = Some d' \<and> dict_ok d' \<and> dict_ready d' \<and> dict_type d' = dict_type d \<and> dict_map d' = Map.empty \<and> dictSize d' = 0"
proof -
  obtain ev where "dictEmpty d = Some ((dictCreate (dict_type d))\<lparr>dict_events := ev\<rparr>)"
    using dictEmpty_events [OF assms] by blast
  then show ?thesis by simp
qed

lemma empty_all_spec:
  assumes "kvs_shape kvs" and "i + m \<le> num_dicts kvs"
  shows "\<exists>kvs'. empty_all kvs i m = Some kvs' \<and> kvs_shape kvs' \<and> kvs_params kvs kvs' \<and>
     length (dict_size_index kvs') = length (dict_size_index kvs) \<and>
     kvs_map kvs' = (\<lambda>(j, k). if i \<le> j \<and> j < i + m then None else kvs_map kvs (j, k)) \<and>
     kvs_sizes kvs' = (\<lambda>j. if i \<le> j \<and> j < i + m then 0 else kvs_sizes kvs j)"
  using assms
proof (induction m arbitrary: kvs i)
  case (Suc m)
  have i: "i < num_dicts kvs" using Suc.prems(2) by simp
  obtain q where q: "empty_all kvs i (Suc m) = empty_all q (i + 1) m" "kvs_shape q" "kvs_params kvs q"
    "length (dict_size_index q) = length (dict_size_index kvs)"
    "kvs_map q = (\<lambda>(j, k). if j = i then None else kvs_map kvs (j, k))" "kvs_sizes q = (kvs_sizes kvs)(i := 0)"
  proof (cases "kvs_dicts kvs ! i")
    case None
    then show ?thesis
      using that [of kvs] Suc.prems(1) i kvs_shapeD(2) [OF Suc.prems(1) i] by (auto simp: fun_eq_iff kvs_map_def kvs_sizes_def)
  next
    case (Some d)
    then have d: "dict_ok d" "dict_type d = kvs_dtype kvs" using kvs_shapeD(1) [OF Suc.prems(1) i] by auto
    obtain d' where d': "dictEmpty d = Some d'" "dict_ok d'" "dict_ready d'" "dict_type d' = dict_type d"
      "dict_map d' = Map.empty" "dictSize d' = 0"
      using dictEmpty_shape [OF d(1)] by blast
    let ?k = "kvs\<lparr>kvs_nodes := (kvs_nodes kvs)[i := False]\<rparr>"
    have k: "kvs_shape ?k" "num_dicts ?k = num_dicts kvs" "kvs_map ?k = kvs_map kvs" "kvs_sizes ?k = kvs_sizes kvs" "kvs_params kvs ?k"
      using Suc.prems(1) by (auto simp: kvs_shape_def num_dicts_def kvs_map_def kvs_sizes_def kvs_params_def fun_eq_iff)
    have "kvs_shape (kvs_put ?k i d')" using kvs_shape_put [OF k(1) d'(2,3)] d'(4) d(2) by simp
    then obtain q where q: "freeDictIfNeeded (kvs_put ?k i d') (int i) = Some q" "kvs_shape q" "kvs_params (kvs_put ?k i d') q"
      "kvs_map q = kvs_map (kvs_put ?k i d')" "kvs_sizes q = kvs_sizes (kvs_put ?k i d')"
      "dict_size_index q = dict_size_index (kvs_put ?k i d')"
      using freeDict_shape [of "kvs_put ?k i d'" i] i k(2) by auto
    have "empty_all kvs i (Suc m) = empty_all q (i + 1) m"
      using Some kvs_shapeD(2) [OF Suc.prems(1) i] d'(1) q(1) by (simp add: Let_def)
    moreover have "kvs_params kvs q" using q(3) kvs_params_trans [OF k(5)] kvs_params_trans [OF kvs_params_put] by blast
    moreover have "kvs_map q = (\<lambda>(j, k). if j = i then None else kvs_map kvs (j, k))"
      using q(4) kvs_map_put [OF k(1), of i d'] i k(2,3) d'(5) by (auto simp: fun_eq_iff)
    moreover have "kvs_sizes q = (kvs_sizes kvs)(i := 0)"
      using q(5) kvs_sizes_put [OF k(1), of i d'] i k(2,4) d'(6) by simp
    ultimately show ?thesis using that q(2,6) by simp
  qed
  have "i + 1 + m \<le> num_dicts q" using Suc.prems(2) kvs_params_num [OF q(3)] by simp
  then show ?case
    using Suc.IH [OF q(2), of "i + 1"] q(1,4) kvs_params_trans [OF q(3)] by (auto simp: q(5,6) fun_eq_iff)
qed (auto simp: fun_eq_iff)

text \<open>Emptying a store returns, whatever the counters were, to a store with no keys that satisfies the
  invariant again, with the same parameters.\<close>

theorem kvstoreEmpty_resets:
  assumes "kvs_ok kvs"
  shows "\<exists>kvs'. kvstoreEmpty kvs = Some kvs' \<and> kvs_ok kvs' \<and> kvs_map kvs' = Map.empty \<and> kvstoreSize kvs' = Some 0 \<and>
     num_dicts kvs' = num_dicts kvs \<and> kvs_rehashing kvs' = [] \<and> bucket_count kvs' = 0"
proof -
  let ?n = "num_dicts kvs"
  obtain q where q: "empty_all kvs 0 ?n = Some q" "kvs_shape q" "kvs_params kvs q"
    "length (dict_size_index q) = length (dict_size_index kvs)"
    "kvs_map q = (\<lambda>(j, k). if 0 \<le> j \<and> j < 0 + ?n then None else kvs_map kvs (j, k))"
    "kvs_sizes q = (\<lambda>j. if 0 \<le> j \<and> j < 0 + ?n then 0 else kvs_sizes kvs j)"
    using empty_all_spec [of kvs 0 ?n] assms by (auto simp: kvs_ok_def)
  define kvs' where "kvs' = q\<lparr>kvs_rehashing := [], key_count := 0, non_empty_dicts := 0, resize_cursor := 0, bucket_count := 0,
       dict_size_index := replicate (length (dict_size_index q)) 0,
       overhead_hashtable_lut := 0, overhead_hashtable_rehashing := 0\<rparr>"
  have n: "num_dicts kvs' = ?n" using kvs_params_num [OF q(3)] by (simp add: kvs'_def num_dicts_def)
  have m: "kvs_map kvs' = Map.empty" and z: "kvs_sizes kvs' = (\<lambda>_. 0)"
  proof -
    have "kvs_map kvs' = kvs_map q" "kvs_sizes kvs' = kvs_sizes q"
      by (auto simp: kvs'_def kvs_map_def kvs_sizes_def num_dicts_def fun_eq_iff)
    then show "kvs_map kvs' = Map.empty" "kvs_sizes kvs' = (\<lambda>_. 0)"
      unfolding q(5,6) by (auto simp: fun_eq_iff kvs_map_def kvs_sizes_def)
  qed
  have "kvs_shape kvs'" using q(2) by (simp add: kvs'_def kvs_shape_def num_dicts_def)
  moreover have "from_one (\<lambda>_. 0) = (\<lambda>_. 0)" by (auto simp: from_one_def split: nat.split)
  then have "kvs_counts kvs' (\<lambda>_. 0)"
    using assms q(4) unfolding kvs_counts_def n by (auto simp: kvs'_def kvs_ok_def kvs_counts_def fenwick_def node_sum_def)
  ultimately have ok: "kvs_ok kvs'" by (simp add: kvs_ok_def z)
  moreover have "kvstoreEmpty kvs = Some kvs'" using q(1) by (simp add: kvstoreEmpty_def kvs'_def)
  ultimately show ?thesis using m n kvstoreSize_spec [OF ok] by (simp add: kvs'_def)
qed

theorem kvstoreEmpty_resets_witness: "\<exists>kvs'. kvstoreEmpty demo_kvs = Some kvs' \<and> kvstoreSize kvs' = Some 0"
  using kvstoreEmpty_resets [OF demo_kvs_ok] by blast

text \<open>C39: Releasing an iterator that was never advanced, on a store that frees its empty dicts, reads the array of the
  dicts at index -1.\<close>

theorem unused_iterator_release_out_of_range:
  assumes "kvstoreIteratorInit kvs = Some it" and "kvs_free_empty kvs"
  shows "kvstoreIteratorRelease kvs it = None"
  using assms
  by (auto simp: kvstoreIteratorInit_def kvstoreIteratorRelease_def freeDictIfNeeded_def kvstoreGetDict_def it_fresh_def
      dictInitSafeIterator_def dictInitIterator_def bind_eq_Some_conv)

theorem unused_iterator_release_out_of_range_witness:
  "\<exists>it. kvstoreIteratorInit demo_kvs = Some it \<and> kvstoreIteratorRelease demo_kvs it = None"
proof -
  have "card (dom (kvs_map demo_kvs)) = 5"
    by (simp add: kvs_map_card [OF demo_kvs_ok] demo_kvs_sizes lessThan_nat_numeral)
  then obtain it where "kvstoreIteratorInit demo_kvs = Some it"
    using find_rank [OF demo_kvs_ok, of 1] by (auto simp: kvstoreIteratorInit_def kvstoreGetFirstNonEmptyDictIndex_def)
  then show ?thesis using unused_iterator_release_out_of_range [of demo_kvs it] by (simp add: demo_kvs_def)
qed

end
