(* ===== verification/Listpack.thy ===== *)
theory Listpack
  imports Util_Numbers
begin

text \<open>
  The listpack of \<^verbatim>\<open>listpack.c\<close>: a sequence of strings and integers in one allocation. A listpack is the buffer it is
  stored in, a pointer into it is an offset, and NULL is \<open>None\<close>. The memory that the allocator gives may be longer
  than requested; the length of the buffer is what \<^verbatim>\<open>lp_malloc_size\<close> reports.
\<close>

unbundle bit_operations_syntax

subsection \<open>Constants and header\<close>

abbreviation LP_HDR_SIZE :: nat where "LP_HDR_SIZE \<equiv> 6"
abbreviation LP_HDR_NUMELE_UNKNOWN :: nat where "LP_HDR_NUMELE_UNKNOWN \<equiv> 65535"
abbreviation LP_INTBUF_SIZE :: nat where "LP_INTBUF_SIZE \<equiv> 21"
abbreviation LP_EOF :: byte where "LP_EOF \<equiv> 255"
abbreviation UINT32_MAX :: nat where "UINT32_MAX \<equiv> 4294967295"
abbreviation UINT64_MAX :: nat where "UINT64_MAX \<equiv> 18446744073709551615"
abbreviation LISTPACK_MAX_SAFETY_SIZE :: nat where "LISTPACK_MAX_SAFETY_SIZE \<equiv> 1073741824"

definition LP_ENCODING_IS_7BIT_UINT :: "byte \<Rightarrow> bool" where "LP_ENCODING_IS_7BIT_UINT b \<longleftrightarrow> b AND 0x80 = 0"
definition LP_ENCODING_IS_6BIT_STR :: "byte \<Rightarrow> bool" where "LP_ENCODING_IS_6BIT_STR b \<longleftrightarrow> b AND 0xC0 = 0x80"
definition LP_ENCODING_IS_13BIT_INT :: "byte \<Rightarrow> bool" where "LP_ENCODING_IS_13BIT_INT b \<longleftrightarrow> b AND 0xE0 = 0xC0"
definition LP_ENCODING_IS_12BIT_STR :: "byte \<Rightarrow> bool" where "LP_ENCODING_IS_12BIT_STR b \<longleftrightarrow> b AND 0xF0 = 0xE0"
definition LP_ENCODING_IS_16BIT_INT :: "byte \<Rightarrow> bool" where "LP_ENCODING_IS_16BIT_INT b \<longleftrightarrow> b AND 0xFF = 0xF1"
definition LP_ENCODING_IS_24BIT_INT :: "byte \<Rightarrow> bool" where "LP_ENCODING_IS_24BIT_INT b \<longleftrightarrow> b AND 0xFF = 0xF2"
definition LP_ENCODING_IS_32BIT_INT :: "byte \<Rightarrow> bool" where "LP_ENCODING_IS_32BIT_INT b \<longleftrightarrow> b AND 0xFF = 0xF3"
definition LP_ENCODING_IS_64BIT_INT :: "byte \<Rightarrow> bool" where "LP_ENCODING_IS_64BIT_INT b \<longleftrightarrow> b AND 0xFF = 0xF4"
definition LP_ENCODING_IS_32BIT_STR :: "byte \<Rightarrow> bool" where "LP_ENCODING_IS_32BIT_STR b \<longleftrightarrow> b AND 0xFF = 0xF0"

lemmas lp_encoding_defs = LP_ENCODING_IS_7BIT_UINT_def LP_ENCODING_IS_6BIT_STR_def LP_ENCODING_IS_13BIT_INT_def
  LP_ENCODING_IS_12BIT_STR_def LP_ENCODING_IS_16BIT_INT_def LP_ENCODING_IS_24BIT_INT_def LP_ENCODING_IS_32BIT_INT_def
  LP_ENCODING_IS_64BIT_INT_def LP_ENCODING_IS_32BIT_STR_def

definition LP_ENCODING_6BIT_STR_LEN :: "byte \<Rightarrow> nat" where
  "LP_ENCODING_6BIT_STR_LEN b = unat (b AND 0x3F)"

definition LP_ENCODING_12BIT_STR_LEN :: "buffer \<Rightarrow> nat \<Rightarrow> nat option" where
  "LP_ENCODING_12BIT_STR_LEN lp p = do {
     b0 \<leftarrow> rd_byte lp p;
     b1 \<leftarrow> rd_byte lp (p + 1);
     Some (unat (b0 AND 0xF) * 256 + unat b1)
   }"

definition LP_ENCODING_32BIT_STR_LEN :: "buffer \<Rightarrow> nat \<Rightarrow> nat option" where
  "LP_ENCODING_32BIT_STR_LEN lp p = map_option le_nat (rd lp (p + 1) 4)"

definition lpGetTotalBytes :: "buffer \<Rightarrow> nat option" where
  "lpGetTotalBytes lp = map_option le_nat (rd lp 0 4)"

definition lpGetNumElements :: "buffer \<Rightarrow> nat option" where
  "lpGetNumElements lp = map_option le_nat (rd lp 4 2)"

definition lpSetTotalBytes :: "buffer \<Rightarrow> nat \<Rightarrow> buffer option" where
  "lpSetTotalBytes lp v = wr lp 0 (nat_le 4 v)"

definition lpSetNumElements :: "buffer \<Rightarrow> nat \<Rightarrow> buffer option" where
  "lpSetNumElements lp v = wr lp 4 (nat_le 2 v)"

definition lpBytes :: "buffer \<Rightarrow> nat option" where
  "lpBytes lp = lpGetTotalBytes lp"

definition lpSafeToAdd :: "buffer option \<Rightarrow> nat \<Rightarrow> bool option" where
  "lpSafeToAdd lp add = do {
     len \<leftarrow> (case lp of None \<Rightarrow> Some 0 | Some lp \<Rightarrow> lpGetTotalBytes lp);
     Some (\<not> u64 (int len + int add) > LISTPACK_MAX_SAFETY_SIZE)
   }"

definition lpNew :: "allocator \<Rightarrow> nat \<Rightarrow> buffer option" where
  "lpNew al capacity = do {
     let lp = fresh al (if capacity > LP_HDR_SIZE + 1 then capacity else LP_HDR_SIZE + 1);
     lp \<leftarrow> lpSetTotalBytes lp (LP_HDR_SIZE + 1);
     lp \<leftarrow> lpSetNumElements lp 0;
     wr lp LP_HDR_SIZE [LP_EOF]
   }"

definition lpShrinkToFit :: "allocator \<Rightarrow> buffer \<Rightarrow> buffer option" where
  "lpShrinkToFit al lp = do {
     sz \<leftarrow> lpGetTotalBytes lp;
     Some (if sz < length lp then realloc al sz lp else lp)
   }"

subsection \<open>Encoding\<close>

text \<open>The digit loop and the range checks of \<^verbatim>\<open>lpStringToInt64\<close> are those of \<^verbatim>\<open>string2ll\<close>, from which it was adapted.\<close>

definition lpStringToInt64 :: "buffer \<Rightarrow> nat \<Rightarrow> int option option" where
  "lpStringToInt64 s slen =
     (if slen = 0 \<or> slen \<ge> LONG_STR_SIZE then Some None
      else do {
        c0 \<leftarrow> rd_byte s 0;
        if slen = 1 \<and> c0 = 48 then Some (Some 0)
        else
          let negative = (c0 = 45); plen = (if negative then 1 else 0) in
          if negative \<and> plen = slen then Some None
          else do {
            c \<leftarrow> rd_byte s plen;
            if c \<ge> 49 \<and> c \<le> 57 then do {
              r \<leftarrow> string2ll_loop s slen (plen + 1) (unat (c - 48));
              Some (string2ll_finish slen negative r)
            }
            else Some None
          }
      })"

text \<open>The bytes stored in \<^verbatim>\<open>intenc\<close>; \<^verbatim>\<open>enclen\<close> is their number.\<close>

definition lpEncodeIntegerGetType :: "int \<Rightarrow> buffer" where
  "lpEncodeIntegerGetType v =
     (if v \<ge> 0 \<and> v \<le> 127 then [word_of_int v]
      else if v \<ge> -4096 \<and> v \<le> 4095 then
        let v = (if v < 0 then 2 ^ 13 + v else v) in
        [word_of_int (v div 256) OR 0xC0, word_of_int (v mod 256)]
      else if v \<ge> -32768 \<and> v \<le> 32767 then
        let v = (if v < 0 then 2 ^ 16 + v else v) in 0xF1 # nat_le 2 (nat v)
      else if v \<ge> -8388608 \<and> v \<le> 8388607 then
        let v = (if v < 0 then 2 ^ 24 + v else v) in 0xF2 # nat_le 3 (nat v)
      else if v \<ge> -2147483648 \<and> v \<le> 2147483647 then
        let v = (if v < 0 then 2 ^ 32 + v else v) in 0xF3 # nat_le 4 (nat v)
      else 0xF4 # nat_le 8 (u64 v))"

text \<open>The integer encoding if there is one, and the number of bytes needed.\<close>

definition lpEncodeGetType :: "buffer \<Rightarrow> nat \<Rightarrow> (buffer option \<times> nat) option" where
  "lpEncodeGetType ele sz = do {
     r \<leftarrow> lpStringToInt64 ele sz;
     Some (case r of
         Some v \<Rightarrow> (Some (lpEncodeIntegerGetType v), length (lpEncodeIntegerGetType v))
       | None \<Rightarrow> (None, if sz < 64 then 1 + sz else if sz < 4096 then 2 + sz else 5 + sz))
   }"

text \<open>The bytes that \<^verbatim>\<open>lpEncodeBacklen\<close> stores; their number is what it returns.\<close>

definition lpEncodeBacklen :: "nat \<Rightarrow> buffer" where
  "lpEncodeBacklen l =
     (if l \<le> 127 then [word_of_nat l]
      else if l < 16383 then [word_of_nat (l div 2 ^ 7), word_of_nat (l mod 128) OR 128]
      else if l < 2097151 then
        [word_of_nat (l div 2 ^ 14), word_of_nat (l div 2 ^ 7 mod 128) OR 128, word_of_nat (l mod 128) OR 128]
      else if l < 268435455 then
        [word_of_nat (l div 2 ^ 21), word_of_nat (l div 2 ^ 14 mod 128) OR 128, word_of_nat (l div 2 ^ 7 mod 128) OR 128,
         word_of_nat (l mod 128) OR 128]
      else
        [word_of_nat (l div 2 ^ 28), word_of_nat (l div 2 ^ 21 mod 128) OR 128, word_of_nat (l div 2 ^ 14 mod 128) OR 128,
         word_of_nat (l div 2 ^ 7 mod 128) OR 128, word_of_nat (l mod 128) OR 128])"

text \<open>The seven bits of each byte are joined at positions that were empty, so that the disjunction is a sum.\<close>

function backlen_loop :: "buffer \<Rightarrow> nat \<Rightarrow> nat \<Rightarrow> nat \<Rightarrow> nat option" where
  "backlen_loop lp p val shift = do {
     b \<leftarrow> rd_byte lp p;
     let val = val + unat (b AND 127) * 2 ^ shift;
     if b AND 128 = 0 then Some val
     else if shift + 7 > 28 then Some UINT64_MAX
     else if p = 0 then None
     else backlen_loop lp (p - 1) val (shift + 7)
   }"
  by pat_completeness auto
termination by (relation "measure (\<lambda>(_, _, _, shift). 28 - shift)") auto

declare backlen_loop.simps [simp del]

definition lpDecodeBacklen :: "buffer \<Rightarrow> nat \<Rightarrow> nat option" where
  "lpDecodeBacklen lp p = backlen_loop lp p 0 0"

definition lpEncodeString :: "buffer \<Rightarrow> nat \<Rightarrow> buffer \<Rightarrow> nat \<Rightarrow> buffer option" where
  "lpEncodeString buf off s len =
     (if len < 64 then do {
        buf \<leftarrow> wr buf off [word_of_nat len OR 0x80];
        wr buf (off + 1) (take len s)
      }
      else if len < 4096 then do {
        buf \<leftarrow> wr buf off [word_of_nat (len div 256) OR 0xE0, word_of_nat (len mod 256)];
        wr buf (off + 2) (take len s)
      }
      else do {
        buf \<leftarrow> wr buf off (0xF0 # nat_le 4 len);
        wr buf (off + 5) (take len s)
      })"

text \<open>The size is an unsigned 32-bit number, so that the last sum may wrap around.\<close>

definition lpCurrentEncodedSizeUnsafe :: "buffer \<Rightarrow> nat \<Rightarrow> nat option" where
  "lpCurrentEncodedSizeUnsafe lp p = do {
     b \<leftarrow> rd_byte lp p;
     if LP_ENCODING_IS_7BIT_UINT b then Some 1
     else if LP_ENCODING_IS_6BIT_STR b then Some (1 + LP_ENCODING_6BIT_STR_LEN b)
     else if LP_ENCODING_IS_13BIT_INT b then Some 2
     else if LP_ENCODING_IS_16BIT_INT b then Some 3
     else if LP_ENCODING_IS_24BIT_INT b then Some 4
     else if LP_ENCODING_IS_32BIT_INT b then Some 5
     else if LP_ENCODING_IS_64BIT_INT b then Some 9
     else if LP_ENCODING_IS_12BIT_STR b then do { n \<leftarrow> LP_ENCODING_12BIT_STR_LEN lp p; Some (2 + n) }
     else if LP_ENCODING_IS_32BIT_STR b then do { n \<leftarrow> LP_ENCODING_32BIT_STR_LEN lp p; Some (u32 (5 + int n)) }
     else if b = LP_EOF then Some 1
     else Some 0
   }"

definition lpCurrentEncodedSizeBytes :: "byte \<Rightarrow> nat" where
  "lpCurrentEncodedSizeBytes b =
     (if LP_ENCODING_IS_7BIT_UINT b then 1
      else if LP_ENCODING_IS_6BIT_STR b then 1
      else if LP_ENCODING_IS_13BIT_INT b then 1
      else if LP_ENCODING_IS_16BIT_INT b then 1
      else if LP_ENCODING_IS_24BIT_INT b then 1
      else if LP_ENCODING_IS_32BIT_INT b then 1
      else if LP_ENCODING_IS_64BIT_INT b then 1
      else if LP_ENCODING_IS_12BIT_STR b then 2
      else if LP_ENCODING_IS_32BIT_STR b then 5
      else if b = LP_EOF then 1
      else 0)"

subsection \<open>Validation and traversal\<close>

definition OUT_OF_RANGE :: "nat \<Rightarrow> nat \<Rightarrow> bool" where
  "OUT_OF_RANGE lpbytes p \<longleftrightarrow> p < LP_HDR_SIZE \<or> int p > int lpbytes - 1"

text \<open>Whether the entry is valid, and the pointer advanced.\<close>

definition lpValidateNext :: "buffer \<Rightarrow> nat option \<Rightarrow> nat \<Rightarrow> (bool \<times> nat option) option" where
  "lpValidateNext lp pp lpbytes =
     (case pp of
        None \<Rightarrow> Some (False, pp)
      | Some p \<Rightarrow>
          if OUT_OF_RANGE lpbytes p then Some (False, pp)
          else do {
            b \<leftarrow> rd_byte lp p;
            if b = LP_EOF then Some (True, None)
            else
              let lenbytes = lpCurrentEncodedSizeBytes b in
              if lenbytes = 0 then Some (False, pp)
              else if OUT_OF_RANGE lpbytes (p + lenbytes) then Some (False, pp)
              else do {
                size \<leftarrow> lpCurrentEncodedSizeUnsafe lp p;
                let encodedBacklen = length (lpEncodeBacklen size);
                let entrylen = size + encodedBacklen;
                if OUT_OF_RANGE lpbytes (p + entrylen) then Some (False, pp)
                else do {
                  prevlen \<leftarrow> lpDecodeBacklen lp (p + entrylen - 1);
                  if u64 (int prevlen + int encodedBacklen) \<noteq> entrylen then Some (False, pp)
                  else Some (True, Some (p + entrylen))
                }
              }
          })"

definition lpAssertValidEntry :: "buffer \<Rightarrow> nat \<Rightarrow> nat \<Rightarrow> unit option" where
  "lpAssertValidEntry lp lpbytes p = do { (ok, _) \<leftarrow> lpValidateNext lp (Some p) lpbytes; c_assert ok }"

definition lpSkip :: "buffer \<Rightarrow> nat \<Rightarrow> nat option" where
  "lpSkip lp p = do {
     entrylen \<leftarrow> lpCurrentEncodedSizeUnsafe lp p;
     Some (p + (entrylen + length (lpEncodeBacklen entrylen)))
   }"

definition lpNext :: "buffer \<Rightarrow> nat \<Rightarrow> nat option option" where
  "lpNext lp p = do {
     p \<leftarrow> lpSkip lp p;
     b \<leftarrow> rd_byte lp p;
     if b = LP_EOF then Some None
     else do {
       bytes \<leftarrow> lpBytes lp;
       lpAssertValidEntry lp bytes p;
       Some (Some p)
     }
   }"

text \<open>A pointer before the start of the buffer fails the assertion.\<close>

definition lpPrev :: "buffer \<Rightarrow> nat \<Rightarrow> nat option option" where
  "lpPrev lp p =
     (if p = LP_HDR_SIZE then Some None
      else do {
        c_assert (p \<noteq> 0);
        prevlen \<leftarrow> lpDecodeBacklen lp (p - 1);
        let prevlen = u64 (int prevlen + int (length (lpEncodeBacklen prevlen)));
        let q = int (p - 1) - (int prevlen - 1);
        c_assert (q \<ge> 0);
        bytes \<leftarrow> lpBytes lp;
        lpAssertValidEntry lp bytes (nat q);
        Some (Some (nat q))
      })"

definition lpFirst :: "buffer \<Rightarrow> nat option option" where
  "lpFirst lp = do {
     b \<leftarrow> rd_byte lp LP_HDR_SIZE;
     if b = LP_EOF then Some None
     else do {
       bytes \<leftarrow> lpBytes lp;
       lpAssertValidEntry lp bytes LP_HDR_SIZE;
       Some (Some LP_HDR_SIZE)
     }
   }"

definition lpLast :: "buffer \<Rightarrow> nat option option" where
  "lpLast lp = do {
     bytes \<leftarrow> lpGetTotalBytes lp;
     c_assert (bytes \<noteq> 0);
     lpPrev lp (bytes - 1)
   }"

text \<open>The loop of \<^verbatim>\<open>lpLength\<close> counts in 32 bits.\<close>

partial_function (option) count_loop :: "buffer \<Rightarrow> nat option \<Rightarrow> nat \<Rightarrow> nat option" where
  "count_loop lp pp n =
     (case pp of
        None \<Rightarrow> Some n
      | Some p \<Rightarrow> do { pp \<leftarrow> lpNext lp p; count_loop lp pp (u32 (int n + 1)) })"

definition lpLength :: "buffer \<Rightarrow> (buffer \<times> nat) option" where
  "lpLength lp = do {
     numele \<leftarrow> lpGetNumElements lp;
     if numele \<noteq> LP_HDR_NUMELE_UNKNOWN then Some (lp, numele)
     else do {
       pp \<leftarrow> lpFirst lp;
       n \<leftarrow> count_loop lp pp 0;
       lp \<leftarrow> (if n < LP_HDR_NUMELE_UNKNOWN then lpSetNumElements lp n else Some lp);
       Some (lp, n)
     }
   }"

fun seek_forward :: "buffer \<Rightarrow> nat \<Rightarrow> nat option \<Rightarrow> nat option option" where
  "seek_forward lp index None = Some None"
| "seek_forward lp 0 (Some p) = Some (Some p)"
| "seek_forward lp (Suc index) (Some p) = do { pp \<leftarrow> lpNext lp p; seek_forward lp index pp }"

fun seek_backward :: "buffer \<Rightarrow> nat \<Rightarrow> nat option \<Rightarrow> nat option option" where
  "seek_backward lp index None = Some None"
| "seek_backward lp 0 (Some p) = Some (Some p)"
| "seek_backward lp (Suc index) (Some p) = do { pp \<leftarrow> lpPrev lp p; seek_backward lp index pp }"

text \<open>The remaining steps of the loops are \<open>index\<close> forwards and \<open>-1 - index\<close> backwards.\<close>

definition lpSeek :: "buffer \<Rightarrow> int \<Rightarrow> nat option option" where
  "lpSeek lp index = do {
     numele \<leftarrow> lpGetNumElements lp;
     let forwards = do { pp \<leftarrow> lpFirst lp; seek_forward lp (nat index) pp };
     let backwards = (\<lambda>index. do { pp \<leftarrow> lpLast lp; seek_backward lp (nat (-1 - index)) pp });
     if numele \<noteq> LP_HDR_NUMELE_UNKNOWN then
       let index = (if index < 0 then int numele + index else index) in
       if index < 0 then Some None
       else if index \<ge> int numele then Some None
       else if index > int (numele div 2) then backwards (index - int numele)
       else do { pp \<leftarrow> lpFirst lp; seek_forward lp (nat index) pp }
     else if index < 0 then backwards index
     else forwards
   }"

text \<open>The validation of a whole listpack. \<open>entry_cb\<close> is the optional check of the caller for the entry at an offset.\<close>

partial_function (option) validate_loop :: "buffer \<Rightarrow> nat \<Rightarrow> (nat \<Rightarrow> nat \<Rightarrow> bool) option \<Rightarrow> nat \<Rightarrow> nat option \<Rightarrow> nat \<Rightarrow>
    (nat option \<times> nat) option option" where
  "validate_loop lp bytes entry_cb numele pp n =
     (case pp of
        None \<Rightarrow> Some (Some (pp, n))
      | Some p \<Rightarrow> do {
          b \<leftarrow> rd_byte lp p;
          if b = LP_EOF then Some (Some (pp, n))
          else do {
            (ok, pp) \<leftarrow> lpValidateNext lp pp bytes;
            if \<not> ok then Some None
            else if (case entry_cb of None \<Rightarrow> False | Some cb \<Rightarrow> \<not> cb p numele) then Some None
            else validate_loop lp bytes entry_cb numele pp (u32 (int n + 1))
          }
        })"

definition lpValidateIntegrity :: "buffer \<Rightarrow> nat \<Rightarrow> bool \<Rightarrow> (nat \<Rightarrow> nat \<Rightarrow> bool) option \<Rightarrow> bool option" where
  "lpValidateIntegrity lp sz deep entry_cb =
     (if sz < LP_HDR_SIZE + 1 then Some False
      else do {
        bytes \<leftarrow> lpGetTotalBytes lp;
        if bytes \<noteq> sz then Some False
        else do {
          b \<leftarrow> rd_byte lp (sz - 1);
          if b \<noteq> LP_EOF then Some False
          else if \<not> deep then Some True
          else do {
            numele \<leftarrow> lpGetNumElements lp;
            r \<leftarrow> validate_loop lp bytes entry_cb numele (Some LP_HDR_SIZE) 0;
            Some (case r of
                None \<Rightarrow> False
              | Some (pp, n) \<Rightarrow> pp = Some (sz - 1) \<and> \<not> (numele \<noteq> LP_HDR_NUMELE_UNKNOWN \<and> numele \<noteq> n))
          }
        }
      })"

subsection \<open>Reading an entry\<close>

datatype lp_value = LpString nat nat | LpInt int

text \<open>Two's complement, as the code computes it from the unsigned value.\<close>

definition lp_signed :: "nat \<Rightarrow> nat \<Rightarrow> nat \<Rightarrow> int" where
  "lp_signed uval negstart negmax = (if uval \<ge> negstart then - int (negmax - uval) - 1 else int uval)"

text \<open>A string is returned as its offset and length. The size of the entry is not set for an unknown encoding.\<close>

definition lpGetWithSize :: "buffer \<Rightarrow> nat \<Rightarrow> (lp_value \<times> nat option) option" where
  "lpGetWithSize lp p = do {
     b \<leftarrow> rd_byte lp p;
     if LP_ENCODING_IS_7BIT_UINT b then Some (LpInt (lp_signed (unat (b AND 0x7F)) UINT64_MAX 0), Some 2)
     else if LP_ENCODING_IS_6BIT_STR b then
       let n = LP_ENCODING_6BIT_STR_LEN b in
       Some (LpString (p + 1) n, Some (1 + n + length (lpEncodeBacklen (n + 1))))
     else if LP_ENCODING_IS_13BIT_INT b then do {
       b1 \<leftarrow> rd_byte lp (p + 1);
       Some (LpInt (lp_signed (unat (b AND 0x1F) * 256 + unat b1) (2 ^ 12) 8191), Some 3)
     }
     else if LP_ENCODING_IS_16BIT_INT b then do {
       xs \<leftarrow> rd lp (p + 1) 2;
       Some (LpInt (lp_signed (le_nat xs) (2 ^ 15) 65535), Some 4)
     }
     else if LP_ENCODING_IS_24BIT_INT b then do {
       xs \<leftarrow> rd lp (p + 1) 3;
       Some (LpInt (lp_signed (le_nat xs) (2 ^ 23) 16777215), Some 5)
     }
     else if LP_ENCODING_IS_32BIT_INT b then do {
       xs \<leftarrow> rd lp (p + 1) 4;
       Some (LpInt (lp_signed (le_nat xs) (2 ^ 31) UINT32_MAX), Some 6)
     }
     else if LP_ENCODING_IS_64BIT_INT b then do {
       xs \<leftarrow> rd lp (p + 1) 8;
       Some (LpInt (lp_signed (le_nat xs) (2 ^ 63) UINT64_MAX), Some 10)
     }
     else if LP_ENCODING_IS_12BIT_STR b then do {
       n \<leftarrow> LP_ENCODING_12BIT_STR_LEN lp p;
       Some (LpString (p + 2) n, Some (2 + n + length (lpEncodeBacklen (n + 2))))
     }
     else if LP_ENCODING_IS_32BIT_STR b then do {
       n \<leftarrow> LP_ENCODING_32BIT_STR_LEN lp p;
       Some (LpString (p + 5) n, Some (5 + n + length (lpEncodeBacklen (n + 5))))
     }
     else Some (LpInt (12345678900000000 + int (unat b)), None)
   }"

definition lpGet :: "buffer \<Rightarrow> nat \<Rightarrow> lp_value option" where
  "lpGet lp p = map_option fst (lpGetWithSize lp p)"

text \<open>With a buffer for integers, the element is always returned as a string.\<close>

definition lpGet_intbuf :: "buffer \<Rightarrow> nat \<Rightarrow> buffer \<Rightarrow> buffer option" where
  "lpGet_intbuf lp p intbuf = do {
     v \<leftarrow> lpGet lp p;
     case v of
       LpString off n \<Rightarrow> rd lp off n
     | LpInt val \<Rightarrow> do { (intbuf, n) \<leftarrow> ll2string intbuf 0 LP_INTBUF_SIZE val; rd intbuf 0 n }
   }"

definition lpCompare :: "buffer \<Rightarrow> nat \<Rightarrow> buffer \<Rightarrow> nat \<Rightarrow> bool option" where
  "lpCompare lp p s slen = do {
     b \<leftarrow> rd_byte lp p;
     if b = LP_EOF then Some False
     else do {
       v \<leftarrow> lpGet lp p;
       case v of
         LpString off n \<Rightarrow>
           if slen = n then do { value \<leftarrow> rd lp off slen; Some (value = take slen s) } else Some False
       | LpInt sz \<Rightarrow> do { r \<leftarrow> lpStringToInt64 s slen; Some (case r of None \<Rightarrow> False | Some sval \<Rightarrow> sz = sval) }
     }
   }"

subsection \<open>Searching\<close>

text \<open>Whether the searched string is an integer is found out at most once.\<close>

datatype lp_vencoding = NotTried | NoInteger | IsInteger int

definition find_vencoding :: "lp_vencoding \<Rightarrow> buffer \<Rightarrow> nat \<Rightarrow> lp_vencoding option" where
  "find_vencoding venc s slen =
     (if venc \<noteq> NotTried then Some venc
      else if slen \<ge> 32 \<or> slen = 0 then Some NoInteger
      else do { r \<leftarrow> lpStringToInt64 s slen; Some (case r of None \<Rightarrow> NoInteger | Some v \<Rightarrow> IsInteger v) })"

text \<open>The comparison of the entry at \<open>p\<close>: whether it is equal, and the new state of the search.\<close>

definition find_compare :: "buffer \<Rightarrow> nat \<Rightarrow> nat \<Rightarrow> buffer \<Rightarrow> nat \<Rightarrow> lp_vencoding \<Rightarrow> nat \<Rightarrow>
    (bool \<times> lp_vencoding \<times> nat) option" where
  "find_compare lp lp_bytes p s slen venc entry_size = do {
     (v, es) \<leftarrow> lpGetWithSize lp p;
     let entry_size = (case es of None \<Rightarrow> entry_size | Some n \<Rightarrow> n);
     case v of
       LpString off n \<Rightarrow> do {
         c_assert (p \<ge> LP_HDR_SIZE \<and> p + entry_size < lp_bytes);
         if slen = n then do { value \<leftarrow> rd lp off slen; Some (value = take slen s, venc, entry_size) }
         else Some (False, venc, entry_size)
       }
     | LpInt ll \<Rightarrow> do {
         venc \<leftarrow> find_vencoding venc s slen;
         Some (venc = IsInteger ll, venc, entry_size)
       }
   }"

partial_function (option) find_loop :: "buffer \<Rightarrow> nat \<Rightarrow> buffer \<Rightarrow> nat \<Rightarrow> nat \<Rightarrow> nat \<Rightarrow> nat \<Rightarrow> lp_vencoding \<Rightarrow> nat \<Rightarrow>
    nat option option" where
  "find_loop lp lp_bytes s slen skip p skipcnt venc entry_size = do {
     (found, q, skipcnt, venc, entry_size) \<leftarrow>
       (if skipcnt = 0 then do {
          (found, venc, entry_size) \<leftarrow> find_compare lp lp_bytes p s slen venc entry_size;
          Some (found, p + entry_size, skip, venc, entry_size)
        } else do {
          q \<leftarrow> lpSkip lp p;
          Some (False, q, skipcnt - 1, venc, entry_size)
        });
     if found then Some (Some p)
     else do {
       (if q + 8 \<ge> lp_bytes then lpAssertValidEntry lp lp_bytes q
        else c_assert (q \<ge> LP_HDR_SIZE \<and> q < lp_bytes));
       b \<leftarrow> rd_byte lp q;
       if b = LP_EOF then Some None
       else find_loop lp lp_bytes s slen skip q skipcnt venc entry_size
     }
   }"

definition lpFind :: "buffer \<Rightarrow> nat \<Rightarrow> buffer \<Rightarrow> nat \<Rightarrow> nat \<Rightarrow> nat option option" where
  "lpFind lp p s slen skip = do {
     lp_bytes \<leftarrow> lpBytes lp;
     find_loop lp lp_bytes s slen skip p 0 NotTried 123456789
   }"

subsection \<open>Inserting, replacing and deleting\<close>

datatype lp_where = LP_BEFORE | LP_AFTER | LP_REPLACE

text \<open>The element: \<^verbatim>\<open>elestr\<close> with its length, an encoded integer in \<^verbatim>\<open>eleint\<close>, or neither, for a deletion.\<close>

datatype lp_element = EleStr buffer nat | EleInt buffer | EleNone

definition insert_encoding :: "lp_element \<Rightarrow> (buffer option \<times> nat) option" where
  "insert_encoding ele =
     (case ele of
        EleStr s n \<Rightarrow> lpEncodeGetType s n
      | EleInt enc \<Rightarrow> Some (Some enc, length enc)
      | EleNone \<Rightarrow> Some (None, 0))"

text \<open>Storing the entry at \<open>dst\<close>: the encoded element and its length.\<close>

definition insert_store :: "buffer \<Rightarrow> nat \<Rightarrow> lp_element \<Rightarrow> buffer option \<Rightarrow> nat \<Rightarrow> buffer \<Rightarrow> buffer option" where
  "insert_store lp dst ele intenc enclen backlen =
     (if ele = EleNone then Some lp
      else do {
        lp \<leftarrow> (case intenc of
            Some enc \<Rightarrow> wr lp dst enc
          | None \<Rightarrow> (case ele of EleStr s n \<Rightarrow> lpEncodeString lp dst s n | _ \<Rightarrow> None));
        wr lp (dst + enclen) backlen
      })"

text \<open>The update of the number of elements in the header.\<close>

definition insert_count :: "buffer \<Rightarrow> lp_where \<Rightarrow> lp_element \<Rightarrow> buffer option" where
  "insert_count lp whr ele =
     (if whr \<noteq> LP_REPLACE \<or> ele = EleNone then do {
        num_elements \<leftarrow> lpGetNumElements lp;
        if num_elements \<noteq> LP_HDR_NUMELE_UNKNOWN then
          if ele \<noteq> EleNone then lpSetNumElements lp (num_elements + 1)
          else lpSetNumElements lp (u32 (int num_elements - 1))
        else Some lp
      }
      else Some lp)"

text \<open>The result is NULL when the listpack would become too long, and otherwise the listpack and \<^verbatim>\<open>newp\<close>.\<close>

definition lpInsert :: "allocator \<Rightarrow> buffer \<Rightarrow> lp_element \<Rightarrow> nat \<Rightarrow> lp_where \<Rightarrow> (buffer \<times> nat option) option option" where
  "lpInsert al lp ele p whr = do {
     let whr = (if ele = EleNone then LP_REPLACE else whr);
     (poff, whr) \<leftarrow>
       (if whr = LP_AFTER then do {
          q \<leftarrow> lpSkip lp p;
          bytes \<leftarrow> lpGetTotalBytes lp;
          c_assert (q \<ge> LP_HDR_SIZE \<and> q < bytes);
          Some (q, LP_BEFORE)
        } else Some (p, whr));
     (intenc, enclen) \<leftarrow> insert_encoding ele;
     let backlen = (if ele \<noteq> EleNone then lpEncodeBacklen enclen else []);
     let backlen_size = length backlen;
     old_listpack_bytes \<leftarrow> lpGetTotalBytes lp;
     replaced_len \<leftarrow>
       (if whr = LP_REPLACE then do {
          n \<leftarrow> lpCurrentEncodedSizeUnsafe lp poff;
          let n = u32 (int n + int (length (lpEncodeBacklen n)));
          c_assert (poff \<ge> LP_HDR_SIZE \<and> poff + n < old_listpack_bytes);
          Some n
        } else Some 0);
     let new_listpack_bytes = u64 (int old_listpack_bytes + int enclen + int backlen_size - int replaced_len);
     if new_listpack_bytes > UINT32_MAX then Some None
     else do {
       let lp = (if new_listpack_bytes > old_listpack_bytes \<and> new_listpack_bytes > length lp
                 then realloc al new_listpack_bytes lp else lp);
       lp \<leftarrow> (if whr = LP_BEFORE then memmove lp (poff + enclen + backlen_size) poff (old_listpack_bytes - poff)
             else memmove lp (poff + enclen + backlen_size) (poff + replaced_len) (old_listpack_bytes - poff - replaced_len));
       let lp = (if new_listpack_bytes < old_listpack_bytes then realloc al new_listpack_bytes lp else lp);
       newp \<leftarrow> (if ele = EleNone then do { b \<leftarrow> rd_byte lp poff; Some (if b = LP_EOF then None else Some poff) }
               else Some (Some poff));
       lp \<leftarrow> insert_store lp poff ele intenc enclen backlen;
       lp \<leftarrow> insert_count lp whr ele;
       lp \<leftarrow> lpSetTotalBytes lp new_listpack_bytes;
       Some (Some (lp, newp))
     }
   }"

definition lpInsertString :: "allocator \<Rightarrow> buffer \<Rightarrow> buffer \<Rightarrow> nat \<Rightarrow> nat \<Rightarrow> lp_where \<Rightarrow> (buffer \<times> nat option) option option" where
  "lpInsertString al lp s slen p whr = lpInsert al lp (EleStr s slen) p whr"

definition lpInsertInteger :: "allocator \<Rightarrow> buffer \<Rightarrow> int \<Rightarrow> nat \<Rightarrow> lp_where \<Rightarrow> (buffer \<times> nat option) option option" where
  "lpInsertInteger al lp lval p whr = lpInsert al lp (EleInt (lpEncodeIntegerGetType lval)) p whr"

text \<open>The callers that pass no \<^verbatim>\<open>newp\<close> get only the listpack.\<close>

definition lpAppend :: "allocator \<Rightarrow> buffer \<Rightarrow> buffer \<Rightarrow> nat \<Rightarrow> buffer option option" where
  "lpAppend al lp ele sz = do {
     listpack_bytes \<leftarrow> lpGetTotalBytes lp;
     c_assert (listpack_bytes \<noteq> 0);
     map_option (map_option fst) (lpInsert al lp (EleStr ele sz) (listpack_bytes - 1) LP_BEFORE)
   }"

definition lpAppendInteger :: "allocator \<Rightarrow> buffer \<Rightarrow> int \<Rightarrow> buffer option option" where
  "lpAppendInteger al lp lval = do {
     listpack_bytes \<leftarrow> lpGetTotalBytes lp;
     c_assert (listpack_bytes \<noteq> 0);
     map_option (map_option fst) (lpInsertInteger al lp lval (listpack_bytes - 1) LP_BEFORE)
   }"

definition lpPrepend :: "allocator \<Rightarrow> buffer \<Rightarrow> buffer \<Rightarrow> nat \<Rightarrow> buffer option option" where
  "lpPrepend al lp s slen = do {
     pp \<leftarrow> lpFirst lp;
     case pp of
       None \<Rightarrow> lpAppend al lp s slen
     | Some p \<Rightarrow> map_option (map_option fst) (lpInsert al lp (EleStr s slen) p LP_BEFORE)
   }"

definition lpPrependInteger :: "allocator \<Rightarrow> buffer \<Rightarrow> int \<Rightarrow> buffer option option" where
  "lpPrependInteger al lp lval = do {
     pp \<leftarrow> lpFirst lp;
     case pp of
       None \<Rightarrow> lpAppendInteger al lp lval
     | Some p \<Rightarrow> map_option (map_option fst) (lpInsertInteger al lp lval p LP_BEFORE)
   }"

definition lpReplace :: "allocator \<Rightarrow> buffer \<Rightarrow> nat \<Rightarrow> buffer \<Rightarrow> nat \<Rightarrow> (buffer \<times> nat option) option option" where
  "lpReplace al lp p s slen = lpInsert al lp (EleStr s slen) p LP_REPLACE"

definition lpReplaceInteger :: "allocator \<Rightarrow> buffer \<Rightarrow> nat \<Rightarrow> int \<Rightarrow> (buffer \<times> nat option) option option" where
  "lpReplaceInteger al lp p lval = lpInsertInteger al lp lval p LP_REPLACE"

definition lpDelete :: "allocator \<Rightarrow> buffer \<Rightarrow> nat \<Rightarrow> (buffer \<times> nat option) option option" where
  "lpDelete al lp p = lpInsert al lp EleNone p LP_REPLACE"

subsection \<open>Deleting ranges\<close>

fun range_tail :: "buffer \<Rightarrow> nat \<Rightarrow> nat \<Rightarrow> nat \<Rightarrow> nat \<Rightarrow> (nat \<times> nat) option" where
  "range_tail lp bytes tail deleted 0 = Some (tail, deleted)"
| "range_tail lp bytes tail deleted (Suc num) = do {
     tail \<leftarrow> lpSkip lp tail;
     b \<leftarrow> rd_byte lp tail;
     if b = LP_EOF then Some (tail, deleted + 1)
     else do {
       lpAssertValidEntry lp bytes tail;
       range_tail lp bytes tail (deleted + 1) num
     }
   }"

definition lpDeleteRangeWithEntry :: "allocator \<Rightarrow> buffer \<Rightarrow> nat \<Rightarrow> nat \<Rightarrow> (buffer \<times> nat option) option" where
  "lpDeleteRangeWithEntry al lp first num = do {
     bytes \<leftarrow> lpBytes lp;
     if num = 0 then Some (lp, Some first)
     else do {
       (tail, deleted) \<leftarrow> range_tail lp bytes first 0 num;
       c_assert (tail \<le> bytes);
       lp \<leftarrow> memmove lp first tail (bytes - tail);
       lp \<leftarrow> lpSetTotalBytes lp (bytes - (tail - first));
       numele \<leftarrow> lpGetNumElements lp;
       lp \<leftarrow> (if numele \<noteq> LP_HDR_NUMELE_UNKNOWN then lpSetNumElements lp (u32 (int numele - int deleted)) else Some lp);
       lp \<leftarrow> lpShrinkToFit al lp;
       b \<leftarrow> rd_byte lp first;
       Some (lp, if b = LP_EOF then None else Some first)
     }
   }"

definition lpDeleteRange :: "allocator \<Rightarrow> buffer \<Rightarrow> int \<Rightarrow> nat \<Rightarrow> buffer option" where
  "lpDeleteRange al lp index num = do {
     numele \<leftarrow> lpGetNumElements lp;
     if num = 0 then Some lp
     else do {
       pp \<leftarrow> lpSeek lp index;
       case pp of
         None \<Rightarrow> Some lp
       | Some p \<Rightarrow>
           let index = (if numele \<noteq> LP_HDR_NUMELE_UNKNOWN \<and> index < 0 then int numele + index else index) in
           if numele \<noteq> LP_HDR_NUMELE_UNKNOWN \<and> u64 (int numele - index) \<le> num then do {
             lp \<leftarrow> wr lp p [LP_EOF];
             lp \<leftarrow> lpSetTotalBytes lp (p + 1);
             lp \<leftarrow> lpSetNumElements lp (nat index);
             lpShrinkToFit al lp
           }
           else map_option fst (lpDeleteRangeWithEntry al lp p num)
     }
   }"

text \<open>The loop of \<^verbatim>\<open>lpBatchDelete\<close> over the remaining pointers; \<open>dst\<close> is where the kept bytes go.\<close>

fun batch_loop :: "buffer \<Rightarrow> nat \<Rightarrow> nat \<Rightarrow> nat list \<Rightarrow> (buffer \<times> nat) option" where
  "batch_loop lp lp_end dst [] = Some (lp, dst)"
| "batch_loop lp lp_end dst (skip # ps) = do {
     b \<leftarrow> rd_byte lp skip;
     c_assert (b \<noteq> LP_EOF);
     keep_start \<leftarrow> lpSkip lp skip;
     let keep_end = (case ps of [] \<Rightarrow> lp_end | q # _ \<Rightarrow> q);
     if ps \<noteq> [] \<and> keep_start = keep_end then batch_loop lp lp_end dst ps
     else do {
       c_assert (keep_end > keep_start);
       lp \<leftarrow> memmove lp dst keep_start (keep_end - keep_start);
       batch_loop lp lp_end (dst + (keep_end - keep_start)) ps
     }
   }"

definition lpBatchDelete :: "allocator \<Rightarrow> buffer \<Rightarrow> nat list \<Rightarrow> buffer option" where
  "lpBatchDelete al lp ps =
     (if ps = [] then Some lp
      else do {
        total_bytes \<leftarrow> lpGetTotalBytes lp;
        c_assert (total_bytes \<noteq> 0);
        b \<leftarrow> rd_byte lp (total_bytes - 1);
        c_assert (b = LP_EOF);
        (lp, dst) \<leftarrow> batch_loop lp total_bytes (hd ps) ps;
        let total_bytes = total_bytes - (total_bytes - dst);
        c_assert (total_bytes \<noteq> 0);
        b \<leftarrow> rd_byte lp (total_bytes - 1);
        c_assert (b = LP_EOF);
        lp \<leftarrow> lpSetTotalBytes lp total_bytes;
        numele \<leftarrow> lpGetNumElements lp;
        lp \<leftarrow> (if numele \<noteq> LP_HDR_NUMELE_UNKNOWN then lpSetNumElements lp (u32 (int numele - int (length ps))) else Some lp);
        lpShrinkToFit al lp
      })"

subsection \<open>Whole listpacks\<close>

text \<open>The two listpacks are distinct and not NULL. The result is the merged listpack.\<close>

definition lpMerge :: "allocator \<Rightarrow> buffer \<Rightarrow> buffer \<Rightarrow> buffer option" where
  "lpMerge al first second = do {
     first_bytes \<leftarrow> lpBytes first;
     (first, first_len) \<leftarrow> lpLength first;
     second_bytes \<leftarrow> lpBytes second;
     (second, second_len) \<leftarrow> lpLength second;
     let append = (first_bytes \<ge> second_bytes);
     let (target, target_bytes, source, source_bytes) =
       (if append then (first, first_bytes, second, second_bytes) else (second, second_bytes, first, first_bytes));
     let lpbytes = first_bytes + second_bytes - LP_HDR_SIZE - 1;
     c_assert (lpbytes < UINT32_MAX);
     let lplength = first_len + second_len;
     let lplength = (if lplength < 65535 then lplength else 65535);
     let target = realloc al lpbytes target;
     target \<leftarrow> (if append then do {
         xs \<leftarrow> rd source LP_HDR_SIZE (source_bytes - LP_HDR_SIZE);
         wr target (target_bytes - 1) xs
       } else do {
         target \<leftarrow> memmove target (source_bytes - 1) LP_HDR_SIZE (target_bytes - LP_HDR_SIZE);
         xs \<leftarrow> rd source 0 (source_bytes - 1);
         wr target 0 xs
       });
     target \<leftarrow> lpSetNumElements target lplength;
     lpSetTotalBytes target lpbytes
   }"

definition lpDup :: "allocator \<Rightarrow> buffer \<Rightarrow> buffer option" where
  "lpDup al lp = do {
     lpbytes \<leftarrow> lpBytes lp;
     xs \<leftarrow> rd lp 0 lpbytes;
     wr (fresh al lpbytes) 0 xs
   }"

definition lpEstimateBytesRepeatedInteger :: "int \<Rightarrow> nat \<Rightarrow> nat" where
  "lpEstimateBytesRepeatedInteger lval rep =
     (let enclen = length (lpEncodeIntegerGetType lval) in
      LP_HDR_SIZE + (enclen + length (lpEncodeBacklen enclen)) * rep + 1)"

text \<open>\<open>rnd\<close> is the value of the call of \<^verbatim>\<open>rand\<close>; the second result is absent when no value is asked for.\<close>

definition lpRandomPair :: "nat \<Rightarrow> buffer \<Rightarrow> nat \<Rightarrow> bool \<Rightarrow> (lp_value \<times> lp_value option) option" where
  "lpRandomPair rnd lp total_count want_val = do {
     c_assert (total_count \<noteq> 0);
     pp \<leftarrow> lpSeek lp (int (rnd mod total_count * 2));
     p \<leftarrow> pp;
     key \<leftarrow> lpGet lp p;
     if \<not> want_val then Some (key, None)
     else do {
       pp \<leftarrow> lpNext lp p;
       p \<leftarrow> pp;
       val \<leftarrow> lpGet lp p;
       Some (key, Some val)
     }
   }"

end
