(* ===== verification/Listpack_Enc.thy ===== *)
theory Listpack_Enc
  imports Listpack
begin

text \<open>
  The encodings of the listpack: the ranges of the first byte, the length at the end of an entry, and the
  bodies of entries with the values they stand for.
\<close>

subsection \<open>First bytes\<close>

lemma unat_lt [simp]: "unat (b :: byte) < 256"
  using unsigned_less [of b] by simp

lemma byte_of_unat: "word_of_nat (unat b) = (b :: byte)"
  by simp

text \<open>The masks on integers, for all values of a byte.\<close>

lemma mask_table: "list_all (\<lambda>n. (n AND 0x80 = 0 \<longleftrightarrow> n < 128) \<and> (n AND 0xC0 = 0x80 \<longleftrightarrow> 128 \<le> n \<and> n < 192) \<and>
    (n AND 0xE0 = 0xC0 \<longleftrightarrow> 192 \<le> n \<and> n < 224) \<and> (n AND 0xF0 = 0xE0 \<longleftrightarrow> 224 \<le> n \<and> n < 240) \<and> n AND 0xFF = n \<and>
    n AND 127 = n mod 128 \<and> n AND 63 = n mod 64 \<and> n AND 31 = n mod 32 \<and> n AND 15 = n mod 16) [0..255::int]"
  by code_simp

lemma or_table: "list_all (\<lambda>n. n OR 128 = n + 128 \<and> (n < 32 \<longrightarrow> n OR 0xC0 = n + 192) \<and> (n < 16 \<longrightarrow> n OR 0xE0 = n + 224)) [0..127::int]"
  by code_simp

lemma uint_masks:
  "uint b AND 0x80 = 0 \<longleftrightarrow> uint b < 128" "uint b AND 0xC0 = 0x80 \<longleftrightarrow> 128 \<le> uint b \<and> uint b < 192"
  "uint b AND 0xE0 = 0xC0 \<longleftrightarrow> 192 \<le> uint b \<and> uint b < 224" "uint b AND 0xF0 = 0xE0 \<longleftrightarrow> 224 \<le> uint b \<and> uint b < 240"
  "uint b AND 0xFF = uint b" "uint b AND 127 = uint b mod 128" "uint b AND 63 = uint b mod 64"
  "uint b AND 31 = uint b mod 32" "uint b AND 15 = uint b mod 16" for b :: byte
proof -
  have "uint b < 256" using unsigned_less [of b] by simp
  then have "uint b \<in> set [0..255]" by simp
  then show "uint b AND 0x80 = 0 \<longleftrightarrow> uint b < 128" "uint b AND 0xC0 = 0x80 \<longleftrightarrow> 128 \<le> uint b \<and> uint b < 192"
  "uint b AND 0xE0 = 0xC0 \<longleftrightarrow> 192 \<le> uint b \<and> uint b < 224" "uint b AND 0xF0 = 0xE0 \<longleftrightarrow> 224 \<le> uint b \<and> uint b < 240"
  "uint b AND 0xFF = uint b" "uint b AND 127 = uint b mod 128" "uint b AND 63 = uint b mod 64"
  "uint b AND 31 = uint b mod 32" "uint b AND 15 = uint b mod 16"
    using mask_table unfolding list_all_iff by blast+
qed

lemma byte_and: "b AND c = d \<longleftrightarrow> uint b AND uint c = uint d" for b :: byte
  by (metis uint_and word_uint_eq_iff)

lemma unat_uint: "unat (b :: byte) = nat (uint b)" "int (unat b) = uint b"
  by simp_all

lemma byte_class [simp]:
  "LP_ENCODING_IS_7BIT_UINT b \<longleftrightarrow> unat b < 128"
  "LP_ENCODING_IS_6BIT_STR b \<longleftrightarrow> 128 \<le> unat b \<and> unat b < 192"
  "LP_ENCODING_IS_13BIT_INT b \<longleftrightarrow> 192 \<le> unat b \<and> unat b < 224"
  "LP_ENCODING_IS_12BIT_STR b \<longleftrightarrow> 224 \<le> unat b \<and> unat b < 240"
  "LP_ENCODING_IS_16BIT_INT b \<longleftrightarrow> unat b = 241"
  "LP_ENCODING_IS_24BIT_INT b \<longleftrightarrow> unat b = 242"
  "LP_ENCODING_IS_32BIT_INT b \<longleftrightarrow> unat b = 243"
  "LP_ENCODING_IS_64BIT_INT b \<longleftrightarrow> unat b = 244"
  "LP_ENCODING_IS_32BIT_STR b \<longleftrightarrow> unat b = 240"
  unfolding lp_encoding_defs byte_and using unat_uint(2) [of b] by (simp_all add: uint_masks, linarith+)

lemma byte_mask:
  "b AND 128 = 0 \<longleftrightarrow> unat b < 128" "unat (b AND 127) = unat b mod 128" "unat (b AND 63) = unat b mod 64"
  "unat (b AND 31) = unat b mod 32" "unat (b AND 15) = unat b mod 16" for b :: byte
  unfolding byte_and unat_uint(1) uint_and using unat_uint(2) [of b] by (simp_all add: uint_masks nat_mod_distrib, linarith?)

lemma byte_or:
  "n < 128 \<Longrightarrow> unat (word_of_nat n OR 128 :: byte) = n + 128"
  "n < 32 \<Longrightarrow> unat (word_of_nat n OR 0xC0 :: byte) = n + 192"
  "n < 16 \<Longrightarrow> unat (word_of_nat n OR 0xE0 :: byte) = n + 224"
proof -
  have u: "uint (word_of_nat n :: byte) = int n" if "n < 128" using that by (simp add: unsigned_of_nat take_bit_nat_eq_self)
  have t: "int n OR 128 = int n + 128 \<and> (int n < 32 \<longrightarrow> int n OR 0xC0 = int n + 192) \<and> (int n < 16 \<longrightarrow> int n OR 0xE0 = int n + 224)"
    if "n < 128"
    using or_table that unfolding list_all_iff by auto
  show "n < 128 \<Longrightarrow> unat (word_of_nat n OR 128 :: byte) = n + 128"
    unfolding unat_uint(1) uint_or using u t by simp
  show "n < 32 \<Longrightarrow> unat (word_of_nat n OR 0xC0 :: byte) = n + 192"
    unfolding unat_uint(1) uint_or using u t by simp
  show "n < 16 \<Longrightarrow> unat (word_of_nat n OR 0xE0 :: byte) = n + 224"
    unfolding unat_uint(1) uint_or using u t by simp
qed

lemma byte_eof: "b = 255 \<longleftrightarrow> unat b = 255" for b :: byte
  by (simp add: word_unat_eq_iff)

lemma unat_byte: "n < 256 \<Longrightarrow> unat (word_of_nat n :: byte) = n"
  by (simp add: unat_of_nat)

subsection \<open>The length at the end\<close>

lemma backlen_length: "length (lpEncodeBacklen l) =
    (if l \<le> 127 then 1 else if l < 16383 then 2 else if l < 2097151 then 3 else if l < 268435455 then 4 else 5)"
  by (simp add: lpEncodeBacklen_def)

lemma backlen_bounds: "0 < length (lpEncodeBacklen l)" "length (lpEncodeBacklen l) \<le> 5"
  by (simp_all add: backlen_length)

text \<open>The same bytes by recursion: digits to the base 128, the most significant one first.\<close>

fun backlen_digits :: "nat \<Rightarrow> nat \<Rightarrow> buffer" where
  "backlen_digits 0 l = [word_of_nat l]"
| "backlen_digits (Suc k) l = backlen_digits k (l div 128) @ [word_of_nat (l mod 128) OR 128]"

lemma backlen_digits_length [simp]: "length (backlen_digits k l) = Suc k"
  by (induction k l rule: backlen_digits.induct) auto

lemma backlen_digits_expand:
  "backlen_digits (Suc 0) l = [word_of_nat (l div 128), word_of_nat (l mod 128) OR 128]"
  "backlen_digits (Suc (Suc 0)) l =
     [word_of_nat (l div 16384), word_of_nat (l div 128 mod 128) OR 128, word_of_nat (l mod 128) OR 128]"
  "backlen_digits (Suc (Suc (Suc 0))) l =
     [word_of_nat (l div 2097152), word_of_nat (l div 16384 mod 128) OR 128, word_of_nat (l div 128 mod 128) OR 128,
      word_of_nat (l mod 128) OR 128]"
  "backlen_digits (Suc (Suc (Suc (Suc 0)))) l =
     [word_of_nat (l div 268435456), word_of_nat (l div 2097152 mod 128) OR 128, word_of_nat (l div 16384 mod 128) OR 128,
      word_of_nat (l div 128 mod 128) OR 128, word_of_nat (l mod 128) OR 128]"
  by (simp_all add: div_mult2_eq [symmetric])

lemma backlen_digits: "lpEncodeBacklen l = backlen_digits (length (lpEncodeBacklen l) - 1) l"
  by (simp add: lpEncodeBacklen_def backlen_digits_expand del: backlen_digits.simps(2))

lemma backlen_loop_digits:
  assumes "l < 128 ^ Suc k" and "s + 7 * k \<le> 28"
  shows "backlen_loop (pre @ backlen_digits k l @ rest) (length pre + k) val s = Some (val + l * 2 ^ s)"
  using assms
proof (induction k arbitrary: l rest val s)
  case 0
  then have "unat (word_of_nat l :: byte) = l" by (simp add: unat_byte)
  then show ?case
    using 0 by (subst backlen_loop.simps) (simp add: rd_byte_def byte_mask Let_def)
next
  case (Suc k)
  let ?b = "word_of_nat (l mod 128) OR 128 :: byte"
  let ?lp = "pre @ backlen_digits (Suc k) l @ rest"
  have "rd_byte ?lp (length pre + Suc k) = Some ?b" by (simp add: rd_byte_def nth_append)
  moreover have "\<not> ?b AND 128 = 0" "unat (?b AND 127) = l mod 128" by (simp_all add: byte_mask byte_or)
  ultimately have "backlen_loop ?lp (length pre + Suc k) val s = backlen_loop ?lp (length pre + k) (val + l mod 128 * 2 ^ s) (s + 7)"
    using Suc.prems(2) by (subst backlen_loop.simps) (simp add: Let_def)
  also have "\<dots> = Some (val + l mod 128 * 2 ^ s + l div 128 * 2 ^ (s + 7))"
    using Suc.IH [of "l div 128" "s + 7" "?b # rest"] Suc.prems by (simp add: less_mult_imp_div_less)
  also have "val + l mod 128 * 2 ^ s + l div 128 * 2 ^ (s + 7) = val + l * 2 ^ s"
  proof -
    have "l mod 128 * x + l div 128 * (128 * x) = l * x" for x :: nat
      by (metis distrib_right mod_div_mult_eq mult.assoc)
    from this [of "2 ^ s"] show ?thesis by (simp add: power_add mult.commute)
  qed
  finally show ?case .
qed

lemma decode_backlen:
  assumes "l < 2 ^ 32"
  shows "lpDecodeBacklen (pre @ lpEncodeBacklen l @ rest) (length pre + length (lpEncodeBacklen l) - 1) = Some l"
proof -
  define k where "k = length (lpEncodeBacklen l) - 1"
  have k: "length (lpEncodeBacklen l) = Suc k" using backlen_bounds(1) [of l] by (simp add: k_def)
  have 4: "0 + 7 * k \<le> 28" by (simp add: k_def backlen_length)
  have "l < 128 ^ length (lpEncodeBacklen l)"
    unfolding backlen_length using assms by (auto split: if_splits)
  then have l: "l < 128 ^ Suc k" by (simp only: k)
  have e: "lpEncodeBacklen l = backlen_digits k l" using backlen_digits [of l] by (simp only: k_def)
  have "backlen_loop (pre @ lpEncodeBacklen l @ rest) (length pre + k) 0 0 = Some (0 + l * 2 ^ 0)"
    unfolding e by (rule backlen_loop_digits [OF l 4])
  moreover have "length pre + length (lpEncodeBacklen l) - 1 = length pre + k" using k by simp
  ultimately show ?thesis by (simp only: lpDecodeBacklen_def power_0 mult_1_right add_0_left)
qed

subsection \<open>Bodies of entries\<close>

text \<open>The body of an entry is everything before the length at its end.\<close>

definition body_ok :: "buffer \<Rightarrow> bool" where
  "body_ok b \<longleftrightarrow> b \<noteq> [] \<and> hd b \<noteq> LP_EOF \<and> lpCurrentEncodedSizeUnsafe b 0 = Some (length b) \<and> length b < 2 ^ 32"

definition lp_entry :: "buffer \<Rightarrow> buffer" where
  "lp_entry b = b @ lpEncodeBacklen (length b)"

text \<open>Reads inside a buffer do not depend on what surrounds it.\<close>

lemma rd_byte_inside: "rd_byte b k = Some x \<Longrightarrow> rd_byte (pre @ b @ rest) (length pre + k) = Some x"
  by (auto simp: rd_byte_def nth_append split: if_splits)

lemma rd_inside: "rd b k n = Some xs \<Longrightarrow> rd (pre @ b @ rest) (length pre + k) n = Some xs"
  by (auto simp: rd_def split: if_splits)

lemma len12_inside:
  assumes "LP_ENCODING_12BIT_STR_LEN b k = Some n"
  shows "LP_ENCODING_12BIT_STR_LEN (pre @ b @ rest) (length pre + k) = Some n"
proof -
  obtain x y where "rd_byte b k = Some x" "rd_byte b (k + 1) = Some y" "n = unat (x AND 0xF) * 256 + unat y"
    using assms by (auto simp: LP_ENCODING_12BIT_STR_LEN_def bind_eq_Some_conv)
  then show ?thesis
    using rd_byte_inside [of b k x pre rest] rd_byte_inside [of b "k + 1" y pre rest]
    by (simp add: LP_ENCODING_12BIT_STR_LEN_def add.assoc)
qed

lemma len32_inside:
  assumes "LP_ENCODING_32BIT_STR_LEN b k = Some n"
  shows "LP_ENCODING_32BIT_STR_LEN (pre @ b @ rest) (length pre + k) = Some n"
proof -
  obtain xs where "rd b (k + 1) 4 = Some xs" "n = le_nat xs" using assms by (auto simp: LP_ENCODING_32BIT_STR_LEN_def)
  then show ?thesis using rd_inside [of b "k + 1" 4 xs pre rest] by (simp add: LP_ENCODING_32BIT_STR_LEN_def add.assoc)
qed

lemma encoded_size_inside:
  assumes a: "lpCurrentEncodedSizeUnsafe b k = Some n"
  shows "lpCurrentEncodedSizeUnsafe (pre @ b @ rest) (length pre + k) = Some n"
proof -
  let ?b = "pre @ b @ rest" and ?k = "length pre + k"
  obtain x where x: "rd_byte b k = Some x" using a by (auto simp: lpCurrentEncodedSizeUnsafe_def bind_eq_Some_conv)
  have y: "rd_byte ?b ?k = Some x" by (rule rd_byte_inside [OF x])
  have "\<forall>m. LP_ENCODING_12BIT_STR_LEN b k = Some m \<longrightarrow> LP_ENCODING_12BIT_STR_LEN ?b ?k = Some m"
    "\<forall>m. LP_ENCODING_32BIT_STR_LEN b k = Some m \<longrightarrow> LP_ENCODING_32BIT_STR_LEN ?b ?k = Some m"
    by (auto intro: len12_inside len32_inside)
  then show ?thesis
    using a by (auto simp: lpCurrentEncodedSizeUnsafe_def x y bind_eq_Some_conv simp del: byte_class split: if_splits)
qed

fun lp_shift :: "nat \<Rightarrow> lp_value \<Rightarrow> lp_value" where
  "lp_shift k (LpString off n) = LpString (k + off) n"
| "lp_shift k (LpInt v) = LpInt v"

lemma get_inside:
  assumes a: "lpGetWithSize b k = Some (v, e)"
  shows "lpGetWithSize (pre @ b @ rest) (length pre + k) = Some (lp_shift (length pre) v, e)"
proof -
  let ?b = "pre @ b @ rest" and ?k = "length pre + k"
  obtain x where x: "rd_byte b k = Some x" using a by (auto simp: lpGetWithSize_def bind_eq_Some_conv)
  have y: "rd_byte ?b ?k = Some x" by (rule rd_byte_inside [OF x])
  have "\<forall>m. LP_ENCODING_12BIT_STR_LEN b k = Some m \<longrightarrow> LP_ENCODING_12BIT_STR_LEN ?b ?k = Some m"
    "\<forall>m. LP_ENCODING_32BIT_STR_LEN b k = Some m \<longrightarrow> LP_ENCODING_32BIT_STR_LEN ?b ?k = Some m"
    "\<forall>m. rd_byte b (k + 1) = Some m \<longrightarrow> rd_byte ?b (?k + 1) = Some m"
    "\<forall>j m. rd b (k + 1) j = Some m \<longrightarrow> rd ?b (?k + 1) j = Some m"
    using rd_byte_inside [of b "k + 1" _ pre rest] rd_inside [of b "k + 1" _ _ pre rest]
    by (auto intro: len12_inside len32_inside simp: add.assoc)
  then show ?thesis
    using a by (auto simp: lpGetWithSize_def x y bind_eq_Some_conv Let_def simp del: byte_class split: if_splits)
qed

text \<open>The kinds of bodies, by the first byte.\<close>

lemma body_okE:
  assumes "body_ok b"
  obtains x xs where "b = x # xs" and "unat x \<noteq> 255" and "lpCurrentEncodedSizeUnsafe (x # xs) 0 = Some (Suc (length xs))"
    and "length xs < 2 ^ 32"
  using assms by (cases b) (auto simp: body_ok_def byte_eof)

lemma body_size_cases:
  assumes "lpCurrentEncodedSizeUnsafe (x # xs) 0 = Some (Suc (length xs))" and "unat x \<noteq> 255"
  shows "unat x < 128 \<and> xs = [] \<or> 128 \<le> unat x \<and> unat x < 192 \<and> length xs = unat x mod 64 \<or>
     192 \<le> unat x \<and> unat x < 224 \<and> length xs = 1 \<or>
     224 \<le> unat x \<and> unat x < 240 \<and> length xs = 1 + (unat x mod 16 * 256 + unat (hd xs)) \<and> xs \<noteq> [] \<or>
     unat x = 241 \<and> length xs = 2 \<or> unat x = 242 \<and> length xs = 3 \<or> unat x = 243 \<and> length xs = 4 \<or>
     unat x = 244 \<and> length xs = 8 \<or>
     unat x = 240 \<and> 4 \<le> length xs \<and> length xs = 4 + le_nat (take 4 xs)"
proof -
  have w: "length xs = 4 + n" if "u32 (5 + int n) = Suc (length xs)" "4 \<le> length xs" "n < 4294967296" for n
  proof (cases "5 + int n < 2 ^ 32")
    case True
    then show ?thesis using that(1) by (simp add: u32_def)
  next
    case False
    then have "(5 + int n - 2 ^ 32) mod 2 ^ 32 = 5 + int n - 2 ^ 32" using that(3) by simp
    then have "(5 + int n) mod 2 ^ 32 = 5 + int n - 2 ^ 32" by (simp only: minus_mod_self2)
    then show ?thesis using that by (simp add: u32_def)
  qed
  have b: "le_nat (take 4 xs) < 4294967296" if "4 \<le> length xs"
  proof -
    have "length (take 4 xs) = 4" using that by simp
    then show ?thesis using le_nat_bound [of "take 4 xs"] by simp
  qed
  have r: "rd_byte (x # xs) 0 = Some x" by (simp add: rd_byte_def)
  consider "unat x < 128" | "128 \<le> unat x" "unat x < 192" | "192 \<le> unat x" "unat x < 224" | "224 \<le> unat x" "unat x < 240"
    | "unat x = 240" | "unat x = 241" | "unat x = 242" | "unat x = 243" | "unat x = 244" | "244 < unat x" "unat x \<noteq> 255"
    using assms(2) by linarith
  then show ?thesis
  proof cases
    case 4
    then obtain y where y: "rd_byte (x # xs) 1 = Some y" "Suc (length xs) = 2 + (unat x mod 16 * 256 + unat y)"
      using assms(1) r
      by (auto simp: lpCurrentEncodedSizeUnsafe_def LP_ENCODING_12BIT_STR_LEN_def byte_mask bind_eq_Some_conv)
    then have "xs \<noteq> []" "y = hd xs" by (cases xs; simp add: rd_byte_def)+
    then show ?thesis using 4 y(2) by simp
  next
    case 5
    then obtain ys where ys: "rd (x # xs) 1 4 = Some ys" "u32 (5 + int (le_nat ys)) = Suc (length xs)"
      using assms(1) r by (auto simp: lpCurrentEncodedSizeUnsafe_def LP_ENCODING_32BIT_STR_LEN_def bind_eq_Some_conv)
    then have "4 \<le> length xs" "ys = take 4 xs" by (auto simp: rd_def split: if_splits)
    then show ?thesis using 5 w [of "le_nat ys"] b ys(2) by simp
  next
    case 10
    then show ?thesis using assms(1) r by (simp add: lpCurrentEncodedSizeUnsafe_def byte_eof)
  qed (use assms(1) r in \<open>simp_all add: lpCurrentEncodedSizeUnsafe_def LP_ENCODING_6BIT_STR_LEN_def byte_mask\<close>)
qed

lemma body_size_bytes:
  assumes "body_ok b"
  shows "lpCurrentEncodedSizeBytes (hd b) \<noteq> 0" and "lpCurrentEncodedSizeBytes (hd b) \<le> length b"
proof -
  obtain x xs where b: "b = x # xs" "unat x \<noteq> 255" "lpCurrentEncodedSizeUnsafe (x # xs) 0 = Some (Suc (length xs))"
    using body_okE [OF assms] by metis
  show "lpCurrentEncodedSizeBytes (hd b) \<noteq> 0" "lpCurrentEncodedSizeBytes (hd b) \<le> length b"
    using body_size_cases [OF b(3,2)] b(1) by (auto simp: lpCurrentEncodedSizeBytes_def byte_eof)
qed

lemma body_get:
  assumes "body_ok b"
  shows "\<exists>v. lpGetWithSize b 0 = Some (v, Some (length (lp_entry b))) \<and> (\<forall>off n. v = LpString off n \<longrightarrow> off + n = length b)"
proof -
  obtain x xs where b: "b = x # xs" "unat x \<noteq> 255" "lpCurrentEncodedSizeUnsafe (x # xs) 0 = Some (Suc (length xs))"
    using body_okE [OF assms] by metis
  have r: "rd_byte (x # xs) 0 = Some x" by (simp add: rd_byte_def)
  have l: "length (lp_entry b) = Suc (length xs) + length (lpEncodeBacklen (Suc (length xs)))" using b(1) by (simp add: lp_entry_def)
  consider "unat x < 128" "xs = []" | "128 \<le> unat x" "unat x < 192" "length xs = unat x mod 64"
    | "192 \<le> unat x" "unat x < 224" "length xs = 1"
    | "224 \<le> unat x" "unat x < 240" "length xs = 1 + (unat x mod 16 * 256 + unat (hd xs))" "xs \<noteq> []"
    | "unat x = 241" "length xs = 2" | "unat x = 242" "length xs = 3" | "unat x = 243" "length xs = 4" | "unat x = 244" "length xs = 8"
    | "unat x = 240" "4 \<le> length xs" "length xs = 4 + le_nat (take 4 xs)"
    using body_size_cases [OF b(3,2)] by blast
  then show ?thesis
  proof cases
    case 4
    then have "rd_byte (x # xs) 1 = Some (hd xs)" by (cases xs) (simp_all add: rd_byte_def)
    then show ?thesis
      using 4 r l by (simp add: b(1) lpGetWithSize_def LP_ENCODING_12BIT_STR_LEN_def byte_mask)
  next
    case 9
    then have "rd (x # xs) 1 4 = Some (take 4 xs)" by (simp add: rd_def)
    then show ?thesis
      using 9 r l by (simp add: b(1) lpGetWithSize_def LP_ENCODING_32BIT_STR_LEN_def add.commute)
  qed (use r l in \<open>simp_all add: b(1) lpGetWithSize_def LP_ENCODING_6BIT_STR_LEN_def byte_mask Let_def rd_byte_def rd_def backlen_length\<close>)
qed

subsection \<open>Encoded integers\<close>

lemma lp_signed_neg: "negstart \<le> u \<Longrightarrow> u \<le> negmax \<Longrightarrow> lp_signed u negstart negmax = int u - int negmax - 1"
  by (simp add: lp_signed_def of_nat_diff)

lemma get_int_bytes:
  assumes k: "k = 2 \<and> unat x = 241 \<or> k = 3 \<and> unat x = 242 \<or> k = 4 \<and> unat x = 243 \<or> k = 8 \<and> unat x = 244"
    and v: "fits k v" and u: "u = nat (if v < 0 then 2 ^ (8 * k) + v else v)"
  shows "body_ok (x # nat_le k u)" and "lpGet (x # nat_le k u) 0 = Some (LpInt v)"
proof -
  have r: "rd_byte (x # nat_le k u) 0 = Some x" "rd (x # nat_le k u) (Suc 0) k = Some (nat_le k u)"
    by (simp_all add: rd_byte_def rd_def)
  show "body_ok (x # nat_le k u)"
    using k r(1) by (elim disjE conjE) (simp_all add: body_ok_def lpCurrentEncodedSizeUnsafe_def byte_eof)
  have "u < 256 ^ k"
    using k v u by (elim disjE conjE) (auto simp: fits_def)
  then have lu: "le_nat (nat_le k u) = u" by (simp add: le_nat_nat_le)
  have "lpGet (x # nat_le k u) 0 = Some (LpInt (lp_signed u (2 ^ (8 * k - 1)) (2 ^ (8 * k) - 1)))"
    using k r lu by (elim disjE conjE) (simp_all add: lpGet_def lpGetWithSize_def)
  moreover have "lp_signed u (2 ^ (8 * k - 1)) (2 ^ (8 * k) - 1) = v"
    using k v u by (elim disjE conjE) (auto simp: lp_signed_def fits_def)
  ultimately show "lpGet (x # nat_le k u) 0 = Some (LpInt v)" by simp
qed

lemma int_body_get:
  assumes "is_int64 v"
  shows "body_ok (lpEncodeIntegerGetType v)" and "lpGet (lpEncodeIntegerGetType v) 0 = Some (LpInt v)"
proof -
  consider "0 \<le> v" "v \<le> 127" | "\<not> (0 \<le> v \<and> v \<le> 127)" "-4096 \<le> v" "v \<le> 4095"
    | "\<not> (-4096 \<le> v \<and> v \<le> 4095)" "-32768 \<le> v" "v \<le> 32767"
    | "\<not> (-32768 \<le> v \<and> v \<le> 32767)" "-8388608 \<le> v" "v \<le> 8388607"
    | "\<not> (-8388608 \<le> v \<and> v \<le> 8388607)" "-2147483648 \<le> v" "v \<le> 2147483647"
    | "\<not> (-2147483648 \<le> v \<and> v \<le> 2147483647)"
    by linarith
  then have "body_ok (lpEncodeIntegerGetType v) \<and> lpGet (lpEncodeIntegerGetType v) 0 = Some (LpInt v)"
  proof cases
    case 1
    then have "unat (word_of_int v :: byte) = nat v" by (simp add: unat_uint(1) uint_word_of_int_eq take_bit_int_eq_self)
    then show ?thesis
      using 1 by (simp add: lpEncodeIntegerGetType_def body_ok_def lpCurrentEncodedSizeUnsafe_def byte_eof rd_byte_def lpGet_def
          lpGetWithSize_def lp_signed_def byte_mask)
  next
    case 2
    define w where "w = nat (if v < 0 then 2 ^ 13 + v else v)"
    have w: "w < 8192" "int w = (if v < 0 then 2 ^ 13 + v else v)" using 2 by (auto simp: w_def)
    have e: "lpEncodeIntegerGetType v = [word_of_nat (w div 256) OR 0xC0, word_of_nat (w mod 256)]"
    proof -
      have q: "int w div 256 = int (w div 256)" "int w mod 256 = int (w mod 256)" by (simp_all add: zdiv_int zmod_int)
      have "lpEncodeIntegerGetType v = [word_of_int (int w div 256) OR 0xC0, word_of_int (int w mod 256)]"
        unfolding w(2) using 2 by (auto simp: lpEncodeIntegerGetType_def Let_def)
      then show ?thesis unfolding q by simp
    qed
    have h: "unat (word_of_nat (w div 256) OR 0xC0 :: byte) = w div 256 + 192" using w(1) by (simp add: byte_or)
    have "(w div 256 + 6 * 32) mod 32 = w div 256 mod 32" by (rule mod_mult_self1)
    moreover have lt: "w div 256 < 32" using w(1) by simp
    ultimately have m: "(w div 256 + 192) mod 32 = w div 256" by simp
    then have "lpGet (lpEncodeIntegerGetType v) 0 = Some (LpInt (lp_signed (w div 256 * 256 + w mod 256) (2 ^ 12) 8191))"
      unfolding e using w(1) h lt
      by (simp add: lpGet_def lpGetWithSize_def rd_byte_def byte_mask)
    moreover have "lp_signed w (2 ^ 12) 8191 = v" using w 2 by (auto simp: lp_signed_def)
    moreover have "body_ok (lpEncodeIntegerGetType v)"
      unfolding e using w(1) h lt by (simp add: body_ok_def lpCurrentEncodedSizeUnsafe_def rd_byte_def byte_eof)
    ultimately show ?thesis by simp
  next
    case 3
    then have e: "lpEncodeIntegerGetType v = 0xF1 # nat_le 2 (nat (if v < 0 then 2 ^ (8 * 2) + v else v))"
      by (auto simp: lpEncodeIntegerGetType_def Let_def)
    have f: "fits 2 v" using 3 by (simp add: fits_def)
    show ?thesis unfolding e using get_int_bytes [OF _ f refl, of "0xF1"] by simp
  next
    case 4
    then have e: "lpEncodeIntegerGetType v = 0xF2 # nat_le 3 (nat (if v < 0 then 2 ^ (8 * 3) + v else v))"
      by (auto simp: lpEncodeIntegerGetType_def Let_def)
    have f: "fits 3 v" using 4 by (simp add: fits_def)
    show ?thesis unfolding e using get_int_bytes [OF _ f refl, of "0xF2"] by simp
  next
    case 5
    then have e: "lpEncodeIntegerGetType v = 0xF3 # nat_le 4 (nat (if v < 0 then 2 ^ (8 * 4) + v else v))"
      by (auto simp: lpEncodeIntegerGetType_def Let_def)
    have f: "fits 4 v" using 5 by (simp add: fits_def)
    show ?thesis unfolding e using get_int_bytes [OF _ f refl, of "0xF3"] by simp
  next
    case 6
    have "u64 v = nat (if v < 0 then 2 ^ (8 * 8) + v else v)"
    proof (cases "v < 0")
      case True
      then have "(v + 18446744073709551616) mod 18446744073709551616 = v + 18446744073709551616"
        using assms by (intro mod_pos_pos_trivial) (simp_all add: is_int64_def)
      then have "v mod 18446744073709551616 = v + 18446744073709551616" by (simp only: mod_add_self2)
      then show ?thesis using True by (simp add: u64_def)
    next
      case False
      then show ?thesis using assms by (simp add: u64_def is_int64_def)
    qed
    moreover have e: "lpEncodeIntegerGetType v = 0xF4 # nat_le 8 (u64 v)"
      using 6 by (auto simp: lpEncodeIntegerGetType_def Let_def)
    moreover have f: "fits 8 v" using assms by (simp add: fits_def is_int64_def)
    ultimately show ?thesis using get_int_bytes [OF _ f, of "0xF4" "u64 v"] by simp
  qed
  then show "body_ok (lpEncodeIntegerGetType v)" "lpGet (lpEncodeIntegerGetType v) 0 = Some (LpInt v)" by simp_all
qed

subsection \<open>Encoded strings\<close>

definition str_header :: "nat \<Rightarrow> buffer" where
  "str_header n =
     (if n < 64 then [word_of_nat n OR 0x80]
      else if n < 4096 then [word_of_nat (n div 256) OR 0xE0, word_of_nat (n mod 256)]
      else 0xF0 # nat_le 4 n)"

definition str_body :: "buffer \<Rightarrow> buffer" where
  "str_body s = str_header (length s) @ s"

lemma str_header_length: "length (str_header n) = (if n < 64 then 1 else if n < 4096 then 2 else 5)"
  by (simp add: str_header_def)

lemma wr_twice:
  assumes "off + length xs + length ys \<le> length b"
  shows "Option.bind (wr b off xs) (\<lambda>b. wr b (off + length xs) ys) = wr b off (xs @ ys)"
  using assms by (cases xs) (auto simp: wr_def min_def ac_simps)

lemma lpEncodeString_body:
  assumes "n \<le> length s" and "off + length (str_body (take n s)) \<le> length b"
  shows "lpEncodeString b off s n = wr b off (str_body (take n s))"
proof -
  have l: "length (take n s) = n" using assms(1) by simp
  have "lpEncodeString b off s n = Option.bind (wr b off (str_header n)) (\<lambda>b. wr b (off + length (str_header n)) (take n s))"
    by (simp add: lpEncodeString_def str_header_def)
  also have "\<dots> = wr b off (str_header n @ take n s)" using assms l by (intro wr_twice) (simp add: str_body_def)
  finally show ?thesis using l by (simp add: str_body_def)
qed

lemma str_body_get:
  assumes "length s < 4294967291"
  shows "body_ok (str_body s)" and "lpGet (str_body s) 0 = Some (LpString (length (str_header (length s))) (length s))"
proof -
  let ?n = "length s"
  have "body_ok (str_body s) \<and> lpGet (str_body s) 0 = Some (LpString (length (str_header ?n)) ?n)"
  proof -
    consider "?n < 64" | "64 \<le> ?n" "?n < 4096" | "4096 \<le> ?n" by linarith
    then show ?thesis
    proof cases
      case 1
      have b: "str_body s = (word_of_nat ?n OR 0x80) # s" using 1 by (simp add: str_body_def str_header_def)
      have h: "unat (word_of_nat ?n OR 0x80 :: byte) = ?n + 128" using 1 by (simp add: byte_or)
      have "(?n + 2 * 64) mod 64 = ?n mod 64" by (rule mod_mult_self1)
      then have m: "(?n + 128) mod 64 = ?n" using 1 by simp
      show ?thesis
        unfolding b using 1 h m
        by (simp add: body_ok_def lpCurrentEncodedSizeUnsafe_def lpGet_def lpGetWithSize_def rd_byte_def byte_eof Let_def
            LP_ENCODING_6BIT_STR_LEN_def byte_mask str_header_def)
    next
      case 2
      have b: "str_body s = (word_of_nat (?n div 256) OR 0xE0) # word_of_nat (?n mod 256) # s" using 2 by (simp add: str_body_def str_header_def)
      have lt: "?n div 256 < 16" using 2 by simp
      have h: "unat (word_of_nat (?n div 256) OR 0xE0 :: byte) = ?n div 256 + 224" using lt by (simp add: byte_or)
      have "(?n div 256 + 14 * 16) mod 16 = ?n div 256 mod 16" by (rule mod_mult_self1)
      then have m: "(?n div 256 + 224) mod 16 = ?n div 256" using lt by simp
      have l: "LP_ENCODING_12BIT_STR_LEN (str_body s) 0 = Some ?n"
        unfolding b using h m by (simp add: LP_ENCODING_12BIT_STR_LEN_def rd_byte_def byte_mask)
      show ?thesis
        using 2 h lt l
        by (simp add: body_ok_def lpCurrentEncodedSizeUnsafe_def lpGet_def lpGetWithSize_def byte_eof)
          (simp add: b rd_byte_def str_header_def)
    next
      case 3
      have b: "str_body s = 0xF0 # nat_le 4 ?n @ s" using 3 by (simp add: str_body_def str_header_def)
      have l: "LP_ENCODING_32BIT_STR_LEN (str_body s) 0 = Some ?n"
        using assms by (simp add: b LP_ENCODING_32BIT_STR_LEN_def rd_def le_nat_nat_le)
      have w: "u32 (5 + int ?n) = 5 + ?n" using assms by (simp add: u32_def nat_add_distrib)
      show ?thesis
        using 3 l w assms
        by (simp add: body_ok_def lpCurrentEncodedSizeUnsafe_def lpGet_def lpGetWithSize_def byte_eof)
          (simp add: b rd_byte_def str_header_def)
    qed
  qed
  then show "body_ok (str_body s)" "lpGet (str_body s) 0 = Some (LpString (length (str_header ?n)) ?n)" by simp_all
qed

end
