(* ===== verification/Listpack_Rep.thy ===== *)
theory Listpack_Rep
  imports Listpack_Enc
begin

text \<open>
  What a buffer represents as a listpack: the bodies of its entries, in order. On such buffers the traversal in both
  directions, the length and seeking never fail an assertion and compute what they should.
\<close>

subsection \<open>Representation\<close>

definition lp_total :: "buffer list \<Rightarrow> nat" where
  "lp_total es = 7 + length (concat (map lp_entry es))"

definition lp_pos :: "buffer list \<Rightarrow> nat \<Rightarrow> nat" where
  "lp_pos es i = 6 + length (concat (map lp_entry (take i es)))"

text \<open>The number of elements in the header is right or unknown.\<close>

definition num_ok :: "buffer list \<Rightarrow> nat \<Rightarrow> bool" where
  "num_ok es num \<longleftrightarrow> num = 65535 \<or> num < 65535 \<and> num = length es"

definition lp_bytes_of :: "nat \<Rightarrow> buffer list \<Rightarrow> buffer" where
  "lp_bytes_of num es = nat_le 4 (lp_total es) @ nat_le 2 num @ concat (map lp_entry es) @ [LP_EOF]"

definition lp_rep :: "buffer \<Rightarrow> buffer list \<Rightarrow> bool" where
  "lp_rep lp es \<longleftrightarrow> (\<exists>num slack. lp = lp_bytes_of num es @ slack \<and> num_ok es num) \<and>
     list_all body_ok es \<and> lp_total es < 2 ^ 32"

lemma lp_repE:
  assumes "lp_rep lp es"
  obtains num slack where "lp = lp_bytes_of num es @ slack" "num_ok es num" "list_all body_ok es" "lp_total es < 2 ^ 32"
  using assms by (auto simp: lp_rep_def)

lemma lp_bytes_length [simp]: "length (lp_bytes_of num es) = lp_total es"
  by (simp add: lp_bytes_of_def lp_total_def)

lemma entry_length: "length (lp_entry b) = length b + length (lpEncodeBacklen (length b))"
  by (simp add: lp_entry_def)

lemma entry_length_ge: "0 < length (lp_entry b)"
  using backlen_bounds(1) [of "length b"] unfolding entry_length by linarith

lemma lp_pos_0 [simp]: "lp_pos es 0 = 6"
  by (simp add: lp_pos_def)

lemma lp_pos_Suc: "i < length es \<Longrightarrow> lp_pos es (Suc i) = lp_pos es i + length (lp_entry (es ! i))"
  by (simp add: lp_pos_def take_Suc_conv_app_nth)

lemma lp_pos_end: "lp_pos es (length es) = lp_total es - 1"
  by (simp add: lp_pos_def lp_total_def)

lemma lp_pos_mono: "i \<le> j \<Longrightarrow> lp_pos es i \<le> lp_pos es j"
proof -
  assume "i \<le> j"
  then have "take j es = take i es @ drop i (take j es)" by (metis append_take_drop_id min.absorb1 take_take)
  then show ?thesis by (metis (no_types, lifting) add_left_mono concat_append le_add1 length_append lp_pos_def map_append)
qed

lemma lp_pos_less: "i < length es \<Longrightarrow> lp_pos es i < lp_total es - 1"
  using lp_pos_mono [of "Suc i" "length es" es] lp_pos_Suc [of i es] lp_pos_end [of es] entry_length_ge [of "es ! i"] by linarith

lemma lp_pos_ge: "6 \<le> lp_pos es i"
  by (simp add: lp_pos_def)

lemma lp_total_ge: "length es \<le> lp_total es"
proof -
  have "length es \<le> length (concat (map lp_entry es))"
  proof (induction es)
    case (Cons b es)
    moreover have "length (concat (map lp_entry (b # es))) = length (lp_entry b) + length (concat (map lp_entry es))" by simp
    ultimately show ?case using entry_length_ge [of b] by (simp only: list.size)
  qed simp
  then show ?thesis by (simp add: lp_total_def)
qed

text \<open>The parts of the buffer around one entry.\<close>

lemma lp_split:
  assumes "i < length es"
  shows "\<exists>pre rest. lp_bytes_of num es = pre @ lp_entry (es ! i) @ rest \<and> length pre = lp_pos es i \<and> rest \<noteq> []"
proof -
  have "concat (map lp_entry es) = concat (map lp_entry (take i es)) @ lp_entry (es ! i) @ concat (map lp_entry (drop (Suc i) es))"
    by (metis assms concat.simps(2) concat_append id_take_nth_drop list.simps(9) map_append)
  then show ?thesis
    by (intro exI [of _ "nat_le 4 (lp_total es) @ nat_le 2 num @ concat (map lp_entry (take i es))"]
        exI [of _ "concat (map lp_entry (drop (Suc i) es)) @ [LP_EOF]"])
      (simp add: lp_bytes_of_def lp_pos_def)
qed

lemma lp_header:
  assumes "lp_rep lp es"
  shows "lpGetTotalBytes lp = Some (lp_total es)" and "lpBytes lp = Some (lp_total es)"
    and "\<exists>num. lpGetNumElements lp = Some num \<and> num_ok es num" and "lp_total es \<le> length lp"
    and "rd_byte lp (lp_total es - 1) = Some LP_EOF"
proof -
  obtain num slack where lp: "lp = lp_bytes_of num es @ slack" "num_ok es num" "lp_total es < 2 ^ 32"
    using lp_repE [OF assms] .
  show t: "lpGetTotalBytes lp = Some (lp_total es)"
    using lp(3) rd_append [of 0 "[]" 4 "nat_le 4 (lp_total es)"] unfolding lp(1) lp_bytes_of_def
    by (simp add: lpGetTotalBytes_def le_nat_nat_le)
  then show "lpBytes lp = Some (lp_total es)" by (simp add: lpBytes_def)
  have "num < 65536" using lp(2) by (auto simp: num_ok_def)
  then have "lpGetNumElements lp = Some num"
    using rd_append [of 4 "nat_le 4 (lp_total es)" 2 "nat_le 2 num"] unfolding lp(1) lp_bytes_of_def
    by (simp add: lpGetNumElements_def le_nat_nat_le)
  then show "\<exists>num. lpGetNumElements lp = Some num \<and> num_ok es num" using lp(2) by blast
  show "lp_total es \<le> length lp" by (simp add: lp(1))
  have "rd_byte ((nat_le 4 (lp_total es) @ nat_le 2 num @ concat (map lp_entry es)) @ LP_EOF # slack) (lp_total es - 1) = Some LP_EOF"
    by (rule rd_byte_append) (simp add: lp_total_def)
  then show "rd_byte lp (lp_total es - 1) = Some LP_EOF" by (simp add: lp(1) lp_bytes_of_def)
qed

subsection \<open>One entry\<close>

lemma entry_at:
  assumes "lp_rep lp es" and "i < length es"
  obtains pre rest where "lp = pre @ es ! i @ lpEncodeBacklen (length (es ! i)) @ rest" "length pre = lp_pos es i"
    "body_ok (es ! i)" "rest \<noteq> []"
proof -
  obtain num slack where lp: "lp = lp_bytes_of num es @ slack" "list_all body_ok es" using lp_repE [OF assms(1)] .
  moreover obtain pre rest where "lp_bytes_of num es = pre @ lp_entry (es ! i) @ rest" "length pre = lp_pos es i" "rest \<noteq> []"
    using lp_split [OF assms(2)] by blast
  ultimately show ?thesis using that [of pre "rest @ slack"] assms(2) by (auto simp: lp_entry_def list_all_length)
qed

lemma read_entry:
  assumes "lp_rep lp es" and "i < length es"
  shows "lpCurrentEncodedSizeUnsafe lp (lp_pos es i) = Some (length (es ! i))"
    and "rd_byte lp (lp_pos es i) = Some (hd (es ! i))" and "hd (es ! i) \<noteq> LP_EOF"
    and "lpSkip lp (lp_pos es i) = Some (lp_pos es (Suc i))"
    and "lpDecodeBacklen lp (lp_pos es (Suc i) - 1) = Some (length (es ! i))"
proof -
  obtain pre rest where e: "lp = pre @ es ! i @ lpEncodeBacklen (length (es ! i)) @ rest" "length pre = lp_pos es i"
    "body_ok (es ! i)" using entry_at [OF assms] .
  have ok: "es ! i \<noteq> []" "hd (es ! i) \<noteq> LP_EOF" "length (es ! i) < 2 ^ 32"
    "lpCurrentEncodedSizeUnsafe (es ! i) 0 = Some (length (es ! i))"
    using e(3) by (simp_all add: body_ok_def)
  show s: "lpCurrentEncodedSizeUnsafe lp (lp_pos es i) = Some (length (es ! i))"
    using encoded_size_inside [OF ok(4), of pre] e(1,2) by simp
  show "rd_byte lp (lp_pos es i) = Some (hd (es ! i))"
    using e(1,2) ok(1) rd_byte_append [of "lp_pos es i" pre "hd (es ! i)"] by (metis append_Cons list.collapse)
  show "hd (es ! i) \<noteq> LP_EOF" by (rule ok(2))
  show "lpSkip lp (lp_pos es i) = Some (lp_pos es (Suc i))"
    using s by (simp add: lpSkip_def lp_pos_Suc [OF assms(2)] entry_length)
  show "lpDecodeBacklen lp (lp_pos es (Suc i) - 1) = Some (length (es ! i))"
    using decode_backlen [OF ok(3), of "pre @ es ! i" rest] e(1,2) lp_pos_Suc [OF assms(2)] entry_length [of "es ! i"]
    by (simp add: add.assoc)
qed

lemma u64_small: "0 \<le> x \<Longrightarrow> x < 18446744073709551616 \<Longrightarrow> u64 x = nat x"
  by (simp add: u64_def)

lemma validate_entry:
  assumes r: "lp_rep lp es" and i: "i < length es"
  shows "lpValidateNext lp (Some (lp_pos es i)) (lp_total es) = Some (True, Some (lp_pos es (Suc i)))"
proof -
  note e = read_entry [OF r i]
  let ?b = "es ! i"
  have ok: "body_ok ?b" "length ?b < 2 ^ 32" using entry_at [OF r i] by (auto simp: body_ok_def)
  note sb = body_size_bytes [OF ok(1)]
  have p: "lp_pos es (Suc i) = lp_pos es i + (length ?b + length (lpEncodeBacklen (length ?b)))"
    using lp_pos_Suc [OF i] by (simp add: entry_length)
  have le: "lp_pos es (Suc i) \<le> lp_total es - 1" using lp_pos_mono [of "Suc i" "length es" es] i by (simp add: lp_pos_end)
  have lt: "7 \<le> lp_total es" by (simp add: lp_total_def)
  have o: "\<not> OUT_OF_RANGE (lp_total es) (lp_pos es i)" "\<not> OUT_OF_RANGE (lp_total es) (lp_pos es (Suc i))"
    "\<not> OUT_OF_RANGE (lp_total es) (lp_pos es i + lpCurrentEncodedSizeBytes (hd ?b))"
    using le lt p sb(2) lp_pos_ge [of es i] backlen_bounds(1) [of "length ?b"] by (auto simp: OUT_OF_RANGE_def)
  have u: "u64 (int (length ?b) + int (length (lpEncodeBacklen (length ?b)))) = length ?b + length (lpEncodeBacklen (length ?b))"
    using ok(2) backlen_bounds(2) [of "length ?b"] by (subst u64_small) (auto simp: nat_add_distrib)
  show ?thesis
    using o e sb(1) u by (simp add: lpValidateNext_def Let_def p)
qed

subsection \<open>Traversal\<close>

lemma lp_valid: "lp_rep lp es \<Longrightarrow> i < length es \<Longrightarrow> lpAssertValidEntry lp (lp_total es) (lp_pos es i) = Some ()"
  by (simp add: lpAssertValidEntry_def validate_entry)

lemma eof_at_end:
  assumes "lp_rep lp es"
  shows "rd_byte lp (lp_pos es (length es)) = Some LP_EOF"
  using lp_header(5) [OF assms] by (simp add: lp_pos_end)

lemma next_entry:
  assumes r: "lp_rep lp es" and i: "i < length es"
  shows "lpNext lp (lp_pos es i) = Some (if Suc i < length es then Some (lp_pos es (Suc i)) else None)"
proof (cases "Suc i < length es")
  case True
  then show ?thesis
    using read_entry [OF r i] read_entry(2,3) [OF r True] lp_header(2) [OF r] lp_valid [OF r True] by (simp add: lpNext_def)
next
  case False
  then have "Suc i = length es" using i by simp
  then show ?thesis using read_entry(4) [OF r i] eof_at_end [OF r] by (simp add: lpNext_def)
qed

lemma prev_entry:
  assumes r: "lp_rep lp es" and i: "i \<le> length es"
  shows "lpPrev lp (lp_pos es i) = Some (if i = 0 then None else Some (lp_pos es (i - 1)))"
proof (cases i)
  case 0
  then show ?thesis by (simp add: lpPrev_def)
next
  case (Suc j)
  then have j: "j < length es" using i by simp
  let ?b = "es ! j"
  have p: "lp_pos es (Suc j) = lp_pos es j + (length ?b + length (lpEncodeBacklen (length ?b)))"
    using lp_pos_Suc [OF j] by (simp add: entry_length)
  have "length ?b < 2 ^ 32" using entry_at [OF r j] by (auto simp: body_ok_def)
  then have u: "u64 (int (length ?b) + int (length (lpEncodeBacklen (length ?b)))) = length ?b + length (lpEncodeBacklen (length ?b))"
    using backlen_bounds(2) [of "length ?b"] by (subst u64_small) (auto simp: nat_add_distrib)
  have q: "int (lp_pos es (Suc j)) - (int (length ?b) + int (length (lpEncodeBacklen (length ?b)))) = int (lp_pos es j)"
    unfolding p by simp
  have le: "length ?b + length (lpEncodeBacklen (length ?b)) \<le> lp_pos es (Suc j)" unfolding p by simp
  have ne: "lp_pos es (Suc j) \<noteq> 6" "lp_pos es (Suc j) \<noteq> 0"
    unfolding p using lp_pos_ge [of es j] backlen_bounds(1) [of "length ?b"] by linarith+
  show ?thesis
    using Suc ne read_entry(5) [OF r j] u lp_header(2) [OF r] lp_valid [OF r j] by (simp add: lpPrev_def Let_def q le)
qed

lemma first_entry:
  assumes r: "lp_rep lp es"
  shows "lpFirst lp = Some (if es = [] then None else Some (lp_pos es 0))"
proof (cases "es = []")
  case True
  then show ?thesis using eof_at_end [OF r] by (simp add: lpFirst_def)
next
  case False
  then have i: "0 < length es" by simp
  then show ?thesis using read_entry(2,3) [OF r i] lp_header(2) [OF r] lp_valid [OF r i] False by (simp add: lpFirst_def)
qed

lemma last_entry:
  assumes r: "lp_rep lp es"
  shows "lpLast lp = Some (if es = [] then None else Some (lp_pos es (length es - 1)))"
proof -
  have "lp_total es \<noteq> 0" by (simp add: lp_total_def)
  then show ?thesis using lp_header(1) [OF r] prev_entry [OF r, of "length es"] by (simp add: lpLast_def lp_pos_end)
qed

subsection \<open>Length\<close>

lemma count_loop_spec:
  assumes r: "lp_rep lp es" and "i \<le> length es" and "n + (length es - i) < 2 ^ 32"
  shows "count_loop lp (if i < length es then Some (lp_pos es i) else None) n = Some (n + (length es - i))"
  using assms(2,3)
proof (induction "length es - i" arbitrary: i n)
  case 0
  then show ?case by (subst count_loop.simps) simp
next
  case (Suc m)
  then have i: "i < length es" by simp
  have "count_loop lp (if Suc i < length es then Some (lp_pos es (Suc i)) else None) (n + 1) = Some (n + 1 + (length es - Suc i))"
    using Suc.hyps(2) Suc.prems i by (intro Suc.hyps(1)) auto
  moreover have "u32 (int n + 1) = n + 1" using Suc.prems(2) i by (simp add: u32_def nat_add_distrib)
  ultimately show ?case using i next_entry [OF r i] by (subst count_loop.simps) simp
qed

lemma set_num_rep:
  assumes "lp_rep lp es" and "num_ok es n"
  shows "\<exists>lp'. lpSetNumElements lp n = Some lp' \<and> lp_rep lp' es \<and> length lp' = length lp \<and> lpGetNumElements lp' = Some n"
proof -
  obtain num slack where lp: "lp = lp_bytes_of num es @ slack" "list_all body_ok es" "lp_total es < 2 ^ 32"
    using lp_repE [OF assms(1)] .
  define lp' where "lp' = lp_bytes_of n es @ slack"
  have "lpSetNumElements lp n = Some lp'"
    using wr_append [of 4 "nat_le 4 (lp_total es)" "nat_le 2 num" "nat_le 2 n"] unfolding lp(1) lp'_def lp_bytes_of_def
    by (simp add: lpSetNumElements_def)
  moreover have "lp_rep lp' es" using lp assms(2) by (auto simp: lp_rep_def lp'_def)
  moreover have "n < 65536" using assms(2) by (auto simp: num_ok_def)
  then have "lpGetNumElements lp' = Some n"
    using rd_append [of 4 "nat_le 4 (lp_total es)" 2 "nat_le 2 n"] unfolding lp'_def lp_bytes_of_def
    by (simp add: lpGetNumElements_def le_nat_nat_le)
  ultimately show ?thesis using lp(1) by (auto simp: lp'_def)
qed

lemma length_spec:
  assumes r: "lp_rep lp es"
  shows "\<exists>lp'. lpLength lp = Some (lp', length es) \<and> lp_rep lp' es \<and> length lp' = length lp"
proof -
  obtain num where num: "lpGetNumElements lp = Some num" "num_ok es num" using lp_header(3) [OF r] by blast
  have small: "length es < 2 ^ 32" using lp_total_ge [of es] lp_repE [OF r] by (metis le_less_trans)
  show ?thesis
  proof (cases "num = 65535")
    case False
    then show ?thesis using num r by (auto simp: lpLength_def num_ok_def)
  next
    case True
    have c: "count_loop lp (if es = [] then None else Some (lp_pos es 0)) 0 = Some (length es)"
      using count_loop_spec [OF r, of 0 0] small by (cases es) simp_all
    show ?thesis
    proof (cases "length es < 65535")
      case less: True
      then obtain lp' where "lpSetNumElements lp (length es) = Some lp'" "lp_rep lp' es" "length lp' = length lp"
        using set_num_rep [OF r, of "length es"] by (auto simp: num_ok_def)
      then show ?thesis using True num(1) c first_entry [OF r] less by (simp add: lpLength_def)
    next
      case False
      then show ?thesis using True num(1) c first_entry [OF r] r by (simp add: lpLength_def)
    qed
  qed
qed

subsection \<open>Seeking\<close>

lemma seek_forward_spec:
  assumes r: "lp_rep lp es" and "i \<le> length es"
  shows "seek_forward lp k (if i < length es then Some (lp_pos es i) else None) =
     Some (if i + k < length es then Some (lp_pos es (i + k)) else None)"
  using assms(2)
proof (induction k arbitrary: i)
  case (Suc k)
  show ?case
  proof (cases "i < length es")
    case True
    then show ?thesis using next_entry [OF r True] Suc.IH [of "Suc i"] by simp
  qed simp
qed simp

lemma seek_backward_spec:
  assumes r: "lp_rep lp es" and "i \<le> length es"
  shows "seek_backward lp k (if i = 0 then None else Some (lp_pos es (i - 1))) =
     Some (if k < i then Some (lp_pos es (i - 1 - k)) else None)"
  using assms(2)
proof (induction k arbitrary: i)
  case (Suc k)
  show ?case
  proof (cases i)
    case (Suc j)
    then show ?thesis using prev_entry [OF r, of j] Suc.prems Suc.IH [of j] by simp
  qed simp
qed simp

text \<open>The index that a negative number counts from the end.\<close>

definition seek_index :: "buffer list \<Rightarrow> int \<Rightarrow> int" where
  "seek_index es index = (if index < 0 then int (length es) + index else index)"

lemma seek_spec:
  assumes r: "lp_rep lp es"
  shows "lpSeek lp index = Some (if 0 \<le> seek_index es index \<and> seek_index es index < int (length es)
    then Some (lp_pos es (nat (seek_index es index))) else None)"
proof -
  let ?n = "length es"
  obtain num where num: "lpGetNumElements lp = Some num" "num_ok es num" using lp_header(3) [OF r] by blast
  have f: "lpFirst lp = Some (if 0 < ?n then Some (lp_pos es 0) else None)" using first_entry [OF r] by simp
  have l: "lpLast lp = Some (if ?n = 0 then None else Some (lp_pos es (?n - 1)))" using last_entry [OF r] by simp
  have fw: "seek_forward lp k (if 0 < ?n then Some (lp_pos es 0) else None) = Some (if k < ?n then Some (lp_pos es k) else None)" for k
    using seek_forward_spec [OF r, of 0 k] by simp
  have bw: "seek_backward lp k (if ?n = 0 then None else Some (lp_pos es (?n - 1))) = Some (if k < ?n then Some (lp_pos es (?n - 1 - k)) else None)" for k
    using seek_backward_spec [OF r, of ?n k] by simp
  show ?thesis
  proof (cases "num = 65535")
    case True
    show ?thesis
    proof (cases "index < 0")
      case neg: True
      have "nat (- 1 - index) < ?n \<longleftrightarrow> 0 \<le> int ?n + index" using neg by linarith
      moreover have "?n - 1 - nat (- 1 - index) = nat (int ?n + index)" using neg by linarith
      ultimately show ?thesis using True neg num(1) l bw [of "nat (- 1 - index)"] by (simp add: lpSeek_def seek_index_def Let_def)
    next
      case False
      have "nat index < ?n \<longleftrightarrow> index < int ?n" using False by linarith
      then show ?thesis using True False num(1) f fw [of "nat index"] by (simp add: lpSeek_def seek_index_def Let_def)
    qed
  next
    case False
    then have n: "num = ?n" using num(2) by (simp add: num_ok_def)
    let ?j = "seek_index es index"
    consider "?j < 0 \<or> int ?n \<le> ?j" | "0 \<le> ?j" "?j < int ?n" "?j > int (?n div 2)" | "0 \<le> ?j" "?j < int ?n" "\<not> ?j > int (?n div 2)"
      by linarith
    then show ?thesis
    proof cases
      case 1
      then show ?thesis using False num(1) n by (auto simp: lpSeek_def seek_index_def Let_def)
    next
      case 2
      have k: "nat (- 1 - (?j - int ?n)) < ?n" "?n - 1 - nat (- 1 - (?j - int ?n)) = nat ?j" using 2 by linarith+
      have "lpSeek lp index = Option.bind (lpLast lp) (seek_backward lp (nat (- 1 - (?j - int ?n))))"
        using 2 False num(1) n by (auto simp: lpSeek_def seek_index_def Let_def)
      then show ?thesis using 2 l bw [of "nat (- 1 - (?j - int ?n))"] k by simp
    next
      case 3
      have k: "nat ?j < ?n" using 3 by linarith
      have "lpSeek lp index = Option.bind (lpFirst lp) (seek_forward lp (nat ?j))"
        using 3 False num(1) n by (auto simp: lpSeek_def seek_index_def Let_def)
      then show ?thesis using 3 f fw [of "nat ?j"] k by simp
    qed
  qed
qed

end
