(* ===== verification/Listpack_Ops.thy ===== *)
theory Listpack_Ops
  imports Listpack_Rep
begin

text \<open>
  The operations that change a listpack, on what the buffer represents: insertion, replacement and deletion of one
  entry are those of a list, whatever the allocator does.
\<close>

subsection \<open>The body of an element\<close>

text \<open>Strings that are the decimal notation of a 64-bit integer are stored as integers.\<close>

definition canonical_body :: "buffer \<Rightarrow> buffer" where
  "canonical_body s = (case parse_int64 s of Some v \<Rightarrow> lpEncodeIntegerGetType v | None \<Rightarrow> str_body s)"

lemma lpStringToInt64_string2ll: "lpStringToInt64 s n = string2ll s n"
  by (simp add: lpStringToInt64_def string2ll_def eq_commute [of 0 n])

lemma lpStringToInt64_parse: "n \<le> length s \<Longrightarrow> lpStringToInt64 s n = Some (parse_int64 (take n s))"
  by (simp add: lpStringToInt64_string2ll string2ll_parse)

fun ele_body :: "lp_element \<Rightarrow> buffer" where
  "ele_body (EleStr s n) = canonical_body (take n s)"
| "ele_body (EleInt b) = b"
| "ele_body EleNone = []"

fun ele_ok :: "lp_element \<Rightarrow> bool" where
  "ele_ok (EleStr s n) \<longleftrightarrow> n \<le> length s \<and> n < 4294967291"
| "ele_ok (EleInt b) \<longleftrightarrow> (\<exists>v. is_int64 v \<and> b = lpEncodeIntegerGetType v)"
| "ele_ok EleNone \<longleftrightarrow> True"

lemma parse_int64_range: "parse_int64 s = Some v \<Longrightarrow> is_int64 v"
  by (simp add: parse_int64_iff)

lemma canonical_body_ok: "length s < 4294967291 \<Longrightarrow> body_ok (canonical_body s)"
  by (auto simp: canonical_body_def int_body_get str_body_get dest: parse_int64_range split: option.split)

lemma ele_body_ok: "ele_ok ele \<Longrightarrow> ele \<noteq> EleNone \<Longrightarrow> body_ok (ele_body ele)"
  by (cases ele) (auto simp: int_body_get canonical_body_ok)

lemma insert_encoding_spec:
  assumes "ele_ok ele"
  shows "\<exists>intenc. insert_encoding ele = Some (intenc, length (ele_body ele)) \<and>
     (\<forall>lp dst backlen. dst + length (ele_body ele) + length backlen \<le> length lp \<longrightarrow> ele \<noteq> EleNone \<longrightarrow>
        insert_store lp dst ele intenc (length (ele_body ele)) backlen = wr lp dst (ele_body ele @ backlen))"
proof (cases ele)
  case (EleStr s n)
  then have n: "n \<le> length s" using assms by simp
  show ?thesis
  proof (cases "parse_int64 (take n s)")
    case None
    then have b: "ele_body ele = str_body (take n s)" using EleStr by (simp add: canonical_body_def)
    have "insert_encoding ele = Some (None, length (ele_body ele))"
      using EleStr None n lpStringToInt64_parse [OF n]
      by (simp add: insert_encoding_def lpEncodeGetType_def canonical_body_def str_body_def str_header_length)
    moreover have "insert_store lp dst ele None (length (ele_body ele)) backlen = wr lp dst (ele_body ele @ backlen)"
      if "dst + length (ele_body ele) + length backlen \<le> length lp" for lp dst backlen
      using that [unfolded b] EleStr lpEncodeString_body [OF n, of dst lp] wr_twice [of dst "str_body (take n s)" backlen lp]
      unfolding b by (simp add: insert_store_def)
    ultimately show ?thesis by blast
  next
    case (Some v)
    then have b: "ele_body ele = lpEncodeIntegerGetType v" using EleStr by (simp add: canonical_body_def)
    have "insert_encoding ele = Some (Some (lpEncodeIntegerGetType v), length (ele_body ele))"
      using EleStr Some lpStringToInt64_parse [OF n] unfolding b by (simp add: insert_encoding_def lpEncodeGetType_def)
    moreover have "insert_store lp dst ele (Some (lpEncodeIntegerGetType v)) (length (ele_body ele)) backlen = wr lp dst (ele_body ele @ backlen)"
      if "dst + length (ele_body ele) + length backlen \<le> length lp" for lp dst backlen
      using that [unfolded b] EleStr wr_twice [of dst "lpEncodeIntegerGetType v" backlen lp] unfolding b by (simp add: insert_store_def)
    ultimately show ?thesis by blast
  qed
next
  case (EleInt b)
  then show ?thesis
    using wr_twice [of _ b] by (auto simp: insert_encoding_def insert_store_def)
qed (simp add: insert_encoding_def)

subsection \<open>Moving bytes\<close>

lemma memmove_gap:
  assumes "L \<le> length E + length S"
  shows "\<exists>X S'. memmove (A @ E @ B @ S) (length A + L) (length A + length E) (length B) = Some (A @ X @ B @ S') \<and>
     length X = L \<and> length X + length S' = length E + length S"
proof -
  define R where "R = E @ B @ S"
  have R: "length R = length E + length B + length S" by (simp add: R_def)
  have "rd (A @ R) (length A + length E) (length B) = Some B" by (simp add: rd_def R_def)
  moreover have "wr (A @ R) (length A + L) B = Some (A @ take L R @ B @ drop (L + length B) R)"
    using assms R by (simp add: wr_def add.assoc)
  moreover have "length (take L R) = L" "length (take L R) + length (drop (L + length B) R) = length E + length S"
    using assms R by simp_all
  ultimately show ?thesis
    unfolding R_def [symmetric] memmove_def
    by (intro exI [of _ "take L R"] exI [of _ "drop (L + length B) R"]) (simp del: length_take length_drop)
qed

lemma realloc_prefix: "length A \<le> n \<Longrightarrow> \<exists>S'. realloc al n (A @ S) = A @ S' \<and> n \<le> length (A @ S')"
proof -
  assume n: "length A \<le> n"
  have "take (length A) (realloc al n (A @ S)) = A" using take_realloc [of "length A" n "A @ S" al] n by simp
  then have "realloc al n (A @ S) = A @ drop (length A) (realloc al n (A @ S))"
    by (metis append_take_drop_id)
  then show ?thesis using length_realloc_ge [of n al "A @ S"] by metis
qed

text \<open>The final state: header, entries and terminator with the new counts.\<close>

lemma insert_finish:
  assumes lp: "lp = nat_le 4 t @ nat_le 2 num @ concat (map lp_entry es') @ LP_EOF # S" and num: "num_ok es num"
    and ok: "list_all body_ok es'" "lp_total es' < 2 ^ 32"
    and len: "length es' = (if whr \<noteq> LP_REPLACE then length es + 1 else if ele = EleNone then length es - 1 else length es)"
    and w: "ele = EleNone \<longrightarrow> whr = LP_REPLACE \<and> es \<noteq> []"
  shows "\<exists>lp'. Option.bind (insert_count lp whr ele) (\<lambda>lp. lpSetTotalBytes lp (lp_total es')) = Some lp' \<and> lp_rep lp' es'"
proof -
  have n: "num < 65536" using num by (auto simp: num_ok_def)
  have g: "lpGetNumElements lp = Some num"
    using n rd_append [of 4 "nat_le 4 t" 2 "nat_le 2 num"] by (simp add: lp lpGetNumElements_def le_nat_nat_le)
  define num' where "num' = (if num = 65535 then num else length es')"
  have ok': "num_ok es' num'" using num len w by (cases "es = []") (auto simp: num_ok_def num'_def)
  have c: "insert_count lp whr ele = Some (nat_le 4 t @ nat_le 2 num' @ concat (map lp_entry es') @ LP_EOF # S)"
  proof (cases "num = 65535")
    case True
    then show ?thesis using g lp by (simp add: insert_count_def num'_def)
  next
    case False
    then have nl: "num = length es" "num < 65535" using num by (auto simp: num_ok_def)
    have wr: "lpSetNumElements lp m = Some (nat_le 4 t @ nat_le 2 m @ concat (map lp_entry es') @ LP_EOF # S)" for m
      using wr_append [of 4 "nat_le 4 t" "nat_le 2 num" "nat_le 2 m"] by (simp add: lp lpSetNumElements_def)
    have u: "ele = EleNone \<Longrightarrow> u32 (int (length es) - 1) = length es - 1"
      using w nl by (simp add: u32_def nat_diff_distrib Suc_leI of_nat_diff)
    show ?thesis using False g wr len w u nl(1) lp by (auto simp: insert_count_def num'_def)
  qed
  have "lpSetTotalBytes (nat_le 4 t @ nat_le 2 num' @ concat (map lp_entry es') @ LP_EOF # S) (lp_total es') = Some (lp_bytes_of num' es' @ S)"
    using wr_append [of 0 "[]" "nat_le 4 t" "nat_le 4 (lp_total es')"] by (simp add: lpSetTotalBytes_def lp_bytes_of_def)
  moreover have "lp_rep (lp_bytes_of num' es' @ S) es'" using ok ok' by (auto simp: lp_rep_def)
  ultimately show ?thesis using c by simp
qed

subsection \<open>Insertion, replacement and deletion\<close>

text \<open>The new entries: those before position \<open>i\<close>, the new body if there is one, and those from position \<open>j\<close> on.\<close>

definition spliced :: "buffer list \<Rightarrow> nat \<Rightarrow> nat \<Rightarrow> lp_element \<Rightarrow> buffer list" where
  "spliced es i j ele = take i es @ (if ele = EleNone then [] else [ele_body ele]) @ drop j es"

definition new_entry :: "lp_element \<Rightarrow> buffer" where
  "new_entry ele = (if ele = EleNone then [] else lp_entry (ele_body ele))"

lemma spliced_concat:
  "concat (map lp_entry (spliced es i j ele)) =
   concat (map lp_entry (take i es)) @ new_entry ele @ concat (map lp_entry (drop j es))"
  by (simp add: spliced_def new_entry_def)

lemma spliced_total:
  assumes "i \<le> length es" and "j = i \<or> j = Suc i \<and> i < length es"
  shows "lp_total (spliced es i j ele) + (lp_pos es j - lp_pos es i) = lp_total es + length (new_entry ele)"
proof -
  have "concat (map lp_entry es) = concat (map lp_entry (take j es)) @ concat (map lp_entry (drop j es))"
    by (metis append_take_drop_id concat_append map_append)
  then have "lp_total es = 1 + lp_pos es j + length (concat (map lp_entry (drop j es)))" by (simp add: lp_total_def lp_pos_def)
  moreover have "lp_total (spliced es i j ele) = 1 + lp_pos es i + length (new_entry ele) + length (concat (map lp_entry (drop j es)))"
    unfolding lp_total_def spliced_concat lp_pos_def by simp
  moreover have "lp_pos es i \<le> lp_pos es j" using assms(2) by (intro lp_pos_mono) auto
  ultimately show ?thesis by linarith
qed

lemma replaced_size:
  assumes r: "lp_rep lp es" and i: "i < length es"
  shows "u32 (int (length (es ! i)) + int (length (lpEncodeBacklen (length (es ! i))))) = lp_pos es (Suc i) - lp_pos es i"
    and "lp_pos es (Suc i) < lp_total es"
proof -
  have p: "lp_pos es (Suc i) = lp_pos es i + (length (es ! i) + length (lpEncodeBacklen (length (es ! i))))"
    using lp_pos_Suc [OF i] by (simp add: entry_length)
  show lt: "lp_pos es (Suc i) < lp_total es"
    using lp_pos_mono [of "Suc i" "length es" es] i lp_pos_end [of es] by (simp add: lp_total_def)
  moreover have "lp_total es < 2 ^ 32" using lp_repE [OF r] .
  ultimately have "length (es ! i) + length (lpEncodeBacklen (length (es ! i))) < 2 ^ 32" using p by linarith
  then have "int (length (es ! i)) + int (length (lpEncodeBacklen (length (es ! i)))) < 4294967296" by simp
  then show "u32 (int (length (es ! i)) + int (length (lpEncodeBacklen (length (es ! i))))) = lp_pos es (Suc i) - lp_pos es i"
    using p by (simp add: u32_def nat_add_distrib)
qed

text \<open>The steps of \<^verbatim>\<open>lpInsert\<close> after its size computation.\<close>

definition insert_tail :: "allocator \<Rightarrow> buffer \<Rightarrow> lp_element \<Rightarrow> lp_where \<Rightarrow> buffer option \<Rightarrow> nat \<Rightarrow> nat \<Rightarrow> nat \<Rightarrow> nat \<Rightarrow> nat \<Rightarrow>
    (buffer \<times> nat option) option option" where
  "insert_tail al lp ele whr intenc enclen poff old replaced_len new = do {
     let backlen = (if ele \<noteq> EleNone then lpEncodeBacklen enclen else []);
     let lp = (if new > old \<and> new > length lp then realloc al new lp else lp);
     lp \<leftarrow> memmove lp (poff + enclen + length backlen) (poff + replaced_len) (old - poff - replaced_len);
     let lp = (if new < old then realloc al new lp else lp);
     newp \<leftarrow> (if ele = EleNone then do { b \<leftarrow> rd_byte lp poff; Some (if b = LP_EOF then None else Some poff) }
             else Some (Some poff));
     lp \<leftarrow> insert_store lp poff ele intenc enclen backlen;
     lp \<leftarrow> insert_count lp whr ele;
     lp \<leftarrow> lpSetTotalBytes lp new;
     Some (Some (lp, newp))
   }"

lemma lpInsert_tail:
  assumes r: "lp_rep lp es" and i: "i \<le> length es" and j: "j = i \<or> j = Suc i \<and> i < length es"
    and ele: "ele_ok ele" "ele = EleNone \<longrightarrow> j = Suc i"
    and enc: "insert_encoding ele = Some (intenc, length (ele_body ele))"
  shows "lpInsert al lp ele (lp_pos es i) (if j = i then LP_BEFORE else LP_REPLACE) =
     (if lp_total (spliced es i j ele) > UINT32_MAX then Some None
      else insert_tail al lp ele (if j = i then LP_BEFORE else LP_REPLACE) intenc (length (ele_body ele)) (lp_pos es i) (lp_total es)
        (lp_pos es j - lp_pos es i) (lp_total (spliced es i j ele)))"
proof -
  have tot: "lp_total (spliced es i j ele) + (lp_pos es j - lp_pos es i) = lp_total es + length (new_entry ele)"
    by (rule spliced_total [OF i j])
  have ne: "length (new_entry ele) = length (ele_body ele) + length (if ele \<noteq> EleNone then lpEncodeBacklen (length (ele_body ele)) else [])"
    by (simp add: new_entry_def entry_length)
  have small: "lp_total es < 2 ^ 32" using lp_repE [OF r] .
  have bl: "length (ele_body ele) < 2 ^ 32" using ele_body_ok [OF ele(1)] by (cases "ele = EleNone") (auto simp: body_ok_def)
  have u: "u64 (int (lp_total es) + int (length (ele_body ele)) +
      int (length (if ele \<noteq> EleNone then lpEncodeBacklen (length (ele_body ele)) else [])) - int (lp_pos es j - lp_pos es i)) =
      lp_total (spliced es i j ele)"
  proof -
    have "int (lp_total es) + int (length (ele_body ele)) +
      int (length (if ele \<noteq> EleNone then lpEncodeBacklen (length (ele_body ele)) else [])) - int (lp_pos es j - lp_pos es i) =
      int (lp_total (spliced es i j ele))" using tot ne by linarith
    moreover have "int (lp_total (spliced es i j ele)) < 18446744073709551616"
      using tot small bl ne backlen_bounds(2) [of "length (ele_body ele)"] by (simp split: if_splits)
    ultimately show ?thesis by (simp only: u64_small of_nat_0_le_iff nat_int)
  qed
  show ?thesis
  proof (cases "j = i")
    case True
    then have "ele \<noteq> EleNone" using ele(2) by auto
    then show ?thesis
      using True enc lp_header(1) [OF r] u by (simp add: lpInsert_def insert_tail_def Let_def cong: if_cong)
  next
    case False
    then have j: "j = Suc i" "i < length es" using j by auto
    have "lp_pos es i + (lp_pos es (Suc i) - lp_pos es i) < lp_total es"
      using replaced_size(2) [OF r j(2)] lp_pos_mono [of i "Suc i" es] by simp
    then show ?thesis
      using j enc lp_header(1) [OF r] read_entry(1) [OF r j(2)] replaced_size(1) [OF r j(2)] u lp_pos_ge [of es i]
      by (cases "ele = EleNone") (simp_all add: lpInsert_def insert_tail_def Let_def add.assoc cong: if_cong)
  qed
qed

lemma spliced_ok:
  assumes "list_all body_ok es" and "ele_ok ele"
  shows "list_all body_ok (spliced es i j ele)"
  using assms ele_body_ok [OF assms(2)] set_take_subset [of i es] set_drop_subset [of j es]
  by (auto simp: spliced_def list_all_iff)

lemma insert_tail_spec:
  assumes r: "lp_rep lp es" and i: "i \<le> length es" and j: "j = i \<or> j = Suc i \<and> i < length es"
    and ele: "ele_ok ele" "ele = EleNone \<longrightarrow> j = Suc i"
    and enc: "insert_encoding ele = Some (intenc, length (ele_body ele))"
      "\<forall>lp dst backlen. dst + length (ele_body ele) + length backlen \<le> length lp \<longrightarrow> ele \<noteq> EleNone \<longrightarrow>
        insert_store lp dst ele intenc (length (ele_body ele)) backlen = wr lp dst (ele_body ele @ backlen)"
    and fits: "lp_total (spliced es i j ele) \<le> UINT32_MAX"
  shows "\<exists>lp'. insert_tail al lp ele (if j = i then LP_BEFORE else LP_REPLACE) intenc (length (ele_body ele)) (lp_pos es i) (lp_total es)
      (lp_pos es j - lp_pos es i) (lp_total (spliced es i j ele)) =
      Some (Some (lp', if ele = EleNone \<and> j = length es then None else Some (lp_pos es i))) \<and> lp_rep lp' (spliced es i j ele)"
proof -
  obtain num slack where lp: "lp = lp_bytes_of num es @ slack" "num_ok es num" "list_all body_ok es" "lp_total es < 2 ^ 32"
    using lp_repE [OF r] .
  let ?new = "lp_total (spliced es i j ele)" and ?old = "lp_total es"
  let ?bl = "if ele \<noteq> EleNone then lpEncodeBacklen (length (ele_body ele)) else []"
  define A where "A = nat_le 4 ?old @ nat_le 2 num @ concat (map lp_entry (take i es))"
  define E where "E = concat (map lp_entry (drop i (take j es)))"
  define B where "B = concat (map lp_entry (drop j es)) @ [LP_EOF]"
  have lA: "length A = lp_pos es i" by (simp add: A_def lp_pos_def)
  have lE: "length E = lp_pos es j - lp_pos es i"
    using j lp_pos_Suc [of i es] by (auto simp: E_def take_Suc_conv_app_nth lp_pos_def)
  have bytes: "lp_bytes_of num es = A @ E @ B"
  proof -
    have "es = take i es @ drop i (take j es) @ drop j es" using j i by (auto simp: take_Suc_conv_app_nth Cons_nth_drop_Suc)
    then have "concat (map lp_entry es) = concat (map lp_entry (take i es)) @ E @ concat (map lp_entry (drop j es))"
      unfolding E_def by (metis concat_append map_append)
    then show ?thesis by (simp add: lp_bytes_of_def A_def B_def)
  qed
  have lB: "length B = ?old - lp_pos es i - (lp_pos es j - lp_pos es i)"
    using arg_cong [OF bytes, of length] lA lE by simp
  have tot: "?new + length E = ?old + length (new_entry ele)" using spliced_total [OF i j] lE by simp
  have ne: "new_entry ele = ele_body ele @ ?bl" by (simp add: new_entry_def lp_entry_def)
  let ?lp1 = "if ?new > ?old \<and> ?new > length lp then realloc al ?new lp else lp"
  obtain S1 where S1: "?lp1 = A @ E @ B @ S1" "?new \<le> length (A @ E @ B @ S1)"
  proof (cases "?new > ?old \<and> ?new > length lp")
    case True
    then obtain S where "realloc al ?new lp = lp_bytes_of num es @ S" "?new \<le> length (lp_bytes_of num es @ S)"
      using realloc_prefix [of "lp_bytes_of num es" ?new al slack] lp(1) by auto
    then show ?thesis using that [of S] True by (simp add: bytes)
  next
    case False
    then have "?new \<le> length lp" using lp(1) by auto
    then show ?thesis using that [of slack] False by (simp add: lp(1) bytes)
  qed
  have old: "length A + length E + length B = ?old" using arg_cong [OF bytes, of length] by simp
  have L: "length (new_entry ele) \<le> length E + length S1" using S1(2) tot old by simp
  obtain X S2 where X: "memmove (A @ E @ B @ S1) (length A + length (new_entry ele)) (length A + length E) (length B) = Some (A @ X @ B @ S2)"
    "length X = length (new_entry ele)" using memmove_gap [OF L] by blast
  have new: "length (A @ X @ B) = ?new" using X(2) tot old by simp
  obtain S3 where S3: "(if ?new < ?old then realloc al ?new (A @ X @ B @ S2) else A @ X @ B @ S2) = A @ X @ B @ S3"
    using realloc_prefix [of "A @ X @ B" ?new al S2] new by (cases "?new < ?old") auto
  have sp: "A @ new_entry ele @ B @ S3 = nat_le 4 ?old @ nat_le 2 num @ concat (map lp_entry (spliced es i j ele)) @ LP_EOF # S3"
    by (simp add: A_def B_def spliced_concat)
  have len: "length (spliced es i j ele) = (if (if j = i then LP_BEFORE else LP_REPLACE) \<noteq> LP_REPLACE then length es + 1
      else if ele = EleNone then length es - 1 else length es)"
    using i j ele(2) by (auto simp: spliced_def)
  have fit: "?new < 2 ^ 32" using fits by simp
  have w: "ele = EleNone \<longrightarrow> (if j = i then LP_BEFORE else LP_REPLACE) = LP_REPLACE \<and> es \<noteq> []" using ele(2) j by auto
  obtain lp' where fin: "Option.bind (insert_count (A @ new_entry ele @ B @ S3) (if j = i then LP_BEFORE else LP_REPLACE) ele)
      (\<lambda>lp. lpSetTotalBytes lp ?new) = Some lp'" "lp_rep lp' (spliced es i j ele)"
    using insert_finish [OF sp lp(2) spliced_ok [OF lp(3) ele(1)] fit len w] by blast
  obtain lp5 where cnt: "insert_count (A @ new_entry ele @ B @ S3) (if j = i then LP_BEFORE else LP_REPLACE) ele = Some lp5"
    "lpSetTotalBytes lp5 ?new = Some lp'" using fin(1) by (auto simp: bind_eq_Some_conv)
  have st: "insert_store (A @ X @ B @ S3) (lp_pos es i) ele intenc (length (ele_body ele)) ?bl = Some (A @ new_entry ele @ B @ S3)"
  proof (cases "ele = EleNone")
    case True
    then show ?thesis using X(2) by (simp add: insert_store_def new_entry_def)
  next
    case False
    then have "insert_store (A @ X @ B @ S3) (lp_pos es i) ele intenc (length (ele_body ele)) ?bl = wr (A @ X @ B @ S3) (lp_pos es i) (new_entry ele)"
      using enc(2) X(2) lA ne by simp
    also have "\<dots> = Some (A @ new_entry ele @ B @ S3)" using lA X(2) by (intro wr_append) auto
    finally show ?thesis .
  qed
  have nb: "rd_byte (A @ X @ B @ S3) (lp_pos es i) = Some (hd B)" "hd B = LP_EOF \<longleftrightarrow> j = length es" if "ele = EleNone"
  proof -
    have "X = []" using that X(2) by (simp add: new_entry_def)
    moreover have "B = hd B # tl B" by (simp add: B_def)
    ultimately show "rd_byte (A @ X @ B @ S3) (lp_pos es i) = Some (hd B)"
      using rd_byte_append [of "lp_pos es i" A "hd B" "tl B @ S3"] lA by (metis append_Cons append_Nil)
    show "hd B = LP_EOF \<longleftrightarrow> j = length es"
    proof (cases "j < length es")
      case True
      then have "drop j es = es ! j # drop (Suc j) es" by (simp add: Cons_nth_drop_Suc)
      moreover have "body_ok (es ! j)" using lp(3) True by (simp add: list_all_length)
      ultimately show ?thesis using True by (auto simp: B_def lp_entry_def body_ok_def hd_append)
    next
      case False
      then show ?thesis using j i by (auto simp: B_def)
    qed
  qed
  have pos: "lp_pos es i + length (ele_body ele) + length ?bl = length A + length (new_entry ele)"
    "lp_pos es i + (lp_pos es j - lp_pos es i) = length A + length E" using lA lE ne by simp_all
  show ?thesis
    unfolding insert_tail_def Let_def S1(1) pos lB [symmetric] X(1) Option.bind.simps S3
    using st cnt fin(2) nb by (cases "ele = EleNone") auto
qed

lemma lpInsert_spec:
  assumes r: "lp_rep lp es" and i: "i \<le> length es" and j: "j = i \<or> j = Suc i \<and> i < length es"
    and ele: "ele_ok ele" "ele = EleNone \<longrightarrow> j = Suc i"
  shows "if lp_total (spliced es i j ele) > UINT32_MAX
    then lpInsert al lp ele (lp_pos es i) (if j = i then LP_BEFORE else LP_REPLACE) = Some None
    else \<exists>lp'. lpInsert al lp ele (lp_pos es i) (if j = i then LP_BEFORE else LP_REPLACE) =
      Some (Some (lp', if ele = EleNone \<and> j = length es then None else Some (lp_pos es i))) \<and> lp_rep lp' (spliced es i j ele)"
proof -
  obtain intenc where enc: "insert_encoding ele = Some (intenc, length (ele_body ele))"
    "\<forall>lp dst backlen. dst + length (ele_body ele) + length backlen \<le> length lp \<longrightarrow> ele \<noteq> EleNone \<longrightarrow>
        insert_store lp dst ele intenc (length (ele_body ele)) backlen = wr lp dst (ele_body ele @ backlen)"
    using insert_encoding_spec [OF ele(1)] by blast
  show ?thesis
  proof (cases "lp_total (spliced es i j ele) > UINT32_MAX")
    case True
    then show ?thesis using lpInsert_tail [OF r i j ele enc(1)] by simp
  next
    case False
    then have "lp_total (spliced es i j ele) \<le> UINT32_MAX" by simp
    then show ?thesis
      using False lpInsert_tail [OF r i j ele enc(1)] insert_tail_spec [OF r i j ele enc, of al] by simp
  qed
qed

lemma lpInsert_after:
  assumes r: "lp_rep lp es" and i: "i < length es" and e: "ele \<noteq> EleNone"
  shows "lpInsert al lp ele (lp_pos es i) LP_AFTER = lpInsert al lp ele (lp_pos es (Suc i)) LP_BEFORE"
  using read_entry(4) [OF r i] lp_header(1) [OF r] e lp_pos_ge [of es "Suc i"] replaced_size(2) [OF r i]
  by (simp add: lpInsert_def Let_def)

text \<open>The operations, for an element that is not a deletion and an index.\<close>

lemmas insert_before_spec = lpInsert_spec [where j = i and i = i for i, simplified]
lemmas replace_spec = lpInsert_spec [where j = "Suc i" and i = i for i, simplified]

subsection \<open>Deleting ranges\<close>

lemma range_tail_spec:
  assumes r: "lp_rep lp es" and "i < length es" and "0 < num"
  shows "range_tail lp (lp_total es) (lp_pos es i) n num =
     Some (lp_pos es (min (i + num) (length es)), n + (min (i + num) (length es) - i))"
  using assms(2,3)
proof (induction num arbitrary: i n)
  case (Suc num)
  note e = read_entry [OF r Suc.prems(1)]
  show ?case
  proof (cases "Suc i < length es")
    case False
    then have "Suc i = length es" using Suc.prems(1) by simp
    moreover from this have "min (i + Suc num) (length es) = length es" by simp
    ultimately show ?thesis using e(4) eof_at_end [OF r] by simp
  next
    case True
    then have step: "range_tail lp (lp_total es) (lp_pos es i) n (Suc num) = range_tail lp (lp_total es) (lp_pos es (Suc i)) (n + 1) num"
      using e(4) read_entry(2,3) [OF r True] lp_valid [OF r True] by simp
    show ?thesis
    proof (cases "num = 0")
      case zero: True
      then show ?thesis using step True by (simp add: min_def)
    next
      case False
      then have "range_tail lp (lp_total es) (lp_pos es (Suc i)) (n + 1) num =
          Some (lp_pos es (min (Suc i + num) (length es)), n + 1 + (min (Suc i + num) (length es) - Suc i))"
        using Suc.IH [OF True] by simp
      moreover have "n + 1 + (min (Suc i + num) (length es) - Suc i) = n + (min (i + Suc num) (length es) - i)"
        using True by simp
      ultimately show ?thesis using step by simp
    qed
  qed
qed simp

end
