(* ===== verification/Listpack_More.thy ===== *)
theory Listpack_More
  imports Listpack_Ops
begin

text \<open>
  Values of entries, searching, deletion of ranges, merging, and the validation of untrusted listpacks.
\<close>

subsection \<open>The value of an entry as a string\<close>

definition body_str :: "buffer \<Rightarrow> buffer" where
  "body_str b = (case lpGet b 0 of
       Some (LpString off n) \<Rightarrow> take n (drop off b)
     | Some (LpInt v) \<Rightarrow> sdec v
     | None \<Rightarrow> [])"

lemma canonical_body_str:
  assumes "length s < 4294967291"
  shows "body_str (canonical_body s) = s"
proof (cases "parse_int64 s")
  case None
  then show ?thesis using str_body_get [OF assms] by (simp add: body_str_def canonical_body_def str_body_def)
next
  case (Some v)
  have "s = sdec v" using Some by (simp add: parse_int64_iff)
  moreover have "canonical_body s = lpEncodeIntegerGetType v" using Some by (simp add: canonical_body_def)
  ultimately show ?thesis using int_body_get(2) [OF parse_int64_range [OF Some]] by (simp add: body_str_def)
qed

lemma get_entry:
  assumes r: "lp_rep lp es" and i: "i < length es"
  obtains v where "lpGetWithSize lp (lp_pos es i) = Some (lp_shift (lp_pos es i) v, Some (length (lp_entry (es ! i))))"
    "lpGet (es ! i) 0 = Some v" "\<forall>off n. v = LpString off n \<longrightarrow> off + n = length (es ! i)"
proof -
  obtain pre rest where e: "lp = pre @ es ! i @ lpEncodeBacklen (length (es ! i)) @ rest" "length pre = lp_pos es i" "body_ok (es ! i)"
    using entry_at [OF r i] .
  obtain v where v: "lpGetWithSize (es ! i) 0 = Some (v, Some (length (lp_entry (es ! i))))" "\<forall>off n. v = LpString off n \<longrightarrow> off + n = length (es ! i)"
    using body_get [OF e(3)] by blast
  have "lpGetWithSize lp (lp_pos es i) = Some (lp_shift (lp_pos es i) v, Some (length (lp_entry (es ! i))))"
    using get_inside [OF v(1), of pre] e(1,2) by simp
  then show ?thesis using that v by (simp add: lpGet_def)
qed

lemma read_string:
  assumes r: "lp_rep lp es" and i: "i < length es" and v: "off + n = length (es ! i)"
  shows "rd lp (lp_pos es i + off) n = Some (drop off (es ! i))"
proof -
  obtain pre rest where e: "lp = pre @ es ! i @ lpEncodeBacklen (length (es ! i)) @ rest" "length pre = lp_pos es i"
    using entry_at [OF r i] .
  have "es ! i = take off (es ! i) @ drop off (es ! i)" by simp
  then have "lp = (pre @ take off (es ! i)) @ drop off (es ! i) @ lpEncodeBacklen (length (es ! i)) @ rest" using e(1) by simp
  moreover have "n = length (drop off (es ! i))" "lp_pos es i + off = length (pre @ take off (es ! i))" using v e(2) by simp_all
  ultimately show ?thesis using rd_append by metis
qed

lemma lp_signed_range:
  assumes "u \<le> negmax" and "0 < negstart" and "negmax \<le> UINT64_MAX" and "negmax < 2 * negstart" and "negstart \<le> 2 ^ 63"
  shows "is_int64 (lp_signed u negstart negmax)"
  using assms by (auto simp: lp_signed_def is_int64_def of_nat_diff)

lemma body_int_range:
  assumes b: "body_ok b" and v: "lpGet b 0 = Some (LpInt v)"
  shows "is_int64 v"
proof -
  obtain x xs where e: "b = x # xs" "unat x \<noteq> 255" "lpCurrentEncodedSizeUnsafe (x # xs) 0 = Some (Suc (length xs))"
    using body_okE [OF b] by metis
  have r: "rd_byte (x # xs) 0 = Some x" by (simp add: rd_byte_def)
  have g: "map_option fst (lpGetWithSize (x # xs) 0) = Some (LpInt v)" using v by (simp add: lpGet_def e(1))
  have le: "le_nat xs < 256 ^ length xs" by (rule le_nat_bound)
  have rd: "rd (x # xs) (Suc 0) (length xs) = Some xs" by (simp add: rd_def)
  show ?thesis
    using body_size_cases [OF e(3,2)]
  proof (elim disjE conjE)
    assume "unat x < 128"
    then have "v = uint x" using g r by (auto simp: lpGetWithSize_def byte_mask lp_signed_def)
    moreover have "uint x < 256" using unsigned_less [of x] by simp
    ultimately show ?thesis by (simp add: is_int64_def order_trans [of _ 0])
  next
    assume a: "192 \<le> unat x" "unat x < 224" "length xs = 1"
    then obtain y where "xs = [y]" by (cases xs) auto
    then have "v = lp_signed (unat x mod 32 * 256 + unat y) (2 ^ 12) 8191"
      using a g r by (auto simp: lpGetWithSize_def rd_byte_def byte_mask)
    moreover have "unat x mod 32 * 256 + unat y \<le> 8191" using unat_lt [of y] mod_less_divisor [of 32 "unat x"] by linarith
    ultimately show ?thesis by (simp add: lp_signed_range)
  next
    assume a: "unat x = 241" "length xs = 2"
    then have "v = lp_signed (le_nat xs) (2 ^ 15) 65535" using g r rd by (simp add: lpGetWithSize_def)
    then show ?thesis using le a(2) by (simp add: lp_signed_range)
  next
    assume a: "unat x = 242" "length xs = 3"
    then have "v = lp_signed (le_nat xs) (2 ^ 23) 16777215" using g r rd by (simp add: lpGetWithSize_def)
    then show ?thesis using le a(2) by (simp add: lp_signed_range)
  next
    assume a: "unat x = 243" "length xs = 4"
    then have "v = lp_signed (le_nat xs) (2 ^ 31) UINT32_MAX" using g r rd by (simp add: lpGetWithSize_def)
    then show ?thesis using le a(2) by (simp add: lp_signed_range)
  next
    assume a: "unat x = 244" "length xs = 8"
    then have "v = lp_signed (le_nat xs) (2 ^ 63) UINT64_MAX" using g r rd by (simp add: lpGetWithSize_def)
    then show ?thesis using le a(2) by (simp add: lp_signed_range)
  next
    assume a: "128 \<le> unat x" "unat x < 192"
    then show ?thesis using g r by (auto simp: lpGetWithSize_def Let_def)
  next
    assume a: "224 \<le> unat x" "unat x < 240"
    then show ?thesis using g r by (auto simp: lpGetWithSize_def bind_eq_Some_conv)
  next
    assume a: "unat x = 240"
    then show ?thesis using g r by (auto simp: lpGetWithSize_def bind_eq_Some_conv)
  qed
qed

text \<open>Reading an entry with a buffer for integers gives its string.\<close>

lemma ll2string_sdec:
  assumes v: "is_int64 v" and l: "LP_INTBUF_SIZE \<le> length buf"
  shows "\<exists>b. ll2string buf 0 LP_INTBUF_SIZE v = Some (b, length (sdec v)) \<and> rd b 0 (length (sdec v)) = Some (sdec v)"
proof -
  note s = sdec_length_int64(2) [OF v]
  have "wr buf 0 (sdec v @ [0]) = Some (sdec v @ 0 # drop (Suc (length (sdec v))) buf)" using s l by (simp add: wr_def)
  moreover have "rd (sdec v @ 0 # drop (Suc (length (sdec v))) buf) 0 (length (sdec v)) = Some (sdec v)" by (simp add: rd_def)
  ultimately show ?thesis using ll2string_fits [OF v, of LP_INTBUF_SIZE buf 0] s by simp
qed

lemma get_string:
  assumes r: "lp_rep lp es" and i: "i < length es" and l: "LP_INTBUF_SIZE \<le> length buf"
  shows "lpGet_intbuf lp (lp_pos es i) buf = Some (body_str (es ! i))"
proof -
  obtain v where v: "lpGetWithSize lp (lp_pos es i) = Some (lp_shift (lp_pos es i) v, Some (length (lp_entry (es ! i))))"
    "lpGet (es ! i) 0 = Some v" "\<forall>off n. v = LpString off n \<longrightarrow> off + n = length (es ! i)"
    using get_entry [OF r i] .
  have g: "lpGet lp (lp_pos es i) = Some (lp_shift (lp_pos es i) v)" using v(1) by (simp add: lpGet_def)
  show ?thesis
  proof (cases v)
    case (LpString off n)
    then have "off + n = length (es ! i)" using v(3) by simp
    then show ?thesis using LpString g v(2) read_string [OF r i, of off n] by (simp add: lpGet_intbuf_def body_str_def)
  next
    case (LpInt w)
    have "body_ok (es ! i)" using entry_at [OF r i] .
    then have "is_int64 w" using body_int_range v(2) LpInt by blast
    then show ?thesis using g v(2) LpInt ll2string_sdec [OF _ l, of w] by (auto simp: lpGet_intbuf_def body_str_def)
  qed
qed

subsection \<open>Searching\<close>

text \<open>The reference search: compare, then skip \<open>k\<close> entries, and so on.\<close>

fun find_ref :: "buffer \<Rightarrow> nat \<Rightarrow> buffer list \<Rightarrow> nat \<Rightarrow> nat \<Rightarrow> nat option" where
  "find_ref s k [] c i = None"
| "find_ref s k (b # bs) 0 i = (if body_str b = s then Some i else find_ref s k bs k (Suc i))"
| "find_ref s k (b # bs) (Suc c) i = find_ref s k bs c (Suc i)"

definition venc_ok :: "buffer \<Rightarrow> nat \<Rightarrow> lp_vencoding \<Rightarrow> bool" where
  "venc_ok s slen venc \<longleftrightarrow> venc = NotTried \<or>
     venc = (case parse_int64 (take slen s) of None \<Rightarrow> NoInteger | Some v \<Rightarrow> IsInteger v)"

lemma find_vencoding_spec:
  assumes s: "slen \<le> length s" and v: "venc_ok s slen venc"
  shows "find_vencoding venc s slen = Some (case parse_int64 (take slen s) of None \<Rightarrow> NoInteger | Some v \<Rightarrow> IsInteger v)"
proof -
  have "parse_int64 (take slen s) = None" if "slen \<ge> 32 \<or> slen = 0"
  proof (rule ccontr)
    assume "parse_int64 (take slen s) \<noteq> None"
    then obtain w where "is_int64 w" "take slen s = sdec w" by (auto simp: parse_int64_iff)
    moreover from this(2) have "length (sdec w) = slen" using s by (metis length_take min.absorb2)
    ultimately show False using sdec_length_int64 [of w] that by auto
  qed
  then show ?thesis
    using v lpStringToInt64_parse [OF s] by (auto simp: find_vencoding_def venc_ok_def)
qed

lemma find_compare_spec:
  assumes r: "lp_rep lp es" and i: "i < length es" and s: "slen \<le> length s" and v: "venc_ok s slen venc"
  shows "\<exists>venc'. find_compare lp (lp_total es) (lp_pos es i) s slen venc e =
     Some (body_str (es ! i) = take slen s, venc', length (lp_entry (es ! i))) \<and> venc_ok s slen venc'"
proof -
  obtain w where w: "lpGetWithSize lp (lp_pos es i) = Some (lp_shift (lp_pos es i) w, Some (length (lp_entry (es ! i))))"
    "lpGet (es ! i) 0 = Some w" "\<forall>off n. w = LpString off n \<longrightarrow> off + n = length (es ! i)"
    using get_entry [OF r i] .
  have p: "lp_pos es i + length (lp_entry (es ! i)) < lp_total es" using replaced_size(2) [OF r i] lp_pos_Suc [OF i] by simp
  show ?thesis
  proof (cases w)
    case (LpString off n)
    then have n: "off + n = length (es ! i)" using w(3) by simp
    have b: "body_str (es ! i) = drop off (es ! i)" using LpString n w(2) by (simp add: body_str_def)
    have "length (drop off (es ! i)) = n" using n by simp
    then have "drop off (es ! i) = take slen s \<Longrightarrow> slen = n" using s by (metis length_take min.absorb2)
    then have e: "body_str (es ! i) = take slen s \<longleftrightarrow> slen = n \<and> drop off (es ! i) = take slen s" using b by auto
    show ?thesis
      using LpString w(1) p read_string [OF r i n] v lp_pos_ge [of es i] by (auto simp: find_compare_def Let_def e)
  next
    case (LpInt u)
    have "body_ok (es ! i)" using entry_at [OF r i] .
    then have u: "is_int64 u" using body_int_range w(2) LpInt by blast
    have b: "body_str (es ! i) = sdec u" using LpInt w(2) by (simp add: body_str_def)
    have "sdec u = take slen s \<longleftrightarrow> parse_int64 (take slen s) = Some u" using u by (auto simp: parse_int64_iff)
    then show ?thesis
      using LpInt w(1) find_vencoding_spec [OF s v] b
      by (auto simp: find_compare_def Let_def venc_ok_def split: option.split)
  qed
qed

lemma find_check:
  assumes r: "lp_rep lp es" and i: "i \<le> length es"
  shows "(if lp_pos es i + 8 \<ge> lp_total es then lpAssertValidEntry lp (lp_total es) (lp_pos es i)
     else c_assert (lp_pos es i \<ge> LP_HDR_SIZE \<and> lp_pos es i < lp_total es)) = Some ()"
proof (cases "i < length es")
  case True
  then show ?thesis using lp_valid [OF r True] lp_pos_ge [of es i] by simp
next
  case False
  then have "i = length es" using i by simp
  then have "lpValidateNext lp (Some (lp_pos es i)) (lp_total es) = Some (True, None)"
    using eof_at_end [OF r] lp_pos_ge [of es i] lp_pos_end [of es] by (simp add: lpValidateNext_def OUT_OF_RANGE_def lp_total_def)
  then show ?thesis using lp_pos_ge [of es i] by (simp add: lpAssertValidEntry_def)
qed

lemma find_loop_spec:
  assumes r: "lp_rep lp es" and s: "slen \<le> length s" and "i < length es" and "venc_ok s slen venc"
  shows "find_loop lp (lp_total es) s slen k (lp_pos es i) c venc e =
     Some (map_option (lp_pos es) (find_ref (take slen s) k (drop i es) c i))"
  using assms(3,4)
proof (induction "length es - i" arbitrary: i c venc e)
  case (Suc m)
  have d: "drop i es = es ! i # drop (Suc i) es" using Suc.prems(1) by (simp add: Cons_nth_drop_Suc)
  have go: "(do {
       (if lp_pos es (Suc i) + 8 \<ge> lp_total es then lpAssertValidEntry lp (lp_total es) (lp_pos es (Suc i))
        else c_assert (lp_pos es (Suc i) \<ge> LP_HDR_SIZE \<and> lp_pos es (Suc i) < lp_total es));
       b \<leftarrow> rd_byte lp (lp_pos es (Suc i));
       if b = LP_EOF then Some None
       else find_loop lp (lp_total es) s slen k (lp_pos es (Suc i)) c' venc' e'
     }) = Some (map_option (lp_pos es) (find_ref (take slen s) k (drop (Suc i) es) c' (Suc i)))"
    if "venc_ok s slen venc'" for c' venc' e'
  proof (cases "Suc i < length es")
    case True
    have "find_loop lp (lp_total es) s slen k (lp_pos es (Suc i)) c' venc' e' =
        Some (map_option (lp_pos es) (find_ref (take slen s) k (drop (Suc i) es) c' (Suc i)))"
      by (rule Suc.hyps(1)) (use Suc.hyps(2) True that in simp_all)
    then show ?thesis unfolding find_check [OF r Suc_leI [OF Suc.prems(1)]] read_entry(2) [OF r True]
      using read_entry(3) [OF r True] by simp
  next
    case False
    then have l: "Suc i = length es" using Suc.prems(1) by simp
    show ?thesis unfolding find_check [OF r Suc_leI [OF Suc.prems(1)]]
      using eof_at_end [OF r] by (simp add: l)
  qed
  show ?case
  proof (cases c)
    case 0
    obtain venc' where f: "find_compare lp (lp_total es) (lp_pos es i) s slen venc e =
       Some (body_str (es ! i) = take slen s, venc', length (lp_entry (es ! i)))" "venc_ok s slen venc'"
      using find_compare_spec [OF r Suc.prems(1) s Suc.prems(2)] by blast
    show ?thesis
    proof (cases "body_str (es ! i) = take slen s")
      case True
      then show ?thesis using 0 f(1) d by (subst find_loop.simps) simp
    next
      case False
      then show ?thesis
        using 0 f(1) d go [OF f(2), of k "length (lp_entry (es ! i))"]
        by (subst find_loop.simps) (simp add: lp_pos_Suc [OF Suc.prems(1), symmetric] split del: if_split)
    qed
  next
    case (Suc c')
    then show ?thesis
      using d read_entry(4) [OF r Suc.prems(1)] go [OF Suc.prems(2), of c' e]
      by (subst find_loop.simps) (simp split del: if_split)
  qed
qed simp

lemma lpFind_spec:
  assumes r: "lp_rep lp es" and s: "slen \<le> length s" and i: "i < length es"
  shows "lpFind lp (lp_pos es i) s slen k = Some (map_option (lp_pos es) (find_ref (take slen s) k (drop i es) 0 i))"
  using find_loop_spec [OF r s i] lp_header(2) [OF r] by (simp add: lpFind_def venc_ok_def)

subsection \<open>Deleting a range\<close>

lemma shrink_rep:
  assumes "lp_rep lp es"
  shows "\<exists>lp'. lpShrinkToFit al lp = Some lp' \<and> lp_rep lp' es"
proof -
  obtain num slack where lp: "lp = lp_bytes_of num es @ slack" "num_ok es num" "list_all body_ok es" "lp_total es < 2 ^ 32"
    using lp_repE [OF assms] .
  obtain S where "realloc al (lp_total es) lp = lp_bytes_of num es @ S"
    using realloc_prefix [of "lp_bytes_of num es" "lp_total es" al slack] lp(1) by auto
  then have "lp_rep (realloc al (lp_total es) lp) es" using lp by (auto simp: lp_rep_def)
  then show ?thesis using lp_header(1) [OF assms] assms by (simp add: lpShrinkToFit_def)
qed

lemma memmove_down:
  "memmove (A @ E @ B @ R) (length A) (length A + length E) (length B) = Some (A @ B @ drop (length B) (E @ B) @ R)"
proof -
  have "rd (A @ E @ B @ R) (length A + length E) (length B) = Some B"
    using rd_append [of "length A + length E" "A @ E" "length B" B R] by simp
  moreover have "wr (A @ E @ B @ R) (length A) B = Some (A @ B @ drop (length B) (E @ B @ R))" by (simp add: wr_def)
  moreover have "drop (length B) (E @ B @ R) = drop (length B) (E @ B) @ R" by (simp add: drop_append)
  ultimately show ?thesis by (simp add: memmove_def)
qed

lemma cut_entries:
  assumes "i \<le> j"
  shows "concat (map lp_entry es) =
    concat (map lp_entry (take i es)) @ concat (map lp_entry (drop i (take j es))) @ concat (map lp_entry (drop j es))"
proof -
  have "es = take i es @ drop i (take j es) @ drop j es" using assms by (metis append_assoc append_take_drop_id min.absorb1 take_take)
  then show ?thesis by (metis concat_append map_append)
qed

lemma range_finish:
  assumes lp: "lp = nat_le 4 t @ nat_le 2 num @ concat (map lp_entry es') @ LP_EOF # S" and num: "num_ok es num"
    and ok: "list_all body_ok es'" "lp_total es' < 2 ^ 32" and len: "length es' + deleted = length es"
  shows "\<exists>lp1 lp2. lpSetTotalBytes lp (lp_total es') = Some lp1 \<and> lpGetNumElements lp1 = Some num \<and>
    (if num \<noteq> LP_HDR_NUMELE_UNKNOWN then lpSetNumElements lp1 (u32 (int num - int deleted)) else Some lp1) = Some lp2 \<and> lp_rep lp2 es'"
proof -
  let ?lp1 = "\<lambda>n. nat_le 4 (lp_total es') @ nat_le 2 n @ concat (map lp_entry es') @ LP_EOF # S"
  have n: "num < 65536" using num by (auto simp: num_ok_def)
  have 1: "lpSetTotalBytes lp (lp_total es') = Some (?lp1 num)"
    using wr_append [of 0 "[]" "nat_le 4 t" "nat_le 4 (lp_total es')"] by (simp add: lp lpSetTotalBytes_def)
  have 2: "lpGetNumElements (?lp1 num) = Some num"
    using n rd_append [of 4 "nat_le 4 (lp_total es')" 2 "nat_le 2 num"] by (simp add: lpGetNumElements_def le_nat_nat_le)
  have 3: "lpSetNumElements (?lp1 num) m = Some (?lp1 m)" for m
    using wr_append [of 4 "nat_le 4 (lp_total es')" "nat_le 2 num" "nat_le 2 m"] by (simp add: lpSetNumElements_def)
  have 4: "lp_rep (?lp1 m) es'" if "num_ok es' m" for m
    using ok that by (auto simp: lp_rep_def lp_bytes_of_def)
  show ?thesis
  proof (cases "num = LP_HDR_NUMELE_UNKNOWN")
    case True
    then show ?thesis using 1 2 4 [of num] by (simp add: num_ok_def)
  next
    case False
    then have "num = length es" "num < 65535" using num by (auto simp: num_ok_def)
    then have "u32 (int num - int deleted) = length es'" "num_ok es' (length es')" using len by (auto simp: u32_def num_ok_def)
    then show ?thesis using False 1 2 3 4 by simp
  qed
qed

lemma delete_range_entry:
  assumes r: "lp_rep lp es" and i: "i < length es" and num: "0 < num" and j: "j = min (i + num) (length es)"
  shows "\<exists>lp'. lpDeleteRangeWithEntry al lp (lp_pos es i) num = Some (lp', if j = length es then None else Some (lp_pos es i)) \<and>
    lp_rep lp' (take i es @ drop j es)"
proof -
  obtain n slack where lp: "lp = lp_bytes_of n es @ slack" "num_ok es n" "list_all body_ok es" "lp_total es < 2 ^ 32"
    using lp_repE [OF r] .
  have ij: "i \<le> j" "j \<le> length es" using i j by auto
  let ?es = "take i es @ drop j es"
  define A where "A = nat_le 4 (lp_total es) @ nat_le 2 n @ concat (map lp_entry (take i es))"
  define E where "E = concat (map lp_entry (drop i (take j es)))"
  define B where "B = concat (map lp_entry (drop j es)) @ [LP_EOF]"
  have bytes: "lp_bytes_of n es = A @ E @ B" using cut_entries [OF ij(1), of es] by (simp add: lp_bytes_of_def A_def B_def E_def)
  have lA: "length A = lp_pos es i" by (simp add: A_def lp_pos_def)
  have "concat (map lp_entry (take j es)) = concat (map lp_entry (take i es)) @ E"
    using cut_entries [OF ij(1), of "take j es"] by (simp add: E_def min_absorb1 ij(1))
  then have pj: "lp_pos es j = length A + length E" by (simp add: lp_pos_def A_def)
  have tot: "lp_total es = length A + length E + length B" using arg_cong [OF bytes, of length] by simp
  have new: "lp_total ?es = length A + length B" by (simp add: lp_total_def A_def B_def)
  have t: "range_tail lp (lp_total es) (length A) 0 num = Some (length A + length E, j - i)"
    using range_tail_spec [OF r i num, of 0] j pj lA by simp
  define S where "S = drop (length B) (E @ B) @ slack"
  have m: "memmove lp (length A) (length A + length E) (length B) = Some (A @ B @ S)"
    using memmove_down [of A E B slack] by (simp add: lp(1) bytes S_def)
  have sp: "A @ B @ S = nat_le 4 (lp_total es) @ nat_le 2 n @ concat (map lp_entry ?es) @ LP_EOF # S"
    by (simp add: A_def B_def)
  have ok: "list_all body_ok ?es" using lp(3) by (auto simp: list_all_iff dest: in_set_takeD in_set_dropD)
  have le: "lp_total ?es < 2 ^ 32" using lp(4) new tot by simp
  have len: "length ?es + (j - i) = length es" using ij by simp
  obtain lp1 lp2 where c: "lpSetTotalBytes (A @ B @ S) (lp_total ?es) = Some lp1" "lpGetNumElements lp1 = Some n"
    "(if n \<noteq> LP_HDR_NUMELE_UNKNOWN then lpSetNumElements lp1 (u32 (int n - int (j - i))) else Some lp1) = Some lp2" "lp_rep lp2 ?es"
    using range_finish [OF sp lp(2) ok le len] by blast
  obtain lp3 where s: "lpShrinkToFit al lp2 = Some lp3" "lp_rep lp3 ?es" using shrink_rep [OF c(4)] by blast
  have p: "lp_pos ?es i = length A" using ij by (simp add: lp_pos_def A_def)
  have b: "\<exists>x. rd_byte lp3 (length A) = Some x \<and> (x = LP_EOF \<longleftrightarrow> j = length es)"
  proof (cases "j < length es")
    case True
    then have "i < length ?es" using ij by simp
    then have "rd_byte lp3 (length A) = Some (hd (?es ! i))" "hd (?es ! i) \<noteq> LP_EOF" using read_entry(2,3) [OF s(2)] p by metis+
    then show ?thesis using True by blast
  next
    case False
    then have "i = length ?es" using ij by simp
    then have "rd_byte lp3 (length A) = Some LP_EOF" using eof_at_end [OF s(2)] p by simp
    then show ?thesis using False ij by auto
  qed
  have ar: "lp_total es - (length A + length E) = length B" "lp_total es - length E = lp_total ?es" using tot new by simp_all
  show ?thesis
    unfolding lpDeleteRangeWithEntry_def lA [symmetric]
    using lp_header(2) [OF r] num t tot m c(1,2,3) s b ar by auto
qed

lemma drop_beyond: "drop (min k (length es)) es = drop k es"
  by (simp add: min_def)

lemma truncate_rep:
  assumes r: "lp_rep lp es" and i: "i < length es" "i < 65535"
  shows "\<exists>lp1 lp2 lp3. wr lp (lp_pos es i) [LP_EOF] = Some lp1 \<and> lpSetTotalBytes lp1 (lp_pos es i + 1) = Some lp2 \<and>
    lpSetNumElements lp2 i = Some lp3 \<and> lp_rep lp3 (take i es)"
proof -
  obtain n slack where lp: "lp = lp_bytes_of n es @ slack" "list_all body_ok es" "lp_total es < 2 ^ 32" using lp_repE [OF r] .
  define C where "C = concat (map lp_entry (take i es))"
  define R where "R = concat (map lp_entry (drop i es)) @ LP_EOF # slack"
  have bytes: "lp = nat_le 4 (lp_total es) @ nat_le 2 n @ C @ R"
    using cut_entries [of i i es] by (simp add: lp(1) lp_bytes_of_def C_def R_def)
  have p: "lp_pos es i = 6 + length C" by (simp add: lp_pos_def C_def)
  obtain x R' where R: "R = x # R'" by (cases R) (auto simp: R_def)
  have 1: "wr lp (lp_pos es i) [LP_EOF] = Some (nat_le 4 (lp_total es) @ nat_le 2 n @ C @ LP_EOF # R')"
    using wr_append [of "lp_pos es i" "nat_le 4 (lp_total es) @ nat_le 2 n @ C" "[x]" "[LP_EOF]" R'] by (simp add: bytes R p)
  have 2: "lpSetTotalBytes (nat_le 4 (lp_total es) @ nat_le 2 n @ C @ LP_EOF # R') t = Some (nat_le 4 t @ nat_le 2 n @ C @ LP_EOF # R')" for t
    using wr_append [of 0 "[]" "nat_le 4 (lp_total es)" "nat_le 4 t"] by (simp add: lpSetTotalBytes_def)
  have 3: "lpSetNumElements (nat_le 4 t @ nat_le 2 n @ C @ LP_EOF # R') m = Some (nat_le 4 t @ nat_le 2 m @ C @ LP_EOF # R')" for t m
    using wr_append [of 4 "nat_le 4 t" "nat_le 2 n" "nat_le 2 m"] by (simp add: lpSetNumElements_def)
  have t: "lp_total (take i es) = lp_pos es i + 1" by (simp add: lp_total_def lp_pos_def)
  have "lp_total (take i es) < 2 ^ 32" using lp_pos_less [OF i(1)] lp(3) t by simp
  moreover have "list_all body_ok (take i es)" using lp(2) by (auto simp: list_all_iff dest: in_set_takeD)
  ultimately have "lp_rep (lp_bytes_of i (take i es) @ R') (take i es)" using i by (auto simp: lp_rep_def num_ok_def)
  then show ?thesis using 1 2 3 by (simp add: lp_bytes_of_def t C_def)
qed

lemma lpDeleteRange_spec:
  assumes r: "lp_rep lp es"
  shows "\<exists>lp'. lpDeleteRange al lp index num = Some lp' \<and> lp_rep lp'
    (if 0 \<le> seek_index es index \<and> seek_index es index < int (length es)
     then take (nat (seek_index es index)) es @ drop (nat (seek_index es index) + num) es else es)"
proof -
  obtain n where n: "lpGetNumElements lp = Some n" "num_ok es n" using lp_header(3) [OF r] by blast
  define i where "i = nat (seek_index es index)"
  consider (zero) "num = 0" | (out) "num \<noteq> 0" "\<not> (0 \<le> seek_index es index \<and> seek_index es index < int (length es))"
    | (trunc) "num \<noteq> 0" "seek_index es index = int i" "i < length es" "n \<noteq> 65535" "length es - i \<le> num"
    | (cut) "num \<noteq> 0" "seek_index es index = int i" "i < length es" "n = 65535 \<or> num < length es - i"
    unfolding i_def by linarith
  then show ?thesis
  proof cases
    case zero
    then show ?thesis using n(1) r by (auto simp: lpDeleteRange_def)
  next
    case out
    then show ?thesis using n(1) r seek_spec [OF r, of index] by (auto simp: lpDeleteRange_def)
  next
    case trunc
    have ne: "n = length es" "n < 65535" using n(2) trunc(4) by (auto simp: num_ok_def)
    have ix: "(if index < 0 then int (length es) + index else index) = int i" using trunc(2) by (simp add: seek_index_def split: if_splits)
    have u: "u64 (int n - int i) = n - i" using ne trunc(3) by (subst u64_small) auto
    obtain lp1 lp2 lp3 where "wr lp (lp_pos es i) [LP_EOF] = Some lp1" "lpSetTotalBytes lp1 (lp_pos es i + 1) = Some lp2"
      "lpSetNumElements lp2 i = Some lp3" "lp_rep lp3 (take i es)"
      using truncate_rep [OF r trunc(3)] ne trunc(3) by auto
    moreover from this(4) obtain lp4 where "lpShrinkToFit al lp3 = Some lp4" "lp_rep lp4 (take i es)" using shrink_rep by blast
    moreover have "lpSeek lp index = Some (Some (lp_pos es i))" using seek_spec [OF r, of index] trunc(2,3) by simp
    ultimately have "lpDeleteRange al lp index num = Some lp4 \<and> lp_rep lp4 (take i es)"
      using n(1) trunc(1,4,5) u ne(1) by (simp add: lpDeleteRange_def Let_def ix)
    then show ?thesis using trunc(2,3,5) by auto
  next
    case cut
    have "\<not> (n \<noteq> 65535 \<and> u64 (int n - (if n \<noteq> 65535 \<and> index < 0 then int n + index else index)) \<le> num)"
    proof (cases "n = 65535")
      case False
      then have ne: "n = length es" "n < 65535" using n(2) by (auto simp: num_ok_def)
      then have "(if n \<noteq> 65535 \<and> index < 0 then int n + index else index) = int i"
        using cut(2) False by (simp add: seek_index_def split: if_splits)
      moreover have "u64 (int n - int i) = n - i" using ne cut(3) by (subst u64_small) auto
      ultimately show ?thesis using cut(4) False ne by simp
    qed simp
    moreover obtain lp' b where "lpDeleteRangeWithEntry al lp (lp_pos es i) num = Some (lp', b)"
      "lp_rep lp' (take i es @ drop (min (i + num) (length es)) es)"
      using delete_range_entry [OF r cut(3) _ refl, of num al] cut(1) by auto
    ultimately show ?thesis
      using n(1) seek_spec [OF r, of index] cut by (auto simp: lpDeleteRange_def Let_def drop_beyond split: if_splits)
  qed
qed

end
