(* ===== verification/Listpack_Bulk.thy ===== *)
theory Listpack_Bulk
  imports Listpack_More
begin

text \<open>
  Operations on many entries at once: the deletion of a batch of entries by one pass over the buffer, merging, creation
  and duplication of whole listpacks.
\<close>

subsection \<open>Deleting a batch\<close>

text \<open>What the loop keeps: the entries between two deleted ones, and those behind the last.\<close>

fun batch_kept :: "buffer list \<Rightarrow> nat list \<Rightarrow> buffer list" where
  "batch_kept es [] = []"
| "batch_kept es [i] = drop (Suc i) es"
| "batch_kept es (i # j # js) = drop (Suc i) (take j es) @ batch_kept es (j # js)"

lemma skip_inside:
  assumes "body_ok b" and "p = length pre"
  shows "lpSkip (pre @ lp_entry b @ rest) p = Some (p + length (lp_entry b))"
    and "\<exists>x. rd_byte (pre @ lp_entry b @ rest) p = Some x \<and> x \<noteq> LP_EOF"
proof -
  have ok: "b \<noteq> []" "hd b \<noteq> LP_EOF" "lpCurrentEncodedSizeUnsafe b 0 = Some (length b)" using assms(1) by (simp_all add: body_ok_def)
  show "lpSkip (pre @ lp_entry b @ rest) p = Some (p + length (lp_entry b))"
    using encoded_size_inside [OF ok(3), of pre "lpEncodeBacklen (length b) @ rest"] assms(2) by (simp add: lpSkip_def lp_entry_def)
  have "rd_byte b 0 = Some (hd b)" using ok(1) by (cases b) (simp_all add: rd_byte_def)
  then show "\<exists>x. rd_byte (pre @ lp_entry b @ rest) p = Some x \<and> x \<noteq> LP_EOF"
    using rd_byte_inside [of b 0 "hd b" pre "lpEncodeBacklen (length b) @ rest"] ok(2) assms(2) by (simp add: lp_entry_def)
qed

lemma pos_between:
  assumes "i \<le> j"
  shows "lp_pos es j = lp_pos es i + length (concat (map lp_entry (drop i (take j es))))"
  using cut_entries [OF assms, of "take j es"] assms by (simp add: lp_pos_def min_absorb1)

lemma between_empty:
  assumes "j \<le> length es"
  shows "concat (map lp_entry (drop i (take j es))) = [] \<longleftrightarrow> j \<le> i"
proof -
  have ne: "lp_entry b \<noteq> []" for b using entry_length_ge [of b] by auto
  then have "concat (map lp_entry (drop i (take j es))) = [] \<longleftrightarrow> drop i (take j es) = []" by (cases "drop i (take j es)") auto
  then show ?thesis using assms by auto
qed

lemma batch_step:
  assumes "rd_byte lp p = Some x" "x \<noteq> LP_EOF" "lpSkip lp p = Some ks" "ks < q" "memmove lp dst ks (q - ks) = Some lp'"
  shows "batch_loop lp e dst (p # q # qs) = batch_loop lp' e (dst + (q - ks)) (q # qs)"
  using assms by (subst batch_loop.simps(2)) (simp add: Let_def del: batch_loop.simps)

lemma batch_loop_spec:
  assumes "list_all body_ok es" and "sorted_wrt (<) (i # js)" and "\<forall>k\<in>set (i # js). k < length es"
    and "length A + length X = lp_pos es i"
  shows "\<exists>S'. batch_loop (A @ X @ concat (map lp_entry (drop i es)) @ LP_EOF # S) (lp_total es) (length A) (map (lp_pos es) (i # js)) =
    Some (A @ concat (map lp_entry (batch_kept es (i # js))) @ LP_EOF # S', length A + length (concat (map lp_entry (batch_kept es (i # js)))) + 1)"
  using assms(2-)
proof (induction js arbitrary: i A X)
  case Nil
  then have i: "i < length es" and p: "lp_pos es i = length (A @ X)" by simp_all
  define B where "B = concat (map lp_entry (drop (Suc i) es)) @ [LP_EOF]"
  define E where "E = X @ lp_entry (es ! i)"
  have lp: "A @ X @ concat (map lp_entry (drop i es)) @ LP_EOF # S = A @ E @ B @ S"
    using Cons_nth_drop_Suc [OF i, symmetric] by (simp add: B_def E_def)
  have ok: "body_ok (es ! i)" using assms(1) i by (simp add: list_all_length)
  have sk: "lpSkip (A @ E @ B @ S) (lp_pos es i) = Some (length A + length E)"
    using skip_inside(1) [OF ok p, of "B @ S"] p by (simp add: E_def)
  obtain x where x: "rd_byte (A @ E @ B @ S) (lp_pos es i) = Some x" "x \<noteq> LP_EOF"
    using skip_inside(2) [OF ok p, of "B @ S"] by (auto simp: E_def)
  have t: "lp_total es = length A + length E + length B"
    using pos_between [of "Suc i" "length es" es] lp_pos_Suc [OF i] lp_pos_end [of es] i p by (simp add: lp_total_def B_def E_def)
  have "0 < length B" by (simp add: B_def)
  then show ?case unfolding lp using sk x t memmove_down [of A E B S] by (auto simp: B_def)
next
  case (Cons j js)
  then have i: "i < length es" and ij: "Suc i \<le> j" "j < length es" and p: "lp_pos es i = length (A @ X)" by simp_all
  define K where "K = concat (map lp_entry (drop (Suc i) (take j es)))"
  define R where "R = concat (map lp_entry (drop j es)) @ LP_EOF # S"
  define E where "E = X @ lp_entry (es ! i)"
  have "drop i es = es ! i # drop (Suc i) (take j es) @ drop j es"
    using Cons_nth_drop_Suc [OF i, symmetric] ij(1) by (metis append_take_drop_id drop_drop drop_take le_add_diff_inverse2)
  then have lp: "A @ X @ concat (map lp_entry (drop i es)) @ LP_EOF # S = A @ E @ K @ R" by (simp add: K_def E_def R_def)
  have ok: "body_ok (es ! i)" using assms(1) i by (simp add: list_all_length)
  have sk: "lpSkip (A @ E @ K @ R) (lp_pos es i) = Some (length A + length E)"
    using skip_inside(1) [OF ok p, of "K @ R"] p by (simp add: E_def)
  obtain x where x: "rd_byte (A @ E @ K @ R) (lp_pos es i) = Some x" "x \<noteq> LP_EOF"
    using skip_inside(2) [OF ok p, of "K @ R"] by (auto simp: E_def)
  have pj: "lp_pos es j = length A + length E + length K"
    using pos_between [OF ij(1), of es] lp_pos_Suc [OF i] p by (simp add: K_def E_def)
  have IH: "\<exists>S'. batch_loop (A' @ X' @ R) (lp_total es) (length A') (map (lp_pos es) (j # js)) =
      Some (A' @ concat (map lp_entry (batch_kept es (j # js))) @ LP_EOF # S', length A' + length (concat (map lp_entry (batch_kept es (j # js)))) + 1)"
    if "length A' + length X' = lp_pos es j" for A' X'
    using Cons.IH [of j A' X'] Cons.prems that by (simp add: R_def)
  show ?case
  proof (cases "K = []")
    case True
    then have "drop (Suc i) (take j es) = []" using between_empty [of j es "Suc i"] ij by (simp add: K_def)
    then show ?thesis unfolding lp using IH [of A E] sk x pj True by auto
  next
    case False
    then have K: "length A + length E < lp_pos es j" using pj by simp
    define D where "D = drop (length K) (E @ K)"
    have m: "memmove (A @ E @ K @ R) (length A) (length A + length E) (lp_pos es j - (length A + length E)) = Some ((A @ K) @ D @ R)"
      using memmove_down [of A E K R] pj by (simp add: D_def)
    have d: "length (A @ K) + length D = lp_pos es j" using pj by (simp add: D_def)
    obtain S' where "batch_loop ((A @ K) @ D @ R) (lp_total es) (length (A @ K)) (map (lp_pos es) (j # js)) =
      Some ((A @ K) @ concat (map lp_entry (batch_kept es (j # js))) @ LP_EOF # S',
        length (A @ K) + length (concat (map lp_entry (batch_kept es (j # js)))) + 1)"
      using IH [OF d] by blast
    then show ?thesis
      unfolding lp using batch_step [OF x sk K m, of "lp_total es" "map (lp_pos es) js"] pj
      by (simp add: K_def [symmetric] del: batch_loop.simps)
  qed
qed

lemma slice_nth: "j \<le> length es \<Longrightarrow> drop i (take j es) = map ((!) es) [i..<j]"
  by (rule nth_equalityI) auto

lemma batch_kept_nth:
  assumes "sorted_wrt (<) (i # js)" and "\<forall>k\<in>set (i # js). k < length es"
  shows "batch_kept es (i # js) = map ((!) es) (filter (\<lambda>k. k \<notin> set (i # js)) [i..<length es])"
  using assms
proof (induction js arbitrary: i)
  case Nil
  then have "[i..<length es] = i # [Suc i..<length es]" by (simp add: upt_conv_Cons)
  moreover have "filter (\<lambda>k. k \<noteq> i) [Suc i..<length es] = [Suc i..<length es]" by (rule filter_True) simp
  ultimately show ?case using slice_nth [of "length es" es "Suc i"] by simp
next
  case (Cons j js)
  then have ij: "Suc i \<le> j" "j < length es" "\<forall>k\<in>set js. j < k" by auto
  then have "[i..<length es] = i # [Suc i..<length es]" by (simp add: upt_conv_Cons)
  also have "[Suc i..<length es] = [Suc i..<j] @ [j..<length es]"
    using ij upt_add_eq_append [of "Suc i" j "length es - j"] by simp
  finally have "[i..<length es] = i # [Suc i..<j] @ [j..<length es]" .
  moreover have "filter (\<lambda>k. k \<notin> set (i # j # js)) [Suc i..<j] = [Suc i..<j]" using ij by (intro filter_True) auto
  moreover have "filter (\<lambda>k. k \<notin> set (i # j # js)) [j..<length es] = filter (\<lambda>k. k \<notin> set (j # js)) [j..<length es]"
    using ij by (intro filter_cong) auto
  ultimately show ?case using Cons.IH [of j] Cons.prems slice_nth [of j es "Suc i"] ij by simp
qed

text \<open>The entries that remain when those at the given positions are deleted.\<close>

definition without :: "'a list \<Rightarrow> nat list \<Rightarrow> 'a list" where
  "without es ks = map ((!) es) (filter (\<lambda>k. k \<notin> set ks) [0..<length es])"

lemma without_kept:
  assumes "sorted_wrt (<) (i # js)" and "\<forall>k\<in>set (i # js). k < length es"
  shows "without es (i # js) = take i es @ batch_kept es (i # js)"
proof -
  have "[0..<length es] = [0..<i] @ [i..<length es]" using assms(2) upt_add_eq_append [of 0 i "length es - i"] by simp
  moreover have "filter (\<lambda>k. k \<notin> set (i # js)) [0..<i] = [0..<i]" using assms(1) by (intro filter_True) auto
  moreover have "take i es = map ((!) es) [0..<i]" using slice_nth [of i es 0] assms(2) by simp
  ultimately show ?thesis using batch_kept_nth [OF assms] by (simp add: without_def)
qed

lemma without_length:
  assumes "sorted_wrt (<) ks" and "\<forall>k\<in>set ks. k < length es"
  shows "length (without es ks) + length ks = length es"
proof -
  have d: "distinct ks" using assms(1) strict_sorted_iff by blast
  have "length (without es ks) = card ({0..<length es} - set ks)"
    unfolding without_def length_map by (subst distinct_card [symmetric]) (auto intro!: arg_cong [of _ _ card])
  also have "\<dots> = length es - length ks" using assms(2) by (subst card_Diff_subset) (auto simp: distinct_card [OF d])
  moreover have "set ks \<subseteq> {0..<length es}" using assms(2) by auto
  then have "length ks \<le> length es" using card_mono [of "{0..<length es}" "set ks"] distinct_card [OF d] by simp
  ultimately show ?thesis by simp
qed

lemma without_total: "lp_total (without es ks) \<le> lp_total es"
proof -
  let ?f = "\<lambda>k. length (lp_entry (es ! k))"
  have "sum_list (map ?f (filter (\<lambda>k. k \<notin> set ks) [0..<length es])) \<le> sum_list (map ?f [0..<length es])"
    by (rule sum_list_filter_le_nat)
  moreover have "map (length \<circ> lp_entry) es = map ?f [0..<length es]" by (rule nth_equalityI) auto
  ultimately show ?thesis by (simp add: lp_total_def without_def length_concat comp_def)
qed

lemma lpBatchDelete_spec:
  assumes r: "lp_rep lp es" and s: "sorted_wrt (<) ks" and ks: "\<forall>k\<in>set ks. k < length es"
  shows "\<exists>lp'. lpBatchDelete al lp (map (lp_pos es) ks) = Some lp' \<and> lp_rep lp' (without es ks)"
proof (cases ks)
  case Nil
  have "without es [] = es" using slice_nth [of "length es" es 0] by (simp add: without_def)
  then show ?thesis using r Nil by (simp add: lpBatchDelete_def)
next
  case (Cons i js)
  obtain n slack where lp: "lp = lp_bytes_of n es @ slack" "num_ok es n" "list_all body_ok es" "lp_total es < 2 ^ 32"
    using lp_repE [OF r] .
  let ?w = "without es ks"
  define A where "A = nat_le 4 (lp_total es) @ nat_le 2 n @ concat (map lp_entry (take i es))"
  have bytes: "lp = A @ [] @ concat (map lp_entry (drop i es)) @ LP_EOF # slack"
    using cut_entries [of i i es] by (simp add: lp(1) lp_bytes_of_def A_def)
  have lA: "length A + length [] = lp_pos es i" by (simp add: A_def lp_pos_def)
  let ?K = "concat (map lp_entry (batch_kept es ks))"
  obtain S where S: "batch_loop lp (lp_total es) (length A) (map (lp_pos es) ks) = Some (A @ ?K @ LP_EOF # S, length A + length ?K + 1)"
    using batch_loop_spec [OF lp(3) _ _ lA, of js slack] s ks unfolding bytes Cons by blast
  have w: "?w = take i es @ batch_kept es ks" using without_kept [of i js es] s ks Cons by simp
  then have tot: "length A + length ?K + 1 = lp_total ?w" by (simp add: lp_total_def A_def)
  have sp: "A @ ?K @ LP_EOF # S = nat_le 4 (lp_total es) @ nat_le 2 n @ concat (map lp_entry ?w) @ LP_EOF # S"
    by (simp add: A_def w)
  have eof: "rd_byte (A @ ?K @ LP_EOF # S) (lp_total ?w - 1) = Some LP_EOF"
    using rd_byte_append [of "lp_total ?w - 1" "A @ ?K" LP_EOF S] tot [symmetric] by simp
  have len: "length ?w + length ks = length es" using without_length [OF s ks] .
  have "set ?w \<subseteq> set es" by (auto simp: without_def)
  then have ok: "list_all body_ok ?w" using lp(3) by (auto simp: list_all_iff)
  have le: "lp_total ?w < 2 ^ 32" using without_total [of es ks] lp(4) by simp
  obtain lp1 lp2 where c: "lpSetTotalBytes (A @ ?K @ LP_EOF # S) (lp_total ?w) = Some lp1" "lpGetNumElements lp1 = Some n"
    "(if n \<noteq> LP_HDR_NUMELE_UNKNOWN then lpSetNumElements lp1 (u32 (int n - int (length ks))) else Some lp1) = Some lp2" "lp_rep lp2 ?w"
    using range_finish [OF sp lp(2) ok le len] by blast
  obtain lp3 where sh: "lpShrinkToFit al lp2 = Some lp3" "lp_rep lp3 ?w" using shrink_rep [OF c(4)] by blast
  have t: "lp_total es - (lp_total es - lp_total ?w) = lp_total ?w" using without_total [of es ks] by simp
  have hd: "hd (map (lp_pos es) ks) = length A" "ks \<noteq> []" using Cons lA by simp_all
  have nz: "lp_total es \<noteq> 0" "lp_total ?w \<noteq> 0" by (simp_all add: lp_total_def)
  show ?thesis
    using lp_header(1,5) [OF r] S c sh t hd nz eof unfolding tot lpBatchDelete_def length_map
    by (simp add: Let_def split del: if_split)
qed

subsection \<open>Whole listpacks\<close>

lemma new_rep: "\<exists>lp. lpNew al capacity = Some lp \<and> lp_rep lp []"
proof -
  define c where "c = (if capacity > 7 then capacity else 7)"
  have "7 \<le> length (fresh al c)" using length_fresh [of c al] by (simp add: c_def split: if_splits)
  then obtain H N E S where f: "fresh al c = H @ N @ E @ S" "length H = 4" "length N = 2" "length E = 1"
  proof -
    assume a: "7 \<le> length (fresh al c)"
      and t: "\<And>H N E S. fresh al c = H @ N @ E @ S \<Longrightarrow> length H = 4 \<Longrightarrow> length N = 2 \<Longrightarrow> length E = 1 \<Longrightarrow> thesis"
    let ?b = "fresh al c"
    have "?b = take 4 ?b @ take 2 (drop 4 ?b) @ take 1 (drop 2 (drop 4 ?b)) @ drop 1 (drop 2 (drop 4 ?b))"
      by (simp only: append_take_drop_id)
    then show thesis by (rule t) (use a in simp_all)
  qed
  have 1: "lpSetTotalBytes (H @ N @ E @ S) 7 = Some (nat_le 4 7 @ N @ E @ S)"
    using wr_append [of 0 "[]" H "nat_le 4 7"] f by (simp add: lpSetTotalBytes_def)
  have 2: "lpSetNumElements (nat_le 4 7 @ N @ E @ S) 0 = Some (nat_le 4 7 @ nat_le 2 0 @ E @ S)"
    using wr_append [of 4 "nat_le 4 7" N "nat_le 2 0"] f by (simp add: lpSetNumElements_def)
  have 3: "wr (nat_le 4 7 @ nat_le 2 0 @ E @ S) 6 [LP_EOF] = Some (lp_bytes_of 0 [] @ S)"
    using wr_append [of 6 "nat_le 4 7 @ nat_le 2 0" E "[LP_EOF]" S] f by (simp add: lp_bytes_of_def lp_total_def)
  have "lp_rep (lp_bytes_of 0 [] @ S) []" by (auto simp: lp_rep_def num_ok_def lp_total_def)
  then show ?thesis using 1 2 3 f(1) by (auto simp: lpNew_def Let_def c_def split: if_splits)
qed

lemma dup_rep:
  assumes "lp_rep lp es"
  shows "\<exists>lp'. lpDup al lp = Some lp' \<and> lp_rep lp' es"
proof -
  obtain n slack where lp: "lp = lp_bytes_of n es @ slack" "num_ok es n" "list_all body_ok es" "lp_total es < 2 ^ 32"
    using lp_repE [OF assms] .
  have "rd lp 0 (lp_total es) = Some (lp_bytes_of n es)" using rd_append [of 0 "[]" "lp_total es" "lp_bytes_of n es"] by (simp add: lp(1))
  moreover have "wr (fresh al (lp_total es)) 0 (lp_bytes_of n es) = Some (lp_bytes_of n es @ drop (lp_total es) (fresh al (lp_total es)))"
    using length_fresh [of "lp_total es" al] by (simp add: wr_def)
  ultimately show ?thesis using lp lp_header(2) [OF assms] by (auto simp: lpDup_def lp_rep_def)
qed

lemma total_append: "lp_total (es1 @ es2) = lp_total es1 + lp_total es2 - 7"
  by (simp add: lp_total_def)

lemma merge_append:
  assumes "lp_rep f es1" and "lp_rep s es2"
  shows "\<exists>t n S. do { xs \<leftarrow> rd s 6 (lp_total es2 - 6); wr (realloc al (lp_total (es1 @ es2)) f) (lp_total es1 - 1) xs } =
    Some (nat_le 4 t @ nat_le 2 n @ concat (map lp_entry (es1 @ es2)) @ LP_EOF # S)"
proof -
  obtain n1 s1 where f: "f = lp_bytes_of n1 es1 @ s1" using lp_repE [OF assms(1)] .
  obtain n2 s2 where s: "s = lp_bytes_of n2 es2 @ s2" using lp_repE [OF assms(2)] .
  let ?C1 = "concat (map lp_entry es1)" and ?C2 = "concat (map lp_entry es2)"
  let ?H = "nat_le 4 (lp_total es1) @ nat_le 2 n1 @ ?C1"
  have 1: "rd s 6 (lp_total es2 - 6) = Some (?C2 @ [LP_EOF])"
    using rd_append [of 6 "nat_le 4 (lp_total es2) @ nat_le 2 n2" "lp_total es2 - 6" "?C2 @ [LP_EOF]" s2]
    by (simp add: s lp_bytes_of_def lp_total_def)
  have "length (lp_bytes_of n1 es1) \<le> lp_total (es1 @ es2)" by (simp add: lp_total_def)
  then obtain S where S: "realloc al (lp_total (es1 @ es2)) f = lp_bytes_of n1 es1 @ S"
    "lp_total (es1 @ es2) \<le> length (lp_bytes_of n1 es1 @ S)" unfolding f using realloc_prefix by blast
  have l: "length (?C2 @ [LP_EOF]) \<le> length (LP_EOF # S)" using S(2) by (simp add: lp_total_def)
  have "wr (?H @ LP_EOF # S) (lp_total es1 - 1) (?C2 @ [LP_EOF]) = Some (?H @ (?C2 @ [LP_EOF]) @ drop (length (?C2 @ [LP_EOF])) (LP_EOF # S))"
    using l by (simp add: wr_def lp_total_def)
  then show ?thesis using 1 S(1)
    by (intro exI [of _ "lp_total es1"] exI [of _ n1] exI [of _ "drop (length (?C2 @ [LP_EOF])) (LP_EOF # S)"]) (simp add: lp_bytes_of_def)
qed

lemma merge_prepend:
  assumes "lp_rep f es1" and "lp_rep s es2"
  shows "\<exists>t n S. do {
      b \<leftarrow> memmove (realloc al (lp_total (es1 @ es2)) s) (lp_total es1 - 1) 6 (lp_total es2 - 6);
      xs \<leftarrow> rd f 0 (lp_total es1 - 1);
      wr b 0 xs } =
    Some (nat_le 4 t @ nat_le 2 n @ concat (map lp_entry (es1 @ es2)) @ LP_EOF # S)"
proof -
  obtain n1 s1 where f: "f = lp_bytes_of n1 es1 @ s1" using lp_repE [OF assms(1)] .
  obtain n2 s2 where s: "s = lp_bytes_of n2 es2 @ s2" using lp_repE [OF assms(2)] .
  let ?C1 = "concat (map lp_entry es1)" and ?C2 = "concat (map lp_entry es2)"
  let ?H = "nat_le 4 (lp_total es1) @ nat_le 2 n1 @ ?C1"
  have 1: "rd f 0 (lp_total es1 - 1) = Some ?H"
    using rd_append [of 0 "[]" "lp_total es1 - 1" ?H "LP_EOF # s1"] by (simp add: f lp_bytes_of_def lp_total_def)
  have "length (lp_bytes_of n2 es2) \<le> lp_total (es1 @ es2)" by (simp add: lp_total_def)
  then obtain S where S: "realloc al (lp_total (es1 @ es2)) s = lp_bytes_of n2 es2 @ S"
    "lp_total (es1 @ es2) \<le> length (lp_bytes_of n2 es2 @ S)" unfolding s using realloc_prefix by blast
  let ?E = "nat_le 4 (lp_total es2) @ nat_le 2 n2" and ?B = "?C2 @ [LP_EOF]"
  have "6 + length ?C1 \<le> length ?E + length S" using S(2) by (simp add: lp_total_def)
  then obtain X S' where X: "memmove ([] @ ?E @ ?B @ S) (length ([]::buffer) + (6 + length ?C1)) (length ([]::buffer) + length ?E) (length ?B) =
      Some ([] @ X @ ?B @ S')" "length X = 6 + length ?C1" using memmove_gap by blast
  have m: "memmove (realloc al (lp_total (es1 @ es2)) s) (lp_total es1 - 1) 6 (lp_total es2 - 6) = Some (X @ ?B @ S')"
    using X(1) unfolding S(1) by (simp add: lp_bytes_of_def lp_total_def)
  have "wr (X @ ?B @ S') 0 ?H = Some (?H @ ?B @ S')" using wr_append [of 0 "[]" X ?H "?B @ S'"] X(2) by simp
  then show ?thesis using 1 m by (intro exI [of _ "lp_total es1"] exI [of _ n1] exI [of _ S']) simp
qed

lemma merge_finish:
  assumes ok: "list_all body_ok es" "lp_total es < 4294967296"
  shows "\<exists>lp1 lp2. lpSetNumElements (nat_le 4 t @ nat_le 2 n @ concat (map lp_entry es) @ LP_EOF # S)
      (if length es < 65535 then length es else 65535) = Some lp1 \<and>
    lpSetTotalBytes lp1 (lp_total es) = Some lp2 \<and> lp_rep lp2 es"
proof -
  define m where "m = (if length es < 65535 then length es else 65535)"
  have 1: "lpSetNumElements (nat_le 4 t @ nat_le 2 n @ concat (map lp_entry es) @ LP_EOF # S) m =
      Some (nat_le 4 t @ nat_le 2 m @ concat (map lp_entry es) @ LP_EOF # S)"
    using wr_append [of 4 "nat_le 4 t" "nat_le 2 n" "nat_le 2 m"] by (simp add: lpSetNumElements_def)
  have 2: "lpSetTotalBytes (nat_le 4 t @ nat_le 2 m @ concat (map lp_entry es) @ LP_EOF # S) (lp_total es) = Some (lp_bytes_of m es @ S)"
    using wr_append [of 0 "[]" "nat_le 4 t" "nat_le 4 (lp_total es)"] by (simp add: lpSetTotalBytes_def lp_bytes_of_def)
  have "num_ok es m" by (auto simp: num_ok_def m_def)
  then have "lp_rep (lp_bytes_of m es @ S) es" using ok by (auto simp: lp_rep_def)
  then show ?thesis using 1 2 unfolding m_def by blast
qed

lemma lpMerge_spec:
  assumes f: "lp_rep f es1" and s: "lp_rep s es2"
  shows "if lp_total (es1 @ es2) < UINT32_MAX
    then \<exists>lp'. lpMerge al f s = Some lp' \<and> lp_rep lp' (es1 @ es2) else lpMerge al f s = None"
proof -
  obtain f' where f': "lpLength f = Some (f', length es1)" "lp_rep f' es1" using length_spec [OF f] by blast
  obtain s' where s': "lpLength s = Some (s', length es2)" "lp_rep s' es2" using length_spec [OF s] by blast
  note hd = lp_header(2) [OF f] lp_header(2) [OF s] f'(1) s'(1)
  have b: "lp_total es1 + lp_total es2 - LP_HDR_SIZE - 1 = lp_total (es1 @ es2)" by (simp add: total_append)
  show ?thesis
  proof (cases "lp_total (es1 @ es2) < UINT32_MAX")
    case False
    then show ?thesis using hd b by (simp add: lpMerge_def)
  next
    case True
    have ok: "list_all body_ok (es1 @ es2)" using lp_repE [OF f] lp_repE [OF s] by (metis list_all_append)
    have lt: "lp_total (es1 @ es2) < 4294967296" using True by simp
    show ?thesis
    proof (cases "lp_total es1 \<ge> lp_total es2")
      case ge: True
      obtain t n S where m: "do { xs \<leftarrow> rd s' 6 (lp_total es2 - 6); wr (realloc al (lp_total (es1 @ es2)) f') (lp_total es1 - 1) xs } =
          Some (nat_le 4 t @ nat_le 2 n @ concat (map lp_entry (es1 @ es2)) @ LP_EOF # S)"
        using merge_append [OF f'(2) s'(2)] by blast
      then obtain xs where "rd s' 6 (lp_total es2 - 6) = Some xs" "wr (realloc al (lp_total (es1 @ es2)) f') (lp_total es1 - 1) xs =
          Some (nat_le 4 t @ nat_le 2 n @ concat (map lp_entry (es1 @ es2)) @ LP_EOF # S)" by (auto simp: bind_eq_Some_conv)
      then show ?thesis using merge_finish [OF ok lt, of t n S] hd b True ge by (auto simp: lpMerge_def Let_def)
    next
      case False
      obtain t n S where m: "do {
          b \<leftarrow> memmove (realloc al (lp_total (es1 @ es2)) s') (lp_total es1 - 1) 6 (lp_total es2 - 6);
          xs \<leftarrow> rd f' 0 (lp_total es1 - 1);
          wr b 0 xs } = Some (nat_le 4 t @ nat_le 2 n @ concat (map lp_entry (es1 @ es2)) @ LP_EOF # S)"
        using merge_prepend [OF f'(2) s'(2)] by blast
      then obtain b xs where "memmove (realloc al (lp_total (es1 @ es2)) s') (lp_total es1 - 1) 6 (lp_total es2 - 6) = Some b"
        "rd f' 0 (lp_total es1 - 1) = Some xs" "wr b 0 xs = Some (nat_le 4 t @ nat_le 2 n @ concat (map lp_entry (es1 @ es2)) @ LP_EOF # S)"
        by (auto simp: bind_eq_Some_conv)
      then show ?thesis using merge_finish [OF ok lt, of t n S] hd b True False by (auto simp: lpMerge_def Let_def)
    qed
  qed
qed

end
