(* ===== verification/Listpack_Valid.thy ===== *)
theory Listpack_Valid
  imports Listpack_Bulk
begin

text \<open>
  The validation of untrusted listpacks. On every buffer it stays in bounds and ends, it accepts what the operations
  build, and in an accepted buffer the entries can be walked in both directions and read without leaving the buffer.
\<close>

subsection \<open>The length at the end of an entry\<close>

lemma backlen_total:
  assumes "p < length lp" and "28 \<le> shift + 7 * p"
  shows "\<exists>v. backlen_loop lp p val shift = Some v"
  using assms
proof (induction lp p val shift rule: backlen_loop.induct)
  case (1 lp p val shift)
  then have r: "rd_byte lp p = Some (lp ! p)" by (simp add: rd_byte_def)
  show ?case
  proof (cases "lp ! p AND 128 = 0 \<or> 28 < shift + 7")
    case True
    then show ?thesis using r by (subst backlen_loop.simps) (auto simp: Let_def)
  next
    case False
    then have "p \<noteq> 0" using 1(3) by auto
    then have "\<exists>v. backlen_loop lp (p - 1) (val + unat (lp ! p AND 127) * 2 ^ shift) (shift + 7) = Some v"
      using 1(1) [OF r refl] 1(2,3) False by auto
    then show ?thesis using r False \<open>p \<noteq> 0\<close> by (subst backlen_loop.simps) (simp add: Let_def)
  qed
qed

lemma backlen_shape:
  assumes "backlen_loop lp p val shift = Some v" and "shift \<le> 28" and "val < 2 ^ shift"
  shows "v = UINT64_MAX \<or> v < 2 ^ 35 \<and> (\<exists>k. v = val + k * 2 ^ shift)"
  using assms
proof (induction lp p val shift rule: backlen_loop.induct)
  case (1 lp p val shift)
  obtain b where b: "rd_byte lp p = Some b" using 1(2) by (subst (asm) backlen_loop.simps) (auto simp: bind_eq_Some_conv)
  let ?m = "unat (b AND 127)"
  let ?val = "val + ?m * 2 ^ shift"
  have m: "?m < 128" by (simp add: byte_mask)
  have "?val < 2 ^ shift + ?m * 2 ^ shift" using 1(4) by simp
  also have "\<dots> = (?m + 1) * 2 ^ shift" by simp
  also have "\<dots> \<le> 128 * 2 ^ shift" using m by (intro mult_right_mono) auto
  finally have lt: "?val < 2 ^ (shift + 7)" by (simp add: power_add)
  show ?case
  proof (cases "b AND 128 = 0 \<or> 28 < shift + 7")
    case True
    then have "v = UINT64_MAX \<or> v = ?val" using 1(2) b by (subst (asm) backlen_loop.simps) (auto simp: Let_def split: if_splits)
    moreover have "(2::nat) ^ (shift + 7) \<le> 2 ^ 35" using 1(3) by (intro power_increasing) auto
    ultimately show ?thesis using lt by (metis less_le_trans)
  next
    case False
    then have "backlen_loop lp (p - 1) ?val (shift + 7) = Some v" "p \<noteq> 0"
      using 1(2) b by (subst (asm) backlen_loop.simps, auto simp: Let_def split: if_splits)+
    then have "v = UINT64_MAX \<or> v < 2 ^ 35 \<and> (\<exists>k. v = ?val + k * 2 ^ (shift + 7))"
      using 1(1) [OF b refl] False lt by auto
    moreover have "?val + k * 2 ^ (shift + 7) = val + (?m + k * 128) * 2 ^ shift" for k by (simp add: power_add algebra_simps)
    ultimately show ?thesis by metis
  qed
qed

lemma decode_backlen_low:
  assumes "lpDecodeBacklen lp p = Some v"
  shows "v = UINT64_MAX \<or> v < 2 ^ 35 \<and> (\<exists>b. rd_byte lp p = Some b \<and> v mod 128 = unat b mod 128)"
proof -
  obtain b where b: "rd_byte lp p = Some b"
    using assms unfolding lpDecodeBacklen_def by (subst (asm) backlen_loop.simps) (auto simp: bind_eq_Some_conv)
  have "v = unat b mod 128 \<or> backlen_loop lp (p - 1) (unat b mod 128) 7 = Some v"
    using assms b unfolding lpDecodeBacklen_def by (subst (asm) backlen_loop.simps) (auto simp: Let_def byte_mask split: if_splits)
  moreover have "v = UINT64_MAX \<or> v < 2 ^ 35 \<and> (\<exists>k. v = unat b mod 128 + k * 2 ^ 7)"
    if "backlen_loop lp (p - 1) (unat b mod 128) 7 = Some v" using backlen_shape [OF that] by simp
  ultimately show ?thesis using b by fastforce
qed

subsection \<open>The size of an entry\<close>

lemma size_total:
  assumes b: "rd_byte lp p = Some b" and nz: "lpCurrentEncodedSizeBytes b \<noteq> 0" "b \<noteq> LP_EOF"
    and le: "p + lpCurrentEncodedSizeBytes b \<le> length lp"
  shows "\<exists>n. lpCurrentEncodedSizeUnsafe lp p = Some n \<and> n < 2 ^ 32 \<and>
    (lpCurrentEncodedSizeBytes b \<le> n \<or> unat b = 240 \<and> (\<exists>xs. rd lp (p + 1) 4 = Some xs \<and> le_nat xs + 5 = n + 2 ^ 32))"
proof -
  have p: "p < length lp" using b by (auto simp: rd_byte_def split: if_splits)
  have ne: "unat b \<noteq> 255" using nz(2) by (simp add: byte_eof)
  consider "unat b < 224 \<or> 241 \<le> unat b" | "224 \<le> unat b" "unat b < 240" | "unat b = 240" by linarith
  then show ?thesis
  proof cases
    case 1
    then show ?thesis
      using b nz(1) ne by (auto simp: lpCurrentEncodedSizeUnsafe_def lpCurrentEncodedSizeBytes_def LP_ENCODING_6BIT_STR_LEN_def byte_mask
          byte_eof split: if_splits intro: order_le_less_trans [OF mod_less_divisor [THEN less_imp_le]])
  next
    case 2
    then have "rd_byte lp (p + 1) = Some (lp ! (p + 1))" using le by (simp add: lpCurrentEncodedSizeBytes_def rd_byte_def)
    moreover have "unat b mod 16 \<le> 15" using mod_less_divisor [of 16 "unat b"] by linarith
    then have "unat b mod 16 * 256 + unat (lp ! (p + 1)) < 4096" using unat_lt [of "lp ! (p + 1)"] by linarith
    ultimately show ?thesis
      using b 2 by (simp add: lpCurrentEncodedSizeUnsafe_def lpCurrentEncodedSizeBytes_def LP_ENCODING_12BIT_STR_LEN_def byte_mask)
  next
    case 3
    then have "p + 1 + 4 \<le> length lp" using le by (simp add: lpCurrentEncodedSizeBytes_def)
    then obtain xs where xs: "rd lp (p + 1) 4 = Some xs" by (simp add: rd_def)
    then have "length xs = 4" by (rule rd_length)
    then have n: "le_nat xs < 4294967296" using le_nat_bound [of xs] by simp
    have s: "lpCurrentEncodedSizeUnsafe lp p = Some (u32 (5 + int (le_nat xs)))"
      using b 3 xs by (simp add: lpCurrentEncodedSizeUnsafe_def LP_ENCODING_32BIT_STR_LEN_def)
    have "u32 (5 + int (le_nat xs)) = (5 + le_nat xs) mod 4294967296" by (simp add: u32_def nat_mod_distrib nat_add_distrib)
    also have "\<dots> = (if le_nat xs + 5 < 4294967296 then le_nat xs + 5 else le_nat xs + 5 - 4294967296)"
      using n by (auto simp: mod_if)
    finally show ?thesis using s n 3 xs by (auto simp: lpCurrentEncodedSizeBytes_def split: if_splits)
  qed
qed

text \<open>The size of a long string may wrap around, but then the byte at the end of the entry is one of its own length.\<close>

lemma le_nat_wrapped:
  assumes "length xs = 4" and "le_nat xs + 5 = n + 4294967296" and "1 \<le> n"
  shows "unat (xs ! (n - 1)) mod 128 \<noteq> n mod 128"
proof -
  obtain a b c d where xs: "xs = [a, b, c, d]" using assms(1) by (auto simp: length_Suc_conv numeral_eq_Suc)
  have l: "unat a \<le> 255" "unat b \<le> 255" "unat c \<le> 255" "unat d \<le> 255"
    using unat_lt [of a] unat_lt [of b] unat_lt [of c] unat_lt [of d] by linarith+
  have e: "unat a + 256 * unat b + 65536 * unat c + 16777216 * unat d + 5 = n + 4294967296" using assms(2) xs by simp
  have f: "unat d = 255" "unat c = 255" "unat b = 255" using e l assms(3) by linarith+
  moreover have a: "unat a = n + 251" using e unfolding f by simp
  moreover have "n \<in> {1, 2, 3, 4}" using a l(1) assms(3) by auto
  ultimately show ?thesis by (auto simp: xs)
qed

text \<open>A string lies between the header and the terminator.\<close>

definition in_bounds :: "nat \<Rightarrow> lp_value \<Rightarrow> bool" where
  "in_bounds bytes v \<longleftrightarrow> (case v of LpString off n \<Rightarrow> LP_HDR_SIZE \<le> off \<and> off + n < bytes | LpInt _ \<Rightarrow> True)"

lemma validate_next_total:
  assumes "bytes \<le> length lp"
  shows "\<exists>r. lpValidateNext lp pp bytes = Some r"
proof (cases pp)
  case None
  then show ?thesis by (simp add: lpValidateNext_def)
next
  case (Some p)
  show ?thesis
  proof (cases "OUT_OF_RANGE bytes p")
    case True
    then show ?thesis using Some by (simp add: lpValidateNext_def)
  next
    case False
    then have p: "6 \<le> p" "p < bytes" by (auto simp: OUT_OF_RANGE_def)
    then have b: "rd_byte lp p = Some (lp ! p)" using assms by (simp add: rd_byte_def)
    show ?thesis
    proof (cases "lp ! p = LP_EOF \<or> lpCurrentEncodedSizeBytes (lp ! p) = 0 \<or> OUT_OF_RANGE bytes (p + lpCurrentEncodedSizeBytes (lp ! p))")
      case True
      then show ?thesis using Some False b by (auto simp: lpValidateNext_def Let_def)
    next
      case ok: False
      then have "p + lpCurrentEncodedSizeBytes (lp ! p) \<le> length lp" using assms by (auto simp: OUT_OF_RANGE_def)
      then obtain n where n: "lpCurrentEncodedSizeUnsafe lp p = Some n" using size_total [OF b] ok by auto
      let ?e = "n + length (lpEncodeBacklen n)"
      show ?thesis
      proof (cases "OUT_OF_RANGE bytes (p + ?e)")
        case True
        then show ?thesis using Some False b ok n by (simp add: lpValidateNext_def Let_def)
      next
        case in_range: False
        then have "p + ?e - 1 < length lp" "28 \<le> 0 + 7 * (p + ?e - 1)"
          using p assms backlen_bounds(1) [of n] by (auto simp: OUT_OF_RANGE_def)
        then obtain v where "lpDecodeBacklen lp (p + ?e - 1) = Some v" using backlen_total unfolding lpDecodeBacklen_def by blast
        then show ?thesis using Some False b ok n in_range by (simp add: lpValidateNext_def Let_def)
      qed
    qed
  qed
qed

lemma u64_wrap:
  assumes "1 \<le> k" and "k \<le> 5"
  shows "u64 (int UINT64_MAX + int k) = k - 1"
proof -
  have "int UINT64_MAX + int k = (int k - 1) + 1 * 18446744073709551616" by simp
  then have "(int UINT64_MAX + int k) mod 18446744073709551616 = (int k - 1) mod 18446744073709551616" by (simp only: mod_mult_self1)
  also have "\<dots> = int k - 1" using assms by (intro mod_pos_pos_trivial) auto
  finally show ?thesis by (simp add: u64_def)
qed

text \<open>What the acceptance of an entry means.\<close>

lemma validate_next_Some:
  assumes v: "lpValidateNext lp (Some p) bytes = Some (True, Some q)" and le: "bytes \<le> length lp"
  obtains size where "6 \<le> p" "p < q" "q < bytes" "lpCurrentEncodedSizeUnsafe lp p = Some size" "size < 2 ^ 32"
    "q = p + (size + length (lpEncodeBacklen size))" "lpDecodeBacklen lp (q - 1) = Some size"
    "body_ok (take size (drop p lp))"
proof -
  have o: "\<not> OUT_OF_RANGE bytes p" using v by (auto simp: lpValidateNext_def split: if_splits)
  then have p: "6 \<le> p" "p < bytes" by (auto simp: OUT_OF_RANGE_def)
  obtain b where b: "rd_byte lp p = Some b" using p le by (simp add: rd_byte_def)
  have ne: "b \<noteq> LP_EOF" "lpCurrentEncodedSizeBytes b \<noteq> 0" "\<not> OUT_OF_RANGE bytes (p + lpCurrentEncodedSizeBytes b)"
    using v o b by (auto simp: lpValidateNext_def Let_def split: if_splits)
  then have "p + lpCurrentEncodedSizeBytes b \<le> length lp" using le by (auto simp: OUT_OF_RANGE_def)
  then obtain n where n: "lpCurrentEncodedSizeUnsafe lp p = Some n" "n < 2 ^ 32"
    "lpCurrentEncodedSizeBytes b \<le> n \<or> unat b = 240 \<and> (\<exists>xs. rd lp (p + 1) 4 = Some xs \<and> le_nat xs + 5 = n + 2 ^ 32)"
    using size_total [OF b ne(2,1)] by blast
  let ?bl = "length (lpEncodeBacklen n)"
  have bk: "1 \<le> ?bl" "?bl \<le> 5" using backlen_bounds [of n] by linarith+
  have step: "lpValidateNext lp (Some p) bytes = (if OUT_OF_RANGE bytes (p + (n + ?bl)) then Some (False, Some p)
      else do {
        prevlen \<leftarrow> lpDecodeBacklen lp (p + (n + ?bl) - 1);
        if u64 (int prevlen + int ?bl) \<noteq> n + ?bl then Some (False, Some p) else Some (True, Some (p + (n + ?bl)))
      })"
    using o b ne n(1) by (simp add: lpValidateNext_def Let_def)
  have o2: "\<not> OUT_OF_RANGE bytes (p + (n + ?bl))" using v unfolding step by (auto split: if_splits)
  then have qb: "p + (n + ?bl) < bytes" by (auto simp: OUT_OF_RANGE_def)
  obtain prev where prev: "lpDecodeBacklen lp (p + (n + ?bl) - 1) = Some prev" "u64 (int prev + int ?bl) = n + ?bl" "q = p + (n + ?bl)"
    using v o2 unfolding step by (cases "lpDecodeBacklen lp (p + (n + ?bl) - 1)") (auto split: if_splits)
  have "u64 (int UINT64_MAX + int ?bl) = ?bl - 1" using u64_wrap [OF bk] .
  then have "prev \<noteq> UINT64_MAX" using prev(2) bk by auto
  then obtain c where c: "prev < 2 ^ 35" "rd_byte lp (p + (n + ?bl) - 1) = Some c" "prev mod 128 = unat c mod 128"
    using decode_backlen_low [OF prev(1)] by blast
  have "u64 (int prev + int ?bl) = prev + ?bl" using c(1) bk by (subst u64_small) (auto simp: nat_add_distrib)
  then have pn: "prev = n" using prev(2) by simp
  have big: "lpCurrentEncodedSizeBytes b \<le> n"
  proof (rule ccontr)
    assume "\<not> lpCurrentEncodedSizeBytes b \<le> n"
    then obtain xs where xs: "unat b = 240" "rd lp (p + 1) 4 = Some xs" "le_nat xs + 5 = n + 4294967296" using n(3) by auto
    then have l: "length xs = 4" by (simp add: rd_length)
    then have "le_nat xs < 4294967296" using le_nat_bound [of xs] by simp
    then have n5: "n < 5" using xs(3) by linarith
    then have "?bl = 1" by (simp add: lpEncodeBacklen_def)
    then have c': "rd_byte lp (p + n) = Some c" using c(2) by simp
    show False
    proof (cases "n = 0")
      case True
      then show ?thesis using c' b xs(1) c(3) pn by simp
    next
      case False
      then have "xs ! (n - 1) = lp ! (p + n)" using xs(2) n5 by (auto simp: rd_def split: if_splits)
      moreover have "c = lp ! (p + n)" using c' by (auto simp: rd_byte_def split: if_splits)
      ultimately show ?thesis using le_nat_wrapped [OF l xs(3)] False c(3) pn by simp
    qed
  qed
  let ?B = "take n (drop p lp)"
  have lp: "take p lp @ ?B @ drop n (drop p lp) = lp" by (simp only: append_take_drop_id)
  have lB: "length ?B = n" using qb le by simp
  have n0: "n \<noteq> 0" using big ne(2) by simp
  have B0: "?B \<noteq> []" using n0 lB by (metis list.size(3))
  have "lp ! p = b" using b by (simp add: rd_byte_def split: if_splits)
  then have hd: "?B ! 0 = b" using n0 qb le by simp
  have B: "rd_byte ?B 0 = Some b" "hd ?B = b" using B0 hd unfolding rd_byte_def hd_conv_nth [OF B0] by simp_all
  have "0 + lpCurrentEncodedSizeBytes b \<le> length ?B" using big unfolding lB by simp
  then obtain m where m: "lpCurrentEncodedSizeUnsafe ?B 0 = Some m" using size_total [OF B(1) ne(2,1)] by blast
  then have "lpCurrentEncodedSizeUnsafe lp p = Some m" using encoded_size_inside [OF m, of "take p lp" "drop n (drop p lp)"] p le unfolding lp by simp
  then have "m = n" using n(1) by simp
  then have "body_ok ?B" using m n(2) B(2) ne(1) B0 unfolding body_ok_def lB by simp
  then show ?thesis using that [of n] p qb n0 prev pn n(1,2) by simp
qed

subsection \<open>The validation loop\<close>

text \<open>The entries accepted from \<open>p\<close> on, up to the terminator at \<open>e\<close>.\<close>

fun chain :: "buffer \<Rightarrow> nat \<Rightarrow> nat \<Rightarrow> nat list \<Rightarrow> nat \<Rightarrow> bool" where
  "chain lp bytes p [] e \<longleftrightarrow> p = e \<and> rd_byte lp e = Some LP_EOF"
| "chain lp bytes p (x # xs) e \<longleftrightarrow> x = p \<and> rd_byte lp p \<noteq> Some LP_EOF \<and>
     (\<exists>q. lpValidateNext lp (Some p) bytes = Some (True, Some q) \<and> chain lp bytes q xs e)"

lemma chain_length: "chain lp bytes p xs e \<Longrightarrow> bytes \<le> length lp \<Longrightarrow> p + length xs \<le> e"
proof (induction xs arbitrary: p)
  case (Cons x xs)
  then obtain q where q: "lpValidateNext lp (Some p) bytes = Some (True, Some q)" "chain lp bytes q xs e" by auto
  have "p < q" using validate_next_Some [OF q(1) Cons.prems(2)] by metis
  then show ?case using Cons.IH [OF q(2) Cons.prems(2)] by simp
qed simp

lemma chain_nth:
  assumes "chain lp bytes p xs e" and "i < length xs"
  shows "rd_byte lp (xs ! i) \<noteq> Some LP_EOF \<and> lpValidateNext lp (Some (xs ! i)) bytes = Some (True, Some ((xs @ [e]) ! Suc i))"
  using assms
proof (induction xs arbitrary: p i)
  case (Cons x xs)
  then obtain q where q: "x = p" "rd_byte lp p \<noteq> Some LP_EOF" "lpValidateNext lp (Some p) bytes = Some (True, Some q)" "chain lp bytes q xs e"
    by auto
  have "(xs @ [e]) ! 0 = q" using q(4) by (cases xs) auto
  then show ?case using q Cons.IH [OF q(4), of "i - 1"] Cons.prems(2) by (cases i) auto
qed simp

lemma chain_ends:
  assumes "chain lp bytes p xs e"
  shows "(xs @ [e]) ! 0 = p" and "rd_byte lp e = Some LP_EOF"
proof -
  show "(xs @ [e]) ! 0 = p" using assms by (cases xs) auto
  show "rd_byte lp e = Some LP_EOF" using assms by (induction xs arbitrary: p) auto
qed

lemma u32_bound: "u32 x < 4294967296"
  by (simp add: u32_def nat_less_iff)

lemma validate_loop_spec:
  assumes "bytes \<le> length lp" and "6 \<le> p" "p < bytes" and "n < 4294967296"
  shows "\<exists>r. validate_loop lp bytes entry_cb numele (Some p) n = Some r \<and>
    (\<forall>pp m. r = Some (pp, m) \<longrightarrow> (\<exists>ps e. pp = Some e \<and> chain lp bytes p ps e \<and> m = u32 (int n + int (length ps))))"
  using assms(2-)
proof (induction "bytes - p" arbitrary: p n rule: less_induct)
  case less
  have b: "rd_byte lp p = Some (lp ! p)" using less.prems assms(1) by (simp add: rd_byte_def)
  show ?case
  proof (cases "lp ! p = LP_EOF")
    case True
    then show ?thesis using b less.prems(3) by (subst validate_loop.simps) (auto intro!: exI [of _ "[]"] simp: u32_def)
  next
    case eof: False
    obtain ok pp where v: "lpValidateNext lp (Some p) bytes = Some (ok, pp)" using validate_next_total [OF assms(1), of "Some p"] by auto
    show ?thesis
    proof (cases "ok \<and> \<not> (case entry_cb of None \<Rightarrow> False | Some cb \<Rightarrow> \<not> cb p numele)")
      case False
      then show ?thesis using b eof v by (subst validate_loop.simps) auto
    next
      case True
      obtain q where q: "pp = Some q"
        using v True b eof by (auto simp: lpValidateNext_def Let_def bind_eq_Some_conv split: if_splits)
      have s: "lpValidateNext lp (Some p) bytes = Some (True, Some q)" using v True q by simp
      have pq: "p < q" "q < bytes" using validate_next_Some [OF s assms(1)] by metis+
      obtain r where r: "validate_loop lp bytes entry_cb numele (Some q) (u32 (int n + 1)) = Some r"
        "\<forall>pp m. r = Some (pp, m) \<longrightarrow> (\<exists>ps e. pp = Some e \<and> chain lp bytes q ps e \<and> m = u32 (int (u32 (int n + 1)) + int (length ps)))"
        using less.hyps [of q "u32 (int n + 1)"] less.prems pq diff_less_mono2 [OF pq(1), of bytes] u32_bound by auto
      have u: "u32 (int (u32 (int n + 1)) + int k) = u32 (int n + int (Suc k))" for k by (simp add: u32_def mod_simps algebra_simps)
      have "validate_loop lp bytes entry_cb numele (Some p) n = Some r"
        using b eof s True r(1) by (subst validate_loop.simps) auto
      moreover have "\<exists>ps e. pp = Some e \<and> chain lp bytes p ps e \<and> m = u32 (int n + int (length ps))" if rs: "r = Some (pp, m)" for pp m
      proof -
        obtain ps e where "pp = Some e" "chain lp bytes q ps e" "m = u32 (int (u32 (int n + 1)) + int (length ps))"
          using r(2) rs by blast
        then show ?thesis using s b eof u [of "length ps"] by (intro exI [of _ "p # ps"] exI [of _ e]) auto
      qed
      ultimately show ?thesis by blast
    qed
  qed
qed

lemma validate_total:
  assumes "sz \<le> length lp"
  shows "\<exists>r. lpValidateIntegrity lp sz deep entry_cb = Some r"
proof (cases "sz < 7")
  case True
  then show ?thesis by (simp add: lpValidateIntegrity_def)
next
  case False
  obtain bytes where t: "lpGetTotalBytes lp = Some bytes" using False assms by (simp add: lpGetTotalBytes_def rd_def)
  obtain num where n: "lpGetNumElements lp = Some num" using False assms by (simp add: lpGetNumElements_def rd_def)
  have e: "rd_byte lp (sz - 1) = Some (lp ! (sz - 1))" using False assms by (simp add: rd_byte_def)
  have p: "6 < sz" using False by simp
  obtain r where r: "validate_loop lp sz entry_cb num (Some 6) 0 = Some r" using validate_loop_spec [OF assms order_refl p, of 0 entry_cb num] by auto
  show ?thesis using False t n e r by (auto simp: lpValidateIntegrity_def)
qed

lemma validated_chain:
  assumes v: "lpValidateIntegrity lp sz True entry_cb = Some True" and le: "sz \<le> length lp"
  obtains ps num where "chain lp sz 6 ps (sz - 1)" "lpBytes lp = Some sz" "lpGetNumElements lp = Some num"
    "num = 65535 \<or> num = length ps" "7 \<le> sz" "sz < 2 ^ 32" "length ps < sz"
proof -
  have sz: "7 \<le> sz" using v by (auto simp: lpValidateIntegrity_def split: if_splits)
  have t: "lpGetTotalBytes lp = Some sz"
    using v sz by (cases "lpGetTotalBytes lp") (auto simp: lpValidateIntegrity_def split: if_splits)
  then obtain xs where "rd lp 0 4 = Some xs" "sz = le_nat xs" by (auto simp: lpGetTotalBytes_def)
  then have lt: "sz < 4294967296" using le_nat_bound [of xs] rd_length by fastforce
  have e: "rd_byte lp (sz - 1) = Some LP_EOF"
    using v sz t by (cases "rd_byte lp (sz - 1)") (auto simp: lpValidateIntegrity_def split: if_splits)
  obtain num where n: "lpGetNumElements lp = Some num" using sz le by (simp add: lpGetNumElements_def rd_def)
  have p: "6 < sz" using sz by simp
  obtain r where r: "validate_loop lp sz entry_cb num (Some 6) 0 = Some r"
    "\<forall>pp m. r = Some (pp, m) \<longrightarrow> (\<exists>ps e. pp = Some e \<and> chain lp sz 6 ps e \<and> m = u32 (int 0 + int (length ps)))"
    using validate_loop_spec [OF le order_refl p, of 0 entry_cb num] by auto
  have acc: "(case r of None \<Rightarrow> False | Some (pp, n) \<Rightarrow> pp = Some (sz - 1) \<and> \<not> (num \<noteq> LP_HDR_NUMELE_UNKNOWN \<and> num \<noteq> n))"
    using v sz t e n r(1) by (simp add: lpValidateIntegrity_def)
  then obtain m where m: "r = Some (Some (sz - 1), m)" "num = 65535 \<or> num = m" by (cases r) auto
  then obtain ps where ps: "chain lp sz 6 ps (sz - 1)" "m = u32 (int (length ps))" using r(2) by auto
  have l: "length ps < sz" using chain_length [OF ps(1) le] sz by simp
  then have "m = length ps" using ps(2) lt by (simp add: u32_def)
  then show ?thesis using that [OF ps(1) _ n _ sz _ l] t lt m(2) by (simp add: lpBytes_def)
qed

subsection \<open>Walking an accepted listpack\<close>

lemma valid_get:
  assumes v: "lpValidateNext lp (Some p) bytes = Some (True, Some q)" and le: "bytes \<le> length lp"
  shows "\<exists>v. lpGet lp p = Some v \<and> in_bounds bytes v"
proof -
  obtain n where n: "p < q" "q < bytes" "q = p + (n + length (lpEncodeBacklen n))" "body_ok (take n (drop p lp))" "6 \<le> p"
    using validate_next_Some [OF v le] by metis
  let ?B = "take n (drop p lp)"
  have lB: "length ?B = n" using n le by simp
  obtain w where w: "lpGetWithSize ?B 0 = Some (w, Some (length (lp_entry ?B)))" "\<forall>off m. w = LpString off m \<longrightarrow> off + m = n"
    using body_get [OF n(4)] unfolding lB by blast
  have lp: "take p lp @ ?B @ drop n (drop p lp) = lp" by (simp only: append_take_drop_id)
  have g: "lpGetWithSize lp p = Some (lp_shift p w, Some (length (lp_entry ?B)))"
    using get_inside [OF w(1), of "take p lp" "drop n (drop p lp)"] n le unfolding lp by simp
  have "in_bounds bytes (lp_shift p w)"
    using w(2) n(2,3,5) by (cases w) (auto simp: in_bounds_def)
  then show ?thesis using g by (simp add: lpGet_def)
qed

lemma valid_links:
  assumes v: "lpValidateNext lp (Some p) bytes = Some (True, Some q)" and le: "bytes \<le> length lp" and b: "lpBytes lp = Some bytes"
  shows "lpSkip lp p = Some q" and "lpPrev lp q = Some (Some p)"
proof -
  obtain n where n: "6 \<le> p" "p < q" "q < bytes" "lpCurrentEncodedSizeUnsafe lp p = Some n" "n < 2 ^ 32"
    "q = p + (n + length (lpEncodeBacklen n))" "lpDecodeBacklen lp (q - 1) = Some n"
    using validate_next_Some [OF v le] by metis
  show "lpSkip lp p = Some q" using n(4,6) by (simp add: lpSkip_def)
  have u: "u64 (int n + int (length (lpEncodeBacklen n))) = n + length (lpEncodeBacklen n)"
    using n(5) backlen_bounds(2) [of n] by (subst u64_small) (auto simp: nat_add_distrib)
  have a: "lpAssertValidEntry lp bytes p = Some ()" using v by (simp add: lpAssertValidEntry_def)
  have q: "int q - (int n + int (length (lpEncodeBacklen n))) = int p" using n(6) by linarith
  have le_q: "n + length (lpEncodeBacklen n) \<le> q" using n(6) by simp
  have "q \<noteq> 6" "q \<noteq> 0" using n(1,2) by simp_all
  then show "lpPrev lp q = Some (Some p)" using n(7) b a u le_q by (simp add: lpPrev_def Let_def q)
qed

lemma count_walk:
  assumes "\<forall>i<length ps. lpNext lp (ps ! i) = Some (if Suc i < length ps then Some (ps ! Suc i) else None)"
    and "i \<le> length ps" and "n + (length ps - i) < 4294967296"
  shows "count_loop lp (if i < length ps then Some (ps ! i) else None) n = Some (n + (length ps - i))"
  using assms(2,3)
proof (induction "length ps - i" arbitrary: i n)
  case 0
  then show ?case by (subst count_loop.simps) simp
next
  case (Suc m)
  then have i: "i < length ps" by simp
  have "count_loop lp (if Suc i < length ps then Some (ps ! Suc i) else None) (n + 1) = Some (n + 1 + (length ps - Suc i))"
    using Suc.hyps(2) Suc.prems i by (intro Suc.hyps(1)) auto
  moreover have "u32 (int n + 1) = n + 1" using Suc.prems(2) i by (simp add: u32_def nat_add_distrib)
  ultimately show ?case using i assms(1) by (subst count_loop.simps) simp
qed

lemma validated_walk:
  assumes v: "lpValidateIntegrity lp sz True entry_cb = Some True" and le: "sz \<le> length lp"
  shows "\<exists>ps. lpFirst lp = Some (if ps = [] then None else Some (hd ps)) \<and>
    lpLast lp = Some (if ps = [] then None else Some (last ps)) \<and>
    (\<forall>i<length ps. lpNext lp (ps ! i) = Some (if Suc i < length ps then Some (ps ! Suc i) else None) \<and>
       lpPrev lp (ps ! i) = Some (if i = 0 then None else Some (ps ! (i - 1))) \<and>
       (\<exists>v. lpGet lp (ps ! i) = Some v \<and> in_bounds sz v)) \<and>
    map_option snd (lpLength lp) = Some (length ps)"
proof -
  obtain ps num where ps: "chain lp sz 6 ps (sz - 1)" "lpBytes lp = Some sz" "lpGetNumElements lp = Some num"
    "num = 65535 \<or> num = length ps" "7 \<le> sz" "sz < 2 ^ 32" "length ps < sz" using validated_chain [OF v le] .
  note ends = chain_ends [OF ps(1)]
  have val: "lpValidateNext lp (Some (ps ! i)) sz = Some (True, Some ((ps @ [sz - 1]) ! Suc i))" "rd_byte lp (ps ! i) \<noteq> Some LP_EOF"
    "lpAssertValidEntry lp sz (ps ! i) = Some ()" "\<exists>b. rd_byte lp (ps ! i) = Some b" if "i < length ps" for i
  proof -
    show 1: "lpValidateNext lp (Some (ps ! i)) sz = Some (True, Some ((ps @ [sz - 1]) ! Suc i))" "rd_byte lp (ps ! i) \<noteq> Some LP_EOF"
      using chain_nth [OF ps(1) that] by simp_all
    show "lpAssertValidEntry lp sz (ps ! i) = Some ()" using 1 by (simp add: lpAssertValidEntry_def)
    have "ps ! i < sz" using validate_next_Some [OF 1(1) le] by (metis less_trans)
    then show "\<exists>b. rd_byte lp (ps ! i) = Some b" using le by (simp add: rd_byte_def)
  qed
  have nx: "lpNext lp (ps ! i) = Some (if Suc i < length ps then Some (ps ! Suc i) else None)" if i: "i < length ps" for i
  proof (cases "Suc i < length ps")
    case True
    then show ?thesis using valid_links(1) [OF val(1) [OF i] le ps(2)] val(2,3,4) [OF True] ps(2) by (auto simp: lpNext_def nth_append)
  next
    case False
    then have "(ps @ [sz - 1]) ! Suc i = sz - 1" using i by (simp add: nth_append)
    then show ?thesis using valid_links(1) [OF val(1) [OF i] le ps(2)] ends(2) False by (simp add: lpNext_def)
  qed
  have pv: "lpPrev lp ((ps @ [sz - 1]) ! i) = Some (if i = 0 then None else Some (ps ! (i - 1)))" if i: "i \<le> length ps" for i
  proof (cases i)
    case 0
    then show ?thesis using ends(1) by (simp add: lpPrev_def)
  next
    case (Suc j)
    then show ?thesis using valid_links(2) [OF val(1) [of j] le ps(2)] i by simp
  qed
  have fst: "lpFirst lp = Some (if ps = [] then None else Some (hd ps))"
  proof (cases "ps = []")
    case True
    then show ?thesis using ends by (simp add: lpFirst_def)
  next
    case False
    then have "ps ! 0 = 6" using ends(1) by (simp add: nth_append)
    then show ?thesis using val(2,3,4) [of 0] ps(2) False by (auto simp: lpFirst_def hd_conv_nth)
  qed
  have lst: "lpLast lp = Some (if ps = [] then None else Some (last ps))"
    using pv [of "length ps"] ps(2,5) by (auto simp: lpLast_def lpBytes_def last_conv_nth)
  have len: "map_option snd (lpLength lp) = Some (length ps)"
  proof (cases "num = 65535")
    case False
    then show ?thesis using ps(3,4) by (simp add: lpLength_def)
  next
    case True
    have "count_loop lp (if ps = [] then None else Some (hd ps)) 0 = Some (length ps)"
      using count_walk [of ps lp 0 0] nx ps(6,7) by (cases ps) auto
    moreover have "\<exists>lp'. lpSetNumElements lp (length ps) = Some lp'" using ps(5) le by (simp add: lpSetNumElements_def wr_def)
    ultimately show ?thesis using True ps(3) fst by (auto simp: lpLength_def)
  qed
  have "lpPrev lp (ps ! i) = Some (if i = 0 then None else Some (ps ! (i - 1)))" if "i < length ps" for i
    using pv [of i] that by (simp add: nth_append)
  moreover have "\<exists>v. lpGet lp (ps ! i) = Some v \<and> in_bounds sz v" if "i < length ps" for i
    using valid_get [OF val(1) [OF that] le] .
  ultimately show ?thesis using fst lst nx len by blast
qed

subsection \<open>Acceptance\<close>

lemma rep_accepted:
  assumes r: "lp_rep lp es"
  shows "lpValidateIntegrity lp (lp_total es) deep None = Some True"
proof -
  have loop: "validate_loop lp (lp_total es) None num (Some (lp_pos es i)) n = Some (Some (Some (lp_total es - 1), n + (length es - i)))"
    if "i \<le> length es" "n + (length es - i) < 4294967296" for num i n
    using that
  proof (induction "length es - i" arbitrary: i n)
    case 0
    then have "i = length es" by simp
    then show ?case using eof_at_end [OF r] by (subst validate_loop.simps) (simp add: lp_pos_end)
  next
    case (Suc m)
    then have i: "i < length es" by simp
    have "validate_loop lp (lp_total es) None num (Some (lp_pos es (Suc i))) (n + 1) =
        Some (Some (Some (lp_total es - 1), n + 1 + (length es - Suc i)))"
      using Suc.hyps(2) Suc.prems i by (intro Suc.hyps(1)) auto
    moreover have "u32 (int n + 1) = n + 1" using Suc.prems(2) i by (simp add: u32_def nat_add_distrib)
    ultimately show ?case using i read_entry(2,3) [OF r i] validate_entry [OF r i] by (subst validate_loop.simps) simp
  qed
  obtain num where num: "lpGetNumElements lp = Some num" "num_ok es num" using lp_header(3) [OF r] by blast
  have "lp_total es < 2 ^ 32" using lp_repE [OF r] by blast
  then have "length es < 4294967296" using lp_total_ge [of es] by simp
  then have "validate_loop lp (lp_total es) None num (Some 6) 0 = Some (Some (Some (lp_total es - 1), length es))"
    using loop [of 0 0 num] by simp
  moreover have "7 \<le> lp_total es" by (simp add: lp_total_def)
  ultimately show ?thesis using lp_header(1,5) [OF r] num by (auto simp: lpValidateIntegrity_def num_ok_def)
qed

end
