(* ===== verification/Listpack_Spec.thy ===== *)
theory Listpack_Spec
  imports Listpack_Valid
begin

text \<open>
  The contract of the listpack: a list of strings. Every sequence of operations on a new listpack returns what the list
  of strings returns, refuses what does not fit in 32 bits, and leaves a buffer that the validation accepts.
\<close>

subsection \<open>The operations of a client\<close>

datatype lp_op = OpAppend buffer | OpAppendInteger int | OpPrepend buffer | OpPrependInteger int
  | OpInsert int lp_where buffer | OpReplaceInteger int int | OpDelete int | OpDeleteRange int nat | OpGet int | OpLength

datatype lp_reply = Done bool | Value "buffer option" | Count nat

text \<open>A client keeps the old listpack when an operation returns NULL, and does nothing when seeking does.\<close>

definition keep_or :: "buffer \<Rightarrow> buffer option option \<Rightarrow> (buffer \<times> lp_reply) option" where
  "keep_or lp r = map_option (\<lambda>r. case r of None \<Rightarrow> (lp, Done False) | Some lp' \<Rightarrow> (lp', Done True)) r"

definition at_index :: "buffer \<Rightarrow> int \<Rightarrow> (nat \<Rightarrow> (buffer \<times> nat option) option option) \<Rightarrow> (buffer \<times> lp_reply) option" where
  "at_index lp idx f = do {
     pp \<leftarrow> lpSeek lp idx;
     case pp of None \<Rightarrow> Some (lp, Done False) | Some p \<Rightarrow> keep_or lp (map_option (map_option fst) (f p))
   }"

fun lp_step :: "allocator \<Rightarrow> lp_op \<Rightarrow> buffer \<Rightarrow> (buffer \<times> lp_reply) option" where
  "lp_step al (OpAppend s) lp = keep_or lp (lpAppend al lp s (length s))"
| "lp_step al (OpAppendInteger v) lp = keep_or lp (lpAppendInteger al lp v)"
| "lp_step al (OpPrepend s) lp = keep_or lp (lpPrepend al lp s (length s))"
| "lp_step al (OpPrependInteger v) lp = keep_or lp (lpPrependInteger al lp v)"
| "lp_step al (OpInsert idx whr s) lp = at_index lp idx (\<lambda>p. lpInsertString al lp s (length s) p whr)"
| "lp_step al (OpReplaceInteger idx v) lp = at_index lp idx (\<lambda>p. lpReplaceInteger al lp p v)"
| "lp_step al (OpDelete idx) lp = at_index lp idx (\<lambda>p. lpDelete al lp p)"
| "lp_step al (OpDeleteRange idx num) lp = do { lp \<leftarrow> lpDeleteRange al lp idx num; Some (lp, Done True) }"
| "lp_step al (OpGet idx) lp = do {
     pp \<leftarrow> lpSeek lp idx;
     case pp of
       None \<Rightarrow> Some (lp, Value None)
     | Some p \<Rightarrow> do { s \<leftarrow> lpGet_intbuf lp p (replicate LP_INTBUF_SIZE 0); Some (lp, Value (Some s)) }
   }"
| "lp_step al OpLength lp = do { (lp, n) \<leftarrow> lpLength lp; Some (lp, Count n) }"

subsection \<open>The specification\<close>

definition fits :: "buffer list \<Rightarrow> bool" where
  "fits ss \<longleftrightarrow> lp_total (map canonical_body ss) \<le> UINT32_MAX"

definition update_to :: "buffer list \<Rightarrow> buffer list \<Rightarrow> buffer list \<times> lp_reply" where
  "update_to ss ss' = (if fits ss' then (ss', Done True) else (ss, Done False))"

definition index_of :: "buffer list \<Rightarrow> int \<Rightarrow> nat option" where
  "index_of ss idx = (let i = (if idx < 0 then int (length ss) + idx else idx) in
     if 0 \<le> i \<and> i < int (length ss) then Some (nat i) else None)"

definition update_at :: "buffer list \<Rightarrow> int \<Rightarrow> (nat \<Rightarrow> buffer list) \<Rightarrow> buffer list \<times> lp_reply" where
  "update_at ss idx f = (case index_of ss idx of None \<Rightarrow> (ss, Done False) | Some i \<Rightarrow> update_to ss (f i))"

fun insert_string :: "lp_where \<Rightarrow> buffer \<Rightarrow> buffer list \<Rightarrow> nat \<Rightarrow> buffer list" where
  "insert_string LP_BEFORE s ss i = take i ss @ s # drop i ss"
| "insert_string LP_AFTER s ss i = take (Suc i) ss @ s # drop (Suc i) ss"
| "insert_string LP_REPLACE s ss i = ss[i := s]"

fun lp_spec :: "lp_op \<Rightarrow> buffer list \<Rightarrow> buffer list \<times> lp_reply" where
  "lp_spec (OpAppend s) ss = update_to ss (ss @ [s])"
| "lp_spec (OpAppendInteger v) ss = update_to ss (ss @ [sdec v])"
| "lp_spec (OpPrepend s) ss = update_to ss (s # ss)"
| "lp_spec (OpPrependInteger v) ss = update_to ss (sdec v # ss)"
| "lp_spec (OpInsert idx whr s) ss = update_at ss idx (insert_string whr s ss)"
| "lp_spec (OpReplaceInteger idx v) ss = update_at ss idx (\<lambda>i. ss[i := sdec v])"
| "lp_spec (OpDelete idx) ss = update_at ss idx (\<lambda>i. take i ss @ drop (Suc i) ss)"
| "lp_spec (OpDeleteRange idx num) ss =
     ((case index_of ss idx of None \<Rightarrow> ss | Some i \<Rightarrow> take i ss @ drop (i + num) ss), Done True)"
| "lp_spec (OpGet idx) ss = (ss, Value (map_option ((!) ss) (index_of ss idx)))"
| "lp_spec OpLength ss = (ss, Count (length ss))"

text \<open>Strings are shorter than 4 GiB and integers have 64 bits.\<close>

definition str_adm :: "buffer \<Rightarrow> bool" where
  "str_adm s \<longleftrightarrow> length s < 4294967291"

fun lp_adm :: "lp_op \<Rightarrow> bool" where
  "lp_adm (OpAppend s) = str_adm s"
| "lp_adm (OpAppendInteger v) = is_int64 v"
| "lp_adm (OpPrepend s) = str_adm s"
| "lp_adm (OpPrependInteger v) = is_int64 v"
| "lp_adm (OpInsert idx whr s) = str_adm s"
| "lp_adm (OpReplaceInteger idx v) = is_int64 v"
| "lp_adm _ = True"

subsection \<open>The strings in a listpack\<close>

partial_function (option) strings_from :: "buffer \<Rightarrow> nat option \<Rightarrow> buffer list option" where
  "strings_from lp pp =
     (case pp of
        None \<Rightarrow> Some []
      | Some p \<Rightarrow> do {
          s \<leftarrow> lpGet_intbuf lp p (replicate LP_INTBUF_SIZE 0);
          pp \<leftarrow> lpNext lp p;
          ss \<leftarrow> strings_from lp pp;
          Some (s # ss)
        })"

definition lp_abs :: "buffer \<Rightarrow> buffer list" where
  "lp_abs lp = (case Option.bind (lpFirst lp) (strings_from lp) of None \<Rightarrow> [] | Some ss \<Rightarrow> ss)"

definition lp_wf :: "buffer \<Rightarrow> bool" where
  "lp_wf lp \<longleftrightarrow> (\<exists>ss. lp_rep lp (map canonical_body ss) \<and> list_all str_adm ss)"

lemma strings_spec:
  assumes r: "lp_rep lp es" and "i \<le> length es"
  shows "strings_from lp (if i < length es then Some (lp_pos es i) else None) = Some (map body_str (drop i es))"
  using assms(2)
proof (induction "length es - i" arbitrary: i)
  case 0
  then show ?case by (subst strings_from.simps) simp
next
  case (Suc m)
  then have i: "i < length es" by simp
  then have "strings_from lp (if Suc i < length es then Some (lp_pos es (Suc i)) else None) = Some (map body_str (drop (Suc i) es))"
    using Suc by (intro Suc.hyps(1)) auto
  moreover have "lpGet_intbuf lp (lp_pos es i) (replicate LP_INTBUF_SIZE 0) = Some (body_str (es ! i))" using get_string [OF r i] by simp
  ultimately show ?case
    using next_entry [OF r i] i Cons_nth_drop_Suc [OF i, symmetric] by (subst strings_from.simps) simp
qed

lemma abs_strings:
  assumes "lp_rep lp (map canonical_body ss)" and "list_all str_adm ss"
  shows "lp_abs lp = ss"
proof -
  have "lpFirst lp = Some (if 0 < length (map canonical_body ss) then Some (lp_pos (map canonical_body ss) 0) else None)"
    using first_entry [OF assms(1)] by simp
  then have "Option.bind (lpFirst lp) (strings_from lp) = Some (map body_str (map canonical_body ss))"
    using strings_spec [OF assms(1), of 0] by simp
  moreover have "map body_str (map canonical_body ss) = ss"
    using assms(2) by (auto simp: list_all_iff str_adm_def intro!: map_idI canonical_body_str)
  ultimately show ?thesis by (simp add: lp_abs_def)
qed

lemma rep_wf: "lp_rep lp (map canonical_body ss) \<Longrightarrow> list_all str_adm ss \<Longrightarrow> lp_wf lp \<and> lp_abs lp = ss"
  using abs_strings by (auto simp: lp_wf_def)

lemma wf_abs: "lp_wf lp \<Longrightarrow> lp_rep lp (map canonical_body (lp_abs lp)) \<and> list_all str_adm (lp_abs lp)"
  using abs_strings by (auto simp: lp_wf_def)

subsection \<open>Refinement\<close>

text \<open>What is to be shown of one operation, with the list of strings made explicit.\<close>

definition step_ok :: "(buffer \<times> lp_reply) option \<Rightarrow> buffer list \<times> lp_reply \<Rightarrow> bool" where
  "step_ok r sp \<longleftrightarrow> (\<exists>lp'. r = Some (lp', snd sp) \<and> lp_rep lp' (map canonical_body (fst sp)) \<and> list_all str_adm (fst sp))"

lemma step_okI: "lp_rep lp' (map canonical_body ss) \<Longrightarrow> list_all str_adm ss \<Longrightarrow> step_ok (Some (lp', r)) (ss, r)"
  by (simp add: step_ok_def)

lemma sdec_adm:
  assumes "is_int64 v"
  shows "str_adm (sdec v)"
  using sdec_length_int64 [OF assms] by (simp add: str_adm_def)

lemma canonical_sdec: "is_int64 v \<Longrightarrow> canonical_body (sdec v) = lpEncodeIntegerGetType v"
proof -
  assume "is_int64 v"
  then have "parse_int64 (sdec v) = Some v" by (simp add: parse_int64_iff)
  then show ?thesis by (simp add: canonical_body_def)
qed

text \<open>The elements the operations pass to \<^verbatim>\<open>lpInsert\<close>.\<close>

definition ele_for :: "lp_element \<Rightarrow> buffer \<Rightarrow> bool" where
  "ele_for ele s \<longleftrightarrow> ele_ok ele \<and> ele \<noteq> EleNone \<and> ele_body ele = canonical_body s \<and> str_adm s"

lemma ele_for_str: "str_adm s \<Longrightarrow> ele_for (EleStr s (length s)) s"
  by (simp add: ele_for_def str_adm_def)

lemma ele_for_int: "is_int64 v \<Longrightarrow> ele_for (EleInt (lpEncodeIntegerGetType v)) (sdec v)"
  by (auto simp: ele_for_def canonical_sdec sdec_adm)

lemma insert_ok:
  assumes r: "lp_rep lp (map canonical_body ss)" and a: "list_all str_adm ss" and e: "ele_for ele s"
    and i: "i \<le> length ss" and j: "j = i \<or> j = Suc i \<and> i < length ss"
    and w: "whr = (if j = i then LP_BEFORE else LP_REPLACE)"
  shows "step_ok (keep_or lp (map_option (map_option fst) (lpInsert al lp ele (lp_pos (map canonical_body ss) i) whr)))
    (update_to ss (take i ss @ s # drop j ss))"
proof -
  let ?es = "map canonical_body ss" and ?ss = "take i ss @ s # drop j ss"
  have e': "ele_ok ele" "ele = EleNone \<longrightarrow> j = Suc i" "ele \<noteq> EleNone" using e by (auto simp: ele_for_def)
  have sp: "spliced ?es i j ele = map canonical_body ?ss" using e by (simp add: spliced_def ele_for_def take_map drop_map)
  have adm: "list_all str_adm ?ss"
    using a e by (auto simp: list_all_iff ele_for_def dest: in_set_takeD in_set_dropD)
  note spec = lpInsert_spec [OF r, where i = i and j = j and ele = ele and al = al, unfolded sp]
  show ?thesis
  proof (cases "fits ?ss")
    case True
    then obtain lp' where "lpInsert al lp ele (lp_pos ?es i) whr = Some (Some (lp', Some (lp_pos ?es i)))" "lp_rep lp' (map canonical_body ?ss)"
      using spec i j e' by (auto simp: w fits_def)
    then show ?thesis using True adm by (simp add: keep_or_def update_to_def step_ok_def)
  next
    case False
    then have "lpInsert al lp ele (lp_pos ?es i) whr = Some None" using spec i j e' by (auto simp: w fits_def)
    then show ?thesis using False r a by (simp add: keep_or_def update_to_def step_ok_def)
  qed
qed

lemma append_ok:
  assumes r: "lp_rep lp (map canonical_body ss)" and a: "list_all str_adm ss" and e: "ele_for ele s"
  shows "step_ok (keep_or lp (map_option (map_option fst) (lpInsert al lp ele (lp_total (map canonical_body ss) - 1) LP_BEFORE)))
    (update_to ss (ss @ [s]))"
  using insert_ok [OF r a e, of "length ss" "length ss"] lp_pos_end [of "map canonical_body ss"] by simp

lemma total_nonzero [simp]: "lp_total es \<noteq> 0" "0 < lp_total es"
  by (simp_all add: lp_total_def)

lemma seek_index_of:
  assumes "lp_rep lp (map canonical_body ss)"
  shows "lpSeek lp idx = Some (map_option (lp_pos (map canonical_body ss)) (index_of ss idx))"
  using seek_spec [OF assms, of idx] by (simp add: index_of_def seek_index_def Let_def)

lemma index_of_bound: "index_of ss idx = Some i \<Longrightarrow> i < length ss"
  by (auto simp: index_of_def Let_def split: if_splits)

lemma at_index_ok:
  assumes r: "lp_rep lp (map canonical_body ss)" and a: "list_all str_adm ss"
    and f: "\<And>i. i < length ss \<Longrightarrow> step_ok (keep_or lp (map_option (map_option fst) (f (lp_pos (map canonical_body ss) i)))) (update_to ss (g i))"
  shows "step_ok (at_index lp idx f) (update_at ss idx g)"
proof (cases "index_of ss idx")
  case None
  then show ?thesis using r a seek_index_of [OF r, of idx] by (simp add: at_index_def update_at_def step_ok_def)
next
  case (Some i)
  then show ?thesis using f [OF index_of_bound [OF Some]] seek_index_of [OF r, of idx] by (simp add: at_index_def update_at_def)
qed

lemma insert_where_ok:
  assumes r: "lp_rep lp (map canonical_body ss)" and a: "list_all str_adm ss" and e: "ele_for ele s" and i: "i < length ss"
  shows "step_ok (keep_or lp (map_option (map_option fst) (lpInsert al lp ele (lp_pos (map canonical_body ss) i) whr)))
    (update_to ss (insert_string whr s ss i))"
proof (cases whr)
  case LP_BEFORE
  then show ?thesis using insert_ok [OF r a e, of i i] i by simp
next
  case LP_AFTER
  moreover have "ele \<noteq> EleNone" using e by (simp add: ele_for_def)
  ultimately show ?thesis using insert_ok [OF r a e, of "Suc i" "Suc i" LP_BEFORE al] lpInsert_after [OF r, of i ele al] i by simp
next
  case LP_REPLACE
  then show ?thesis using insert_ok [OF r a e, of i "Suc i" LP_REPLACE al] i by (simp add: upd_conv_take_nth_drop)
qed

lemma delete_fits:
  assumes r: "lp_rep lp (map canonical_body ss)" and "i < length ss"
  shows "fits (take i ss @ drop (Suc i) ss)"
proof -
  have t: "lp_total (map canonical_body ss) < 2 ^ 32" using lp_repE [OF r] by blast
  have "ss = take i ss @ ss ! i # drop (Suc i) ss" using assms(2) by (rule id_take_nth_drop)
  then have "lp_total (map canonical_body ss) = lp_total (map canonical_body (take i ss @ ss ! i # drop (Suc i) ss))" by (rule arg_cong)
  then have "lp_total (map canonical_body (take i ss @ drop (Suc i) ss)) \<le> lp_total (map canonical_body ss)" by (simp add: lp_total_def)
  then show ?thesis using t by (simp add: fits_def)
qed

lemma delete_ok:
  assumes r: "lp_rep lp (map canonical_body ss)" and a: "list_all str_adm ss" and i: "i < length ss"
  shows "step_ok (keep_or lp (map_option (map_option fst) (lpDelete al lp (lp_pos (map canonical_body ss) i))))
    (update_to ss (take i ss @ drop (Suc i) ss))"
proof -
  let ?es = "map canonical_body ss" and ?ss = "take i ss @ drop (Suc i) ss"
  have sp: "spliced ?es i (Suc i) EleNone = map canonical_body ?ss" by (simp add: spliced_def take_map drop_map)
  have f: "fits ?ss" using delete_fits [OF r i] .
  have "\<not> lp_total (map canonical_body ?ss) > UINT32_MAX" using f by (simp add: fits_def)
  then obtain lp' b where "lpInsert al lp EleNone (lp_pos ?es i) LP_REPLACE = Some (Some (lp', b))" "lp_rep lp' (map canonical_body ?ss)"
    using lpInsert_spec [OF r, where i = i and j = "Suc i" and ele = EleNone and al = al, unfolded sp] i by auto
  moreover have "list_all str_adm ?ss" using a by (auto simp: list_all_iff dest: in_set_takeD in_set_dropD)
  ultimately show ?thesis using f by (simp add: lpDelete_def keep_or_def update_to_def step_ok_def)
qed

lemma prepend_ok:
  assumes r: "lp_rep lp (map canonical_body ss)" and a: "list_all str_adm ss" and e: "ele_for ele s"
  shows "step_ok (keep_or lp (case (if ss = [] then None else Some (lp_pos (map canonical_body ss) 0)) of
      None \<Rightarrow> map_option (map_option fst) (lpInsert al lp ele (lp_total (map canonical_body ss) - 1) LP_BEFORE)
    | Some p \<Rightarrow> map_option (map_option fst) (lpInsert al lp ele p LP_BEFORE))) (update_to ss (s # ss))"
  using append_ok [OF r a e, of al] insert_ok [OF r a e, of 0 0 LP_BEFORE al] by (cases "ss = []") simp_all

lemma range_ok:
  assumes r: "lp_rep lp (map canonical_body ss)" and a: "list_all str_adm ss"
  shows "step_ok (lp_step al (OpDeleteRange idx num) lp) (lp_spec (OpDeleteRange idx num) ss)"
proof -
  let ?ss = "case index_of ss idx of None \<Rightarrow> ss | Some i \<Rightarrow> take i ss @ drop (i + num) ss"
  obtain lp' where l: "lpDeleteRange al lp idx num = Some lp'" "lp_rep lp' (map canonical_body ?ss)"
    using lpDeleteRange_spec [OF r, of al idx num]
    by (auto simp: index_of_def seek_index_def Let_def take_map drop_map split: if_splits)
  have "list_all str_adm ?ss" using a by (auto simp: list_all_iff split: option.split dest: in_set_takeD in_set_dropD)
  then show ?thesis using l by (simp add: step_ok_def)
qed

lemma lp_step_ok:
  assumes adm: "lp_adm oper" and r: "lp_rep lp (map canonical_body ss)" and a: "list_all str_adm ss"
  shows "step_ok (lp_step al oper lp) (lp_spec oper ss)"
proof (cases oper)
  case (OpAppend s)
  then show ?thesis using adm append_ok [OF r a ele_for_str, of s al] lp_header(1) [OF r] by (simp add: lpAppend_def)
next
  case (OpAppendInteger v)
  then show ?thesis
    using adm append_ok [OF r a ele_for_int, of v al] lp_header(1) [OF r] by (simp add: lpAppendInteger_def lpInsertInteger_def)
next
  case (OpPrepend s)
  then show ?thesis
    using adm prepend_ok [OF r a ele_for_str, of s al] lp_header(1) [OF r] first_entry [OF r]
    by (cases "ss = []") (simp_all add: lpPrepend_def lpAppend_def)
next
  case (OpPrependInteger v)
  then show ?thesis
    using adm prepend_ok [OF r a ele_for_int, of v al] lp_header(1) [OF r] first_entry [OF r]
    by (cases "ss = []") (simp_all add: lpPrependInteger_def lpAppendInteger_def lpInsertInteger_def)
next
  case (OpInsert idx whr s)
  then have e: "ele_for (EleStr s (length s)) s" using adm ele_for_str by simp
  have "step_ok (at_index lp idx (\<lambda>p. lpInsertString al lp s (length s) p whr)) (update_at ss idx (insert_string whr s ss))"
    by (rule at_index_ok [OF r a]) (simp add: lpInsertString_def insert_where_ok [OF r a e])
  then show ?thesis using OpInsert by simp
next
  case (OpReplaceInteger idx v)
  then have e: "ele_for (EleInt (lpEncodeIntegerGetType v)) (sdec v)" using adm ele_for_int by simp
  have "step_ok (at_index lp idx (\<lambda>p. lpReplaceInteger al lp p v)) (update_at ss idx (\<lambda>i. ss[i := sdec v]))"
    using insert_where_ok [OF r a e, where whr = LP_REPLACE]
    by (intro at_index_ok [OF r a]) (simp add: lpReplaceInteger_def lpInsertInteger_def)
  then show ?thesis using OpReplaceInteger by simp
next
  case (OpDelete idx)
  have "step_ok (at_index lp idx (lpDelete al lp)) (update_at ss idx (\<lambda>i. take i ss @ drop (Suc i) ss))"
    by (rule at_index_ok [OF r a]) (rule delete_ok [OF r a])
  then show ?thesis using OpDelete by simp
next
  case (OpDeleteRange idx num)
  then show ?thesis using range_ok [OF r a] by simp
next
  case (OpGet idx)
  have g: "lpGet_intbuf lp (lp_pos (map canonical_body ss) i) (replicate LP_INTBUF_SIZE 0) = Some (ss ! i)" if i: "i < length ss" for i
  proof -
    have "str_adm (ss ! i)" using a i by (simp add: list_all_length)
    then show ?thesis using get_string [OF r, of i] i by (simp add: canonical_body_str str_adm_def)
  qed
  show ?thesis
  proof (cases "index_of ss idx")
    case None
    then show ?thesis using OpGet r a seek_index_of [OF r, of idx] by (simp add: step_ok_def)
  next
    case (Some i)
    then show ?thesis using OpGet r a seek_index_of [OF r, of idx] g [OF index_of_bound [OF Some]] by (simp add: step_ok_def)
  qed
next
  case OpLength
  then show ?thesis using length_spec [OF r] a by (auto simp: step_ok_def)
qed

lemma lp_step_refines:
  assumes "lp_adm oper" and "lp_wf lp"
  shows "\<exists>lp' r. lp_step al oper lp = Some (lp', r) \<and> lp_wf lp' \<and> lp_spec oper (lp_abs lp) = (lp_abs lp', r)"
proof -
  have "step_ok (lp_step al oper lp) (lp_spec oper (lp_abs lp))" using lp_step_ok [OF assms(1)] wf_abs [OF assms(2)] by blast
  then obtain lp' where l: "lp_step al oper lp = Some (lp', snd (lp_spec oper (lp_abs lp)))"
    "lp_rep lp' (map canonical_body (fst (lp_spec oper (lp_abs lp))))" "list_all str_adm (fst (lp_spec oper (lp_abs lp)))"
    by (auto simp: step_ok_def)
  then have "lp_wf lp'" "lp_abs lp' = fst (lp_spec oper (lp_abs lp))" using abs_strings by (auto simp: lp_wf_def)
  then show ?thesis using l(1) by (simp add: prod_eq_iff)
qed

interpretation string_list: guarded_refinement lp_adm lp_wf lp_abs "lp_step al" lp_spec for al
  by unfold_locales (rule lp_step_refines)

lemma new_wf: "\<exists>lp. lpNew al capacity = Some lp \<and> lp_wf lp \<and> lp_abs lp = []"
proof -
  obtain lp where lp: "lpNew al capacity = Some lp" "lp_rep lp []" using new_rep by blast
  then have "lp_rep lp (map canonical_body [])" by simp
  then show ?thesis using lp(1) abs_strings [of lp "[]"] unfolding lp_wf_def by (intro exI [of _ lp]) (auto intro!: exI [of _ "[]"])
qed

text \<open>C3: A listpack behaves as a list of strings. Whatever sequence of appends, prepends, insertions before or after an
  entry, replacements, deletions of an entry or of a range, reads and length queries is run on a new listpack, with strings and
  64-bit integers and with indexes counted from either end, no assertion fails, no access leaves the buffer, and every reply
  is that of the list of strings, the refusal of a change that would exceed 32 bits included; integers come back as their decimals.\<close>

theorem listpack_refines_list:
  assumes "list_all lp_adm opers"
  shows "\<exists>lp0 lp rs. lpNew al capacity = Some lp0 \<and> run_ops (lp_step al) opers lp0 = Some (lp, rs) \<and>
    run_spec lp_spec opers [] = (lp_abs lp, rs)"
proof -
  obtain lp0 where "lpNew al capacity = Some lp0" "lp_wf lp0" "lp_abs lp0 = []" using new_wf by blast
  then show ?thesis using string_list.guarded_run [OF assms, of lp0 al] by auto
qed

definition demo_lp_ops :: "lp_op list" where
  "demo_lp_ops = [OpAppend [104, 105], OpAppendInteger (-7), OpInsert 1 LP_BEFORE [], OpDelete 0, OpGet (-1), OpLength]"

lemma canonical_length: "length (canonical_body s) \<le> 9 + length s"
proof (cases "parse_int64 s")
  case None
  then show ?thesis by (simp add: canonical_body_def str_body_def str_header_length)
next
  case (Some v)
  then show ?thesis by (simp add: canonical_body_def lpEncodeIntegerGetType_def Let_def)
qed

lemma few_fit:
  assumes "length ss \<le> 1000" and "list_all (\<lambda>s. length s \<le> 1000) ss"
  shows "fits ss"
proof -
  have "length (concat (map lp_entry (map canonical_body ss))) \<le> length ss * 1014"
    using assms(2)
  proof (induction ss)
    case (Cons s ss)
    have "length (lp_entry (canonical_body s)) \<le> 1014"
      using canonical_length [of s] backlen_bounds(2) [of "length (canonical_body s)"] Cons.prems by (simp add: entry_length)
    then show ?case using Cons by simp
  qed simp
  also have "\<dots> \<le> 1000 * 1014" using assms(1) by simp
  finally show ?thesis by (simp add: fits_def lp_total_def)
qed

lemma demo_sdec: "sdec (- 7) = [45, 55]"
  by code_simp

lemma demo_lp_spec: "run_spec lp_spec demo_lp_ops [] = ([[], [45, 55]], [Done True, Done True, Done True, Done True, Value (Some [45, 55]), Count 2])"
  by (simp add: demo_lp_ops_def update_to_def update_at_def index_of_def few_fit demo_sdec)

theorem listpack_refines_list_witness:
  "list_all lp_adm demo_lp_ops \<and> (\<exists>lp0 lp. lpNew exact_allocator 0 = Some lp0 \<and>
     run_ops (lp_step exact_allocator) demo_lp_ops lp0 = Some (lp, [Done True, Done True, Done True, Done True, Value (Some [45, 55]), Count 2]))"
proof -
  have "list_all lp_adm demo_lp_ops" by (simp add: demo_lp_ops_def str_adm_def is_int64_def)
  then show ?thesis using listpack_refines_list [of demo_lp_ops exact_allocator 0] unfolding demo_lp_spec by auto
qed

text \<open>C18: Every listpack that the operations build is well formed: its byte count lies within the allocation, and the deep
  validation accepts it.\<close>

theorem listpack_stays_valid:
  assumes "list_all lp_adm opers"
  shows "\<exists>lp0 lp rs n. lpNew al capacity = Some lp0 \<and> run_ops (lp_step al) opers lp0 = Some (lp, rs) \<and>
    lpBytes lp = Some n \<and> n \<le> length lp \<and> lpValidateIntegrity lp n True None = Some True"
proof -
  obtain lp0 where n: "lpNew al capacity = Some lp0" "lp_wf lp0" using new_wf by blast
  obtain lp rs where r: "run_ops (lp_step al) opers lp0 = Some (lp, rs)" "lp_wf lp"
    using string_list.guarded_run [OF assms n(2), of al] by blast
  then show ?thesis using n(1) wf_abs [OF r(2)] lp_header(2,4) rep_accepted by blast
qed

theorem listpack_stays_valid_witness:
  "list_all lp_adm demo_lp_ops \<and> (\<exists>lp0 lp rs n. lpNew exact_allocator 0 = Some lp0 \<and>
     run_ops (lp_step exact_allocator) demo_lp_ops lp0 = Some (lp, rs) \<and> lpValidateIntegrity lp n True None = Some True)"
proof -
  have "list_all lp_adm demo_lp_ops" by (simp add: demo_lp_ops_def str_adm_def is_int64_def)
  then show ?thesis using listpack_stays_valid [of demo_lp_ops exact_allocator 0] by blast
qed

subsection \<open>Untrusted listpacks\<close>

text \<open>C7: The validation of a listpack is safe on every input: whatever bytes the buffer holds and whatever the caller's check
  of an entry answers, it ends, fails no assertion and reads no byte outside of the given size.\<close>

theorem validation_never_faults:
  assumes "sz \<le> length lp"
  shows "\<exists>r. lpValidateIntegrity lp sz deep entry_cb = Some r"
  using validate_total [OF assms] .

theorem validation_never_faults_witness:
  "\<exists>r. lpValidateIntegrity [16, 0, 0, 0, 255, 255, 240, 253, 255, 255, 255, 2, 128, 129, 130, 255] 16 True None = Some r"
  by (rule validation_never_faults) simp

text \<open>C6: What the deep validation accepts is safe to use: the entries can be walked from the first to the last and back without
  a failed assertion, both directions visit the same entries, their number is the length, and every entry can be read with its
  bytes inside of the buffer. In particular the size of a string, which wraps around in 32 bits, cannot deceive the validation.\<close>

theorem validated_listpack_is_safe:
  assumes "lpValidateIntegrity lp sz True entry_cb = Some True" and "sz \<le> length lp"
  shows "\<exists>ps. lpFirst lp = Some (if ps = [] then None else Some (hd ps)) \<and>
    lpLast lp = Some (if ps = [] then None else Some (last ps)) \<and>
    (\<forall>i<length ps. lpNext lp (ps ! i) = Some (if Suc i < length ps then Some (ps ! Suc i) else None) \<and>
       lpPrev lp (ps ! i) = Some (if i = 0 then None else Some (ps ! (i - 1))) \<and>
       (\<exists>v. lpGet lp (ps ! i) = Some v \<and> in_bounds sz v)) \<and>
    map_option snd (lpLength lp) = Some (length ps)"
  using validated_walk [OF assms] .

text \<open>A small listpack with the integer 5 and the string hi.\<close>

definition demo_lp :: buffer where
  "demo_lp = [13, 0, 0, 0, 2, 0, 5, 1, 130, 104, 105, 3, 255]"

lemma demo_lp_rep: "lp_rep demo_lp (map canonical_body [[53], [104, 105]])" "lp_total (map canonical_body [[53], [104, 105]]) = 13"
proof -
  have "sdec 5 = [53]" by code_simp
  then have "parse_int64 [53] = Some 5" by (simp add: parse_int64_iff is_int64_def)
  moreover have "\<not> list_all is_digit [104, 105]" by code_simp
  then have "parse_int64 [104, 105] = None" by (auto simp: parse_int64_def Let_def)
  moreover have "str_header 2 = [130]" by code_simp
  ultimately have c: "map canonical_body [[53], [104, 105]] = [[5], [130, 104, 105]]"
    by (simp add: canonical_body_def lpEncodeIntegerGetType_def str_body_def numeral_2_eq_2)
  have "demo_lp = lp_bytes_of 2 [[5], [130, 104, 105]] @ []" by code_simp
  moreover have t: "lp_total [[5], [130, 104, 105]] = 13" by code_simp
  moreover have "list_all body_ok [[5], [130, 104, 105]]"
    by (simp add: body_ok_def lpCurrentEncodedSizeUnsafe_def LP_ENCODING_6BIT_STR_LEN_def rd_byte_def byte_mask)
  moreover have "num_ok [[5], [130, 104, 105]] 2" by (simp add: num_ok_def)
  ultimately show "lp_rep demo_lp (map canonical_body [[53], [104, 105]])" unfolding lp_rep_def c t by (auto intro!: exI [of _ 2] exI [of _ "[]"])
  show "lp_total (map canonical_body [[53], [104, 105]]) = 13" unfolding c by (rule t)
qed

lemma demo_lp_wf: "lp_wf demo_lp" "lp_abs demo_lp = [[53], [104, 105]]"
  using rep_wf [OF demo_lp_rep(1)] by (simp_all add: str_adm_def)

theorem validated_listpack_is_safe_witness:
  "lpValidateIntegrity demo_lp 13 True None = Some True \<and>
   (\<exists>ps. lpFirst demo_lp = Some (if ps = [] then None else Some (hd ps)) \<and> map_option snd (lpLength demo_lp) = Some (length ps))"
proof -
  have v: "lpValidateIntegrity demo_lp 13 True None = Some True" using rep_accepted [OF demo_lp_rep(1)] demo_lp_rep(2) by metis
  moreover have "13 \<le> length demo_lp" by (simp add: demo_lp_def)
  ultimately show ?thesis using validated_listpack_is_safe [OF v] by blast
qed

subsection \<open>Searching, merging and deleting many entries\<close>

lemma find_ref_find:
  assumes "c \<le> k" and "(i + c) mod Suc k = 0" and "i \<le> length es"
  shows "find_ref s k (drop i es) c i = find (\<lambda>j. j mod Suc k = 0 \<and> body_str (es ! j) = s) [i..<length es]"
  using assms
proof (induction "length es - i" arbitrary: i c)
  case (Suc m)
  then have i: "i < length es" by simp
  have d: "drop i es = es ! i # drop (Suc i) es" "[i..<length es] = i # [Suc i..<length es]"
    using i by (simp_all add: Cons_nth_drop_Suc upt_conv_Cons)
  show ?case
  proof (cases c)
    case 0
    then have "(Suc i + k) mod Suc k = 0" using Suc.prems(2) mod_add_self2 [of i "Suc k"] by simp
    then have "find_ref s k (drop (Suc i) es) k (Suc i) = find (\<lambda>j. j mod Suc k = 0 \<and> body_str (es ! j) = s) [Suc i..<length es]"
      using Suc.hyps i by (intro Suc.hyps(1)) auto
    then show ?thesis using 0 Suc.prems(2) unfolding d by simp
  next
    case (Suc c')
    then have "find_ref s k (drop (Suc i) es) c' (Suc i) = find (\<lambda>j. j mod Suc k = 0 \<and> body_str (es ! j) = s) [Suc i..<length es]"
      using Suc.hyps Suc.prems i by (intro Suc.hyps(1)) auto
    moreover have "i mod Suc k \<noteq> 0"
    proof
      assume "i mod Suc k = 0"
      then have "c mod Suc k = 0" using Suc.prems(2) by (metis dvd_add_right_iff mod_eq_0_iff_dvd)
      then show False using Suc Suc.prems(1) by simp
    qed
    ultimately show ?thesis using Suc unfolding d by simp
  qed
qed simp

text \<open>C28: Searching a listpack, optionally only every few entries as for the fields of a hash, returns the position of the first
  entry that is compared and equal to the string, integers being compared by value with the decimal, and NULL when there is none.\<close>

theorem lpFind_first_match:
  assumes "lp_wf lp" and "lp_abs lp \<noteq> []"
  shows "\<exists>p. lpFirst lp = Some (Some p) \<and>
    (case find (\<lambda>i. i mod Suc skip = 0 \<and> lp_abs lp ! i = s) [0..<length (lp_abs lp)] of
       None \<Rightarrow> lpFind lp p s (length s) skip = Some None
     | Some i \<Rightarrow> \<exists>q. lpFind lp p s (length s) skip = Some (Some q) \<and> lpSeek lp (int i) = Some (Some q))"
proof -
  let ?ss = "lp_abs lp"
  let ?es = "map canonical_body ?ss"
  let ?f = "find (\<lambda>i. i mod Suc skip = 0 \<and> ?ss ! i = s) [0..<length ?ss]"
  have r: "lp_rep lp ?es" and a: "list_all str_adm ?ss" using wf_abs [OF assms(1)] by simp_all
  have "find (\<lambda>j. j mod Suc skip = 0 \<and> body_str (?es ! j) = s) [0..<length ?es] = ?f"
    using a by (intro find_cong) (auto simp: list_all_length canonical_body_str str_adm_def)
  then have "lpFind lp (lp_pos ?es 0) s (length s) skip = Some (map_option (lp_pos ?es) ?f)"
    using lpFind_spec [OF r, of "length s" s 0 skip] find_ref_find [of 0 skip 0 ?es s] assms(2) by simp
  moreover have "lpFirst lp = Some (Some (lp_pos ?es 0))" using first_entry [OF r] assms(2) by simp
  moreover have "lpSeek lp (int i) = Some (Some (lp_pos ?es i))" if "?f = Some i" for i
    using that seek_spec [OF r, of "int i"] by (auto simp: find_Some_iff seek_index_def)
  ultimately show ?thesis by (cases ?f) auto
qed

theorem lpFind_first_match_witness:
  "lp_wf demo_lp \<and> (\<exists>p q. lpFirst demo_lp = Some (Some p) \<and> lpFind demo_lp p [104, 105] 2 0 = Some (Some q) \<and>
     lpSeek demo_lp 1 = Some (Some q))"
  using lpFind_first_match [of demo_lp, where skip = 0 and s = "[104, 105]"] demo_lp_wf by (auto simp: numeral_2_eq_2)

text \<open>C29: Merging two listpacks, when the size of the result fits in 32 bits, gives the listpack of the concatenated lists, whichever
  of the two is the larger one whose allocation is reused.\<close>

theorem lpMerge_concatenates:
  assumes "lp_wf first" and "lp_wf second" and "lpBytes first = Some m" and "lpBytes second = Some n" and "m + n < UINT32_MAX + 7"
  shows "\<exists>lp. lpMerge al first second = Some lp \<and> lp_wf lp \<and> lp_abs lp = lp_abs first @ lp_abs second"
proof -
  let ?ss = "lp_abs first @ lp_abs second"
  have r: "lp_rep first (map canonical_body (lp_abs first))" "lp_rep second (map canonical_body (lp_abs second))"
    and a: "list_all str_adm ?ss" using wf_abs [OF assms(1)] wf_abs [OF assms(2)] by simp_all
  have "lp_total (map canonical_body ?ss) < UINT32_MAX"
    using lp_header(2) [OF r(1)] lp_header(2) [OF r(2)] assms(3-5) by (simp add: total_append)
  then obtain lp where lp: "lpMerge al first second = Some lp" "lp_rep lp (map canonical_body ?ss)"
    using lpMerge_spec [OF r, of al] by auto
  then show ?thesis using rep_wf [OF lp(2) a] by simp
qed

theorem lpMerge_concatenates_witness:
  "\<exists>lp. lpMerge exact_allocator demo_lp demo_lp = Some lp \<and> lp_abs lp = [[53], [104, 105], [53], [104, 105]]"
proof -
  have "lpBytes demo_lp = Some 13" using lp_header(2) [OF demo_lp_rep(1)] unfolding demo_lp_rep(2) .
  then show ?thesis using lpMerge_concatenates [OF demo_lp_wf(1) demo_lp_wf(1), of 13 13 exact_allocator] demo_lp_wf(2) by auto
qed

lemma without_map: "map f (without xs ks) = without (map f xs) ks"
  by (auto simp: without_def)

text \<open>C30: Deleting a batch of entries, given by their positions in order, in one pass removes exactly these.\<close>

theorem lpBatchDelete_removes:
  assumes "lp_wf lp" and "sorted_wrt (<) ks" and "list_all2 (\<lambda>k p. lpSeek lp (int k) = Some (Some p)) ks ps"
  shows "\<exists>lp'. lpBatchDelete al lp ps = Some lp' \<and> lp_wf lp' \<and>
    lp_abs lp' = map ((!) (lp_abs lp)) (filter (\<lambda>i. i \<notin> set ks) [0..<length (lp_abs lp)])"
proof -
  let ?ss = "lp_abs lp"
  let ?es = "map canonical_body ?ss"
  have r: "lp_rep lp ?es" and a: "list_all str_adm ?ss" using wf_abs [OF assms(1)] by simp_all
  have "list_all2 (\<lambda>k p. k < length ?es \<and> p = lp_pos ?es k) ks ps"
    using assms(3) by (rule list_all2_mono) (auto simp: seek_spec [OF r] seek_index_def split: if_splits)
  then have ps: "ps = map (lp_pos ?es) ks" "\<forall>k\<in>set ks. k < length ?es"
    by (auto simp: list_all2_conv_all_nth in_set_conv_nth intro: nth_equalityI)
  obtain lp' where lp': "lpBatchDelete al lp ps = Some lp'" "lp_rep lp' (without ?es ks)"
    using lpBatchDelete_spec [OF r assms(2) ps(2)] ps(1) by blast
  then have "lp_rep lp' (map canonical_body (without ?ss ks))" by (simp add: without_map)
  moreover have "list_all str_adm (without ?ss ks)" using a by (auto simp: list_all_iff without_def)
  ultimately have "lp_wf lp' \<and> lp_abs lp' = without ?ss ks" by (rule rep_wf)
  then show ?thesis using lp'(1) by (simp add: without_def)
qed

theorem lpBatchDelete_removes_witness:
  "\<exists>p lp'. lpSeek demo_lp 0 = Some (Some p) \<and> lpBatchDelete exact_allocator demo_lp [p] = Some lp' \<and> lp_abs lp' = [[104, 105]]"
proof -
  obtain p where "lpSeek demo_lp 0 = Some (Some p)" using seek_spec [OF demo_lp_rep(1), of 0] by (simp add: seek_index_def)
  then show ?thesis using lpBatchDelete_removes [of demo_lp "[0]" "[p]" exact_allocator] demo_lp_wf by (auto simp: numeral_2_eq_2)
qed

end
