(* ===== verification/Listpack_Random.thy ===== *)
theory Listpack_Random
  imports Listpack_Spec
begin

text \<open>
  The random selection of entries and of pairs, with repetitions. The values of \<^verbatim>\<open>rand\<close> are given as a list. The picked
  indexes are sorted, so that one pass over the listpack finds all of them, and the results go back to the order of picking.
\<close>

subsection \<open>Operations\<close>

definition lpValidateFirst :: "buffer \<Rightarrow> nat option option" where
  "lpValidateFirst lp = do { b \<leftarrow> rd_byte lp LP_HDR_SIZE; Some (if b = LP_EOF then None else Some LP_HDR_SIZE) }"

definition lpGetValue :: "buffer \<Rightarrow> nat \<Rightarrow> lp_value option" where
  "lpGetValue lp p = lpGet lp p"

text \<open>The picks with their order. The difference of two indexes is taken in 32 bits and read as a signed number, which
  compares indexes below \<open>2 ^ 31\<close>; a listpack has no others, as an entry takes two bytes or more.\<close>

definition random_picks :: "nat \<Rightarrow> nat \<Rightarrow> nat list \<Rightarrow> (nat \<times> nat) list" where
  "random_picks total_size stride rands = sort_key fst (map (\<lambda>(i, r). (r mod total_size * stride, i)) (enumerate 0 rands))"

fun advance :: "buffer \<Rightarrow> nat \<Rightarrow> nat option \<Rightarrow> nat option option" where
  "advance lp 0 pp = Some pp"
| "advance lp (Suc n) pp = do { p \<leftarrow> pp; pp \<leftarrow> lpNext lp p; advance lp n pp }"

fun entries_loop :: "buffer \<Rightarrow> nat option \<Rightarrow> nat \<Rightarrow> (nat \<times> nat) list \<Rightarrow> lp_value list \<Rightarrow> lp_value list option" where
  "entries_loop lp pp j [] entries = Some entries"
| "entries_loop lp pp j ((index, order) # picks) entries = do {
     pp \<leftarrow> advance lp (index - j) pp;
     p \<leftarrow> pp;
     v \<leftarrow> lpGetValue lp p;
     entries_loop lp pp (max j index) picks (entries[order := v])
   }"

text \<open>The array of the caller has room for one value per pick; what it holds before is irrelevant.\<close>

definition lpRandomEntries :: "nat list \<Rightarrow> buffer \<Rightarrow> lp_value list \<Rightarrow> (buffer \<times> lp_value list) option" where
  "lpRandomEntries rands lp entries = do {
     (lp, total_size) \<leftarrow> lpLength lp;
     c_assert (total_size \<noteq> 0);
     let picks = random_picks total_size 1 rands;
     pp \<leftarrow> lpFirst lp;
     entries \<leftarrow> entries_loop lp pp 0 picks entries;
     Some (lp, entries)
   }"

definition store_all :: "(nat \<times> nat) list \<Rightarrow> lp_value \<Rightarrow> lp_value list \<Rightarrow> lp_value list" where
  "store_all picks v = fold (\<lambda>(_, order) xs. xs[order := v]) picks"

partial_function (option) pairs_loop :: "buffer \<Rightarrow> nat option \<Rightarrow> nat \<Rightarrow> (nat \<times> nat) list \<Rightarrow> lp_value list \<Rightarrow> lp_value list \<Rightarrow>
    (lp_value list \<times> lp_value list) option" where
  "pairs_loop lp pp lpindex picks keys vals =
     (case pp of
        None \<Rightarrow> Some (keys, vals)
      | Some p \<Rightarrow>
          if picks = [] then Some (keys, vals)
          else do {
            key \<leftarrow> lpGetValue lp p;
            pp \<leftarrow> lpNext lp p;
            p \<leftarrow> pp;
            val \<leftarrow> lpGetValue lp p;
            let here = takeWhile (\<lambda>(index, _). index = lpindex) picks;
            pp \<leftarrow> lpNext lp p;
            pairs_loop lp pp (lpindex + 2) (dropWhile (\<lambda>(index, _). index = lpindex) picks)
              (store_all here key keys) (store_all here val vals)
          })"

text \<open>The caller passes an array for the values too.\<close>

definition lpRandomPairs :: "nat list \<Rightarrow> buffer \<Rightarrow> lp_value list \<Rightarrow> lp_value list \<Rightarrow> (buffer \<times> lp_value list \<times> lp_value list) option" where
  "lpRandomPairs rands lp keys vals = do {
     (lp, n) \<leftarrow> lpLength lp;
     let total_size = n div 2;
     c_assert (total_size \<noteq> 0);
     let picks = random_picks total_size 2 rands;
     c_assert (picks \<noteq> []);
     let lpindex = fst (hd picks);
     pp \<leftarrow> lpSeek lp (int lpindex);
     (keys, vals) \<leftarrow> pairs_loop lp pp lpindex picks keys vals;
     Some (lp, keys, vals)
   }"

subsection \<open>Picks\<close>

lemma random_picks_sorted: "sorted (map fst (random_picks m k rands))"
  by (simp add: random_picks_def)

lemma random_picks_set: "set (random_picks m k rands) = {(rands ! i mod m * k, i) |i. i < length rands}"
proof -
  have "set (enumerate 0 rands) = {(i, rands ! i) |i. i < length rands}" by (auto simp: in_set_enumerate_eq)
  then show ?thesis by (auto simp: random_picks_def)
qed

lemma random_picks_distinct: "distinct (map snd (random_picks m k rands))"
proof -
  let ?xs = "map (\<lambda>(i, r). (r mod m * k, i)) (enumerate 0 rands)"
  have "map snd ?xs = map fst (enumerate 0 rands)" unfolding map_map by (rule map_cong) auto
  then have "distinct ?xs" by (metis distinct_map distinct_upt map_fst_enumerate)
  moreover have "inj_on snd (set (random_picks m k rands))" by (auto simp: random_picks_set inj_on_def)
  moreover have "distinct (random_picks m k rands) = distinct ?xs" by (simp only: random_picks_def distinct_sort)
  ultimately show ?thesis by (simp only: distinct_map simp_thms)
qed

lemma advance_spec:
  assumes "lp_rep lp es" and "i + n < length es"
  shows "advance lp n (Some (lp_pos es i)) = Some (Some (lp_pos es (i + n)))"
  using assms(2)
proof (induction n arbitrary: i)
  case (Suc n)
  then have "Suc i < length es" "Suc i + n < length es" by simp_all
  then show ?case using Suc.IH [of "Suc i"] next_entry [OF assms(1), of i] by simp
qed simp

subsection \<open>Correctness\<close>

text \<open>The results of the picks are in the array at their orders.\<close>

definition stored :: "(nat \<Rightarrow> lp_value option) \<Rightarrow> (nat \<times> nat) list \<Rightarrow> lp_value list \<Rightarrow> lp_value list \<Rightarrow> bool" where
  "stored V picks xs ys \<longleftrightarrow> length ys = length xs \<and> (\<forall>(i, k)\<in>set picks. Some (ys ! k) = V i) \<and>
     (\<forall>k<length xs. k \<notin> snd ` set picks \<longrightarrow> ys ! k = xs ! k)"

lemma stored_Nil [simp]: "stored V [] xs xs"
  by (simp add: stored_def)

lemma stored_append:
  assumes a: "stored V ps xs ys" and b: "stored V qs ys zs" and d: "distinct (map snd (ps @ qs))"
    and l: "\<forall>(i, k)\<in>set ps. k < length xs"
  shows "stored V (ps @ qs) xs zs"
proof -
  have len: "length ys = length xs" "length zs = length xs" using a b by (auto simp: stored_def)
  have p: "Some (zs ! k) = V i" if ik: "(i, k) \<in> set ps" for i k
  proof -
    have "k \<notin> snd ` set qs" using d ik by force
    then have "zs ! k = ys ! k" using b l ik len by (auto simp: stored_def)
    then show ?thesis using a ik by (auto simp: stored_def)
  qed
  have q: "Some (zs ! k) = V i" if "(i, k) \<in> set qs" for i k using b that by (auto simp: stored_def)
  have u: "zs ! k = xs ! k" if "k < length xs" "k \<notin> snd ` set (ps @ qs)" for k
  proof -
    have "k \<notin> snd ` set ps" "k \<notin> snd ` set qs" using that(2) by (auto simp: image_Un)
    then show ?thesis using a b that(1) len by (auto simp: stored_def)
  qed
  show ?thesis unfolding stored_def using p q u len by auto
qed

lemma stored_one: "k < length xs \<Longrightarrow> V i = Some v \<Longrightarrow> stored V [(i, k)] xs (xs[k := v])"
  by (simp add: stored_def)

lemma get_defined:
  assumes "lp_rep lp es" and "i < length es"
  shows "\<exists>v. lpGet lp (lp_pos es i) = Some v"
proof -
  obtain v e where "lpGetWithSize lp (lp_pos es i) = Some (v, e)" using get_entry [OF assms] by metis
  then show ?thesis by (simp add: lpGet_def)
qed

lemma entries_loop_spec:
  assumes r: "lp_rep lp es" and "sorted (map fst picks)" and "\<forall>(i, k)\<in>set picks. j \<le> i \<and> i < length es \<and> k < length xs"
    and "distinct (map snd picks)" and "j < length es"
  shows "\<exists>ys. entries_loop lp (Some (lp_pos es j)) j picks xs = Some ys \<and> stored (\<lambda>i. lpGet lp (lp_pos es i)) picks xs ys"
  using assms(2-)
proof (induction picks arbitrary: j xs)
  case (Cons pick picks)
  obtain i k where pick: "pick = (i, k)" by fastforce
  have i: "j \<le> i" "i < length es" "k < length xs" using Cons.prems(2) pick by auto
  obtain v where v: "lpGet lp (lp_pos es i) = Some v" using get_defined [OF r i(2)] by blast
  have st: "advance lp (i - j) (Some (lp_pos es j)) = Some (Some (lp_pos es i))" using advance_spec [OF r, of j "i - j"] i by simp
  have ge: "\<forall>(i', k')\<in>set picks. i \<le> i' \<and> i' < length es \<and> k' < length (xs[k := v])"
    using Cons.prems(1,2) pick by auto
  obtain ys where ys: "entries_loop lp (Some (lp_pos es i)) i picks (xs[k := v]) = Some ys"
    "stored (\<lambda>i. lpGet lp (lp_pos es i)) picks (xs[k := v]) ys"
    using Cons.IH [of i "xs[k := v]"] Cons.prems ge i(2) by auto
  have "stored (\<lambda>i. lpGet lp (lp_pos es i)) ([(i, k)] @ picks) xs ys"
    using Cons.prems(3) pick i(3) v by (intro stored_append [OF stored_one ys(2)]) auto
  then show ?case using ys(1) st v i(1) pick by (simp add: lpGetValue_def max_absorb2)
qed simp

lemma store_all_stored:
  assumes "\<forall>(i, k)\<in>set picks. i = x \<and> k < length xs" and "V x = Some v" and "distinct (map snd picks)"
  shows "stored V picks xs (store_all picks v xs)"
  using assms(1,3)
proof (induction picks arbitrary: xs)
  case Nil
  then show ?case by (simp add: store_all_def)
next
  case (Cons pick picks)
  obtain k where pick: "pick = (x, k)" "k < length xs" using Cons.prems(1) by auto
  have "stored V picks (xs[k := v]) (store_all picks v (xs[k := v]))" using Cons by (intro Cons.IH) auto
  then have "stored V ([(x, k)] @ picks) xs (store_all picks v (xs[k := v]))"
    using Cons.prems pick assms(2) by (intro stored_append [OF stored_one]) auto
  then show ?case using pick by (simp add: store_all_def)
qed

lemma split_at_index:
  fixes picks :: "(nat \<times> nat) list"
  assumes "sorted (map fst picks)" and "\<forall>(i, k)\<in>set picks. j \<le> i \<and> even (i - j)"
  defines "rest \<equiv> dropWhile (\<lambda>(i, _). i = j) picks"
  shows "\<forall>(i, k)\<in>set rest. j + 2 \<le> i \<and> even (i - (j + 2))" and "sorted (map fst rest)"
    and "picks = takeWhile (\<lambda>(i, _). i = j) picks @ rest"
proof -
  show p: "picks = takeWhile (\<lambda>(i, _). i = j) picks @ rest" by (simp add: rest_def)
  show s: "sorted (map fst rest)" using assms(1) p by (metis map_append sorted_append)
  show "\<forall>(i, k)\<in>set rest. j + 2 \<le> i \<and> even (i - (j + 2))"
  proof (cases rest)
    case (Cons x xs)
    obtain i0 k0 where x: "x = (i0, k0)" by fastforce
    then have "i0 \<noteq> j" using Cons hd_dropWhile [of "\<lambda>(i, _). i = j" picks] by (auto simp: rest_def)
    moreover have mem: "\<forall>(i, k)\<in>set rest. j \<le> i \<and> even (i - j)" using assms(2) p by (metis Un_iff set_append)
    ultimately have "j < i0" using Cons x by auto
    then have "\<forall>(i, k)\<in>set rest. j < i" using s Cons x by (auto simp: less_le_trans)
    moreover have "j + 2 \<le> i \<and> even (i - (j + 2))" if ji: "j < i" "even (i - j)" for i :: nat
    proof -
      obtain m where m: "i - j = 2 * m" using ji(2) by (elim evenE)
      then have "i = j + 2 * m" "0 < m" using ji(1) by linarith+
      then show ?thesis by (cases m) auto
    qed
    ultimately show ?thesis using mem by blast
  qed simp
qed

lemma pairs_loop_spec:
  assumes r: "lp_rep lp es" and "sorted (map fst picks)"
    and "\<forall>(i, k)\<in>set picks. j \<le> i \<and> even (i - j)"
    and "\<forall>(i, k)\<in>set picks. Suc i < length es \<and> k < length keys \<and> k < length vals" and "distinct (map snd picks)"
  shows "\<exists>ys zs. pairs_loop lp (if j < length es then Some (lp_pos es j) else None) j picks keys vals = Some (ys, zs) \<and>
    stored (\<lambda>i. lpGet lp (lp_pos es i)) picks keys ys \<and> stored (\<lambda>i. lpGet lp (lp_pos es (Suc i))) picks vals zs"
  using assms(2-)
proof (induction "length es - j" arbitrary: j picks keys vals rule: less_induct)
  case less
  let ?V = "\<lambda>i. lpGet lp (lp_pos es i)" and ?W = "\<lambda>i. lpGet lp (lp_pos es (Suc i))"
  show ?case
  proof (cases "picks = []")
    case True
    then show ?thesis by (subst pairs_loop.simps) (auto split: option.split)
  next
    case False
    let ?here = "takeWhile (\<lambda>(i, _). i = j) picks" and ?rest = "dropWhile (\<lambda>(i, _). i = j) picks"
    have j: "Suc j < length es" using False less.prems(2,3) by (cases picks) auto
    then have j0: "j < length es" by simp
    note sp = split_at_index [OF less.prems(1,2)]
    obtain key where key: "?V j = Some key" using get_defined [OF r j0] by blast
    obtain val where val: "?W j = Some val" using get_defined [OF r j] by blast
    have d: "distinct (map snd (?here @ ?rest))" using less.prems(4) by simp
    have here: "\<forall>(i, k)\<in>set ?here. i = j \<and> k < length keys \<and> k < length vals"
      using less.prems(3) by (auto dest!: set_takeWhileD)
    have k: "stored ?V ?here keys (store_all ?here key keys)" "stored ?W ?here vals (store_all ?here val vals)"
      using here d key val by (auto intro!: store_all_stored [where x = j] simp del: takeWhile_dropWhile_id)
    then have len: "length (store_all ?here key keys) = length keys" "length (store_all ?here val vals) = length vals"
      by (simp_all add: stored_def)
    have mem: "\<forall>(i, k)\<in>set ?rest. Suc i < length es \<and> k < length (store_all ?here key keys) \<and> k < length (store_all ?here val vals)"
      using less.prems(3) unfolding len by (auto dest: set_dropWhileD)
    have dec: "length es - (j + 2) < length es - j" using j by linarith
    have "distinct (map snd ?rest)" using d unfolding map_append distinct_append by blast
    then obtain ys zs where ih: "pairs_loop lp (if j + 2 < length es then Some (lp_pos es (j + 2)) else None) (j + 2) ?rest
        (store_all ?here key keys) (store_all ?here val vals) = Some (ys, zs)"
      "stored ?V ?rest (store_all ?here key keys) ys" "stored ?W ?rest (store_all ?here val vals) zs"
      using less.hyps [OF dec sp(2,1) mem] by blast
    have st: "stored ?V (?here @ ?rest) keys ys" "stored ?W (?here @ ?rest) vals zs"
      using here by (auto intro!: stored_append [OF k(1) ih(2) d] stored_append [OF k(2) ih(3) d] simp del: takeWhile_dropWhile_id)
    have "pairs_loop lp (Some (lp_pos es j)) j picks keys vals = Some (ys, zs)"
      using False key val ih(1) [unfolded add_2_eq_Suc'] next_entry [OF r j0] next_entry [OF r j] j
      by (subst pairs_loop.simps) (simp add: lpGetValue_def Let_def split del: if_split)
    then show ?thesis using st j0 unfolding takeWhile_dropWhile_id by auto
  qed
qed

text \<open>C31: The random selection of entries fills the array of the caller with the entries at the drawn indexes, each at the place
  of its draw, although the listpack is passed only once.\<close>

theorem random_entries_are_the_drawn:
  assumes "lp_wf lp" and "lp_abs lp \<noteq> []" and "length entries = length rands"
  shows "\<exists>lp' vs. lpRandomEntries rands lp entries = Some (lp', vs) \<and> length vs = length rands \<and>
    (\<forall>k<length rands. \<exists>p. lpSeek lp' (int (rands ! k mod length (lp_abs lp))) = Some (Some p) \<and> lpGetValue lp' p = Some (vs ! k))"
proof -
  let ?es = "map canonical_body (lp_abs lp)" and ?n = "length (lp_abs lp)"
  have r: "lp_rep lp ?es" using wf_abs [OF assms(1)] by simp
  obtain lp' where l: "lpLength lp = Some (lp', ?n)" "lp_rep lp' ?es" using length_spec [OF r] by auto
  let ?picks = "random_picks ?n 1 rands"
  have n: "0 < ?n" using assms(2) by simp
  have mem: "\<forall>(i, k)\<in>set ?picks. 0 \<le> i \<and> i < length ?es \<and> k < length entries" using n assms(3) by (auto simp: random_picks_set)
  have n': "0 < length ?es" using n by simp
  obtain vs where v: "entries_loop lp' (Some (lp_pos ?es 0)) 0 ?picks entries = Some vs" "stored (\<lambda>i. lpGet lp' (lp_pos ?es i)) ?picks entries vs"
    using entries_loop_spec [OF l(2) random_picks_sorted mem random_picks_distinct n'] by blast
  have "lpRandomEntries rands lp entries = Some (lp', vs)"
    using l(1) n v(1) first_entry [OF l(2)] assms(2) by (simp add: lpRandomEntries_def)
  moreover have "\<exists>p. lpSeek lp' (int (rands ! k mod ?n)) = Some (Some p) \<and> lpGetValue lp' p = Some (vs ! k)" if k: "k < length rands" for k
  proof -
    have "(rands ! k mod ?n, k) \<in> set ?picks" using k by (auto simp: random_picks_set)
    then have "lpGet lp' (lp_pos ?es (rands ! k mod ?n)) = Some (vs ! k)" using v(2) by (auto simp: stored_def)
    then show ?thesis using seek_spec [OF l(2), of "int (rands ! k mod ?n)"] n by (simp add: seek_index_def lpGetValue_def)
  qed
  ultimately show ?thesis using v(2) assms(3) by (auto simp: stored_def)
qed

theorem random_entries_are_the_drawn_witness:
  "\<exists>lp' vs p. lpRandomEntries [3, 0] demo_lp [LpInt 0, LpInt 0] = Some (lp', vs) \<and> lpSeek lp' 1 = Some (Some p) \<and> lpGetValue lp' p = Some (vs ! 0)"
proof -
  obtain lp' vs where v: "lpRandomEntries [3, 0] demo_lp [LpInt 0, LpInt 0] = Some (lp', vs)"
    "\<forall>k<length [3 :: nat, 0]. \<exists>p. lpSeek lp' (int ([3, 0] ! k mod length (lp_abs demo_lp))) = Some (Some p) \<and> lpGetValue lp' p = Some (vs ! k)"
    using random_entries_are_the_drawn [of demo_lp "[LpInt 0, LpInt 0]" "[3, 0]"] demo_lp_wf by auto
  moreover have "int (3 mod length (lp_abs demo_lp)) = 1" by (simp add: demo_lp_wf(2) numeral_3_eq_3 mod_Suc)
  ultimately show ?thesis using v(2) [rule_format, of 0] by (metis length_greater_0_conv list.distinct(1) nth_Cons_0)
qed

lemma random_pairs_spec:
  assumes "lp_wf lp" and "2 \<le> length (lp_abs lp)" and "rands \<noteq> []" and "length keys = length rands" and "length vals = length rands"
  shows "\<exists>lp' ks vs. lpRandomPairs rands lp keys vals = Some (lp', ks, vs) \<and> length ks = length rands \<and> length vs = length rands \<and>
    (\<forall>k<length rands. \<exists>p q. lpSeek lp' (int (rands ! k mod (length (lp_abs lp) div 2) * 2)) = Some (Some p) \<and> lpNext lp' p = Some (Some q) \<and>
       lpGetValue lp' p = Some (ks ! k) \<and> lpGetValue lp' q = Some (vs ! k))"
proof -
  let ?es = "map canonical_body (lp_abs lp)" and ?n = "length (lp_abs lp)"
  have r: "lp_rep lp ?es" using wf_abs [OF assms(1)] by simp
  obtain lp' where l: "lpLength lp = Some (lp', ?n)" "lp_rep lp' ?es" using length_spec [OF r] by auto
  let ?picks = "random_picks (?n div 2) 2 rands"
  have m: "0 < ?n div 2" using assms(2) by simp
  have bound: "Suc (x mod (?n div 2) * 2) < ?n" for x using mod_less_divisor [OF m, of x] by linarith
  have ne: "?picks \<noteq> []" using assms(3) by (metis enumerate_eq_zip length_0_conv length_enumerate length_map length_sort random_picks_def)
  define j where "j = fst (hd ?picks)"
  have j: "\<exists>x. j = x mod (?n div 2) * 2" using hd_in_set [OF ne] by (auto simp: random_picks_set j_def)
  have "\<forall>x\<in>set ?picks. j \<le> fst x" using random_picks_sorted [of "?n div 2" 2 rands] ne by (cases ?picks) (auto simp: j_def)
  then have ge: "\<forall>(i, k)\<in>set ?picks. j \<le> i \<and> even (i - j)" using j by (auto simp: random_picks_set)
  have mem: "\<forall>(i, k)\<in>set ?picks. Suc i < length ?es \<and> k < length keys \<and> k < length vals" using bound assms(4,5) by (auto simp: random_picks_set)
  have jn: "j < length ?es" using j bound by (metis Suc_lessD length_map)
  obtain ks vs where v: "pairs_loop lp' (Some (lp_pos ?es j)) j ?picks keys vals = Some (ks, vs)"
    "stored (\<lambda>i. lpGet lp' (lp_pos ?es i)) ?picks keys ks" "stored (\<lambda>i. lpGet lp' (lp_pos ?es (Suc i))) ?picks vals vs"
    using pairs_loop_spec [OF l(2) random_picks_sorted ge mem random_picks_distinct] jn by auto
  have sk: "lpSeek lp' (int i) = Some (Some (lp_pos ?es i))" if "i < ?n" for i using seek_spec [OF l(2), of "int i"] that by (simp add: seek_index_def)
  have "lpRandomPairs rands lp keys vals = Some (lp', ks, vs)"
    using l(1) m ne v(1) sk jn unfolding j_def by (simp add: lpRandomPairs_def Let_def)
  moreover have "\<exists>p q. lpSeek lp' (int (rands ! k mod (?n div 2) * 2)) = Some (Some p) \<and> lpNext lp' p = Some (Some q) \<and>
      lpGetValue lp' p = Some (ks ! k) \<and> lpGetValue lp' q = Some (vs ! k)" if k: "k < length rands" for k
  proof -
    let ?i = "rands ! k mod (?n div 2) * 2"
    have "(?i, k) \<in> set ?picks" using k by (auto simp: random_picks_set)
    then have "lpGet lp' (lp_pos ?es ?i) = Some (ks ! k)" "lpGet lp' (lp_pos ?es (Suc ?i)) = Some (vs ! k)"
      using v(2,3) by (auto simp: stored_def)
    then show ?thesis using sk [of ?i] next_entry [OF l(2), of ?i] bound [of "rands ! k"] by (simp add: lpGetValue_def)
  qed
  ultimately show ?thesis using v(2,3) assms(4,5) by (auto simp: stored_def)
qed

end
