(* ===== verification/Adlist.thy ===== *)
theory Adlist
  imports Util_Numbers
begin

text \<open>
  The doubly linked list of \<^verbatim>\<open>adlist.c\<close> over an explicit store of nodes. A pointer is an address or absent for NULL; reading
  or writing through NULL or through the address of a node that is not allocated is an error, and so is freeing it twice.
\<close>

subsection \<open>Store\<close>

type_synonym ptr = "nat option"

record 'v listNode =
  node_prev :: ptr
  node_next :: ptr
  node_value :: 'v

text \<open>The nodes that are allocated, and the values that were given to the free method of a list, in order.\<close>

record 'v store =
  nodes :: "nat \<rightharpoonup> 'v listNode"
  freed :: "'v list"

record 'v alist =
  list_head :: ptr
  list_tail :: ptr
  list_dup :: "('v \<Rightarrow> 'v option) option"
  list_free :: bool
  list_match :: "('v \<Rightarrow> 'v \<Rightarrow> bool) option"
  list_len :: nat

definition deref :: "'v store \<Rightarrow> ptr \<Rightarrow> 'v listNode option" where
  "deref m p = Option.bind p (nodes m)"

definition put :: "'v store \<Rightarrow> nat \<Rightarrow> 'v listNode \<Rightarrow> 'v store" where
  "put m a n = m\<lparr>nodes := (nodes m)(a \<mapsto> n)\<rparr>"

definition set_prev :: "'v store \<Rightarrow> ptr \<Rightarrow> ptr \<Rightarrow> 'v store option" where
  "set_prev m p x = do { a \<leftarrow> p; n \<leftarrow> nodes m a; Some (put m a (n\<lparr>node_prev := x\<rparr>)) }"

definition set_next :: "'v store \<Rightarrow> ptr \<Rightarrow> ptr \<Rightarrow> 'v store option" where
  "set_next m p x = do { a \<leftarrow> p; n \<leftarrow> nodes m a; Some (put m a (n\<lparr>node_next := x\<rparr>)) }"

text \<open>The allocator is given by the address it would return. It returns NULL when that address is not free; what a new node
  holds before it is initialised is not specified, and given by \<open>junk\<close>.\<close>

definition zmalloc :: "'v listNode \<Rightarrow> nat \<Rightarrow> 'v store \<Rightarrow> ('v store \<times> ptr)" where
  "zmalloc junk a m = (if 0 < a \<and> a < 2 ^ 64 \<and> nodes m a = None then (put m a junk, Some a) else (m, None))"

definition zfree :: "'v store \<Rightarrow> nat \<Rightarrow> 'v store option" where
  "zfree m a = (if nodes m a = None then None else Some (m\<lparr>nodes := (nodes m)(a := None)\<rparr>))"

text \<open>The free method of the list, when it has one.\<close>

definition free_value :: "'v alist \<Rightarrow> 'v store \<Rightarrow> 'v \<Rightarrow> 'v store" where
  "free_value l m v = (if list_free l then m\<lparr>freed := freed m @ [v]\<rparr> else m)"

text \<open>The length is an unsigned 64-bit number.\<close>

definition len_add :: "nat \<Rightarrow> int \<Rightarrow> nat" where
  "len_add len d = u64 (int len + d)"

subsection \<open>Creation and release\<close>

text \<open>The list header and the iterator are not nodes; whether the allocator has memory for them is an argument.\<close>

definition listCreate :: "bool \<Rightarrow> 'v alist option" where
  "listCreate mem =
     (if \<not> mem then None
      else Some \<lparr>list_head = None, list_tail = None, list_dup = None, list_free = False, list_match = None, list_len = 0\<rparr>)"

primrec empty_loop :: "'v alist \<Rightarrow> nat \<Rightarrow> 'v store \<Rightarrow> ptr \<Rightarrow> 'v store option" where
  "empty_loop l 0 m current = Some m"
| "empty_loop l (Suc len) m current = do {
     a \<leftarrow> current;
     n \<leftarrow> nodes m a;
     m \<leftarrow> zfree (free_value l m (node_value n)) a;
     empty_loop l len m (node_next n)
   }"

definition listEmpty :: "'v store \<Rightarrow> 'v alist \<Rightarrow> ('v store \<times> 'v alist) option" where
  "listEmpty m l = do {
     m \<leftarrow> empty_loop l (list_len l) m (list_head l);
     Some (m, l\<lparr>list_head := None, list_tail := None, list_len := 0\<rparr>)
   }"

definition listRelease :: "'v store \<Rightarrow> 'v alist option \<Rightarrow> 'v store option" where
  "listRelease m l = (case l of None \<Rightarrow> Some m | Some l \<Rightarrow> map_option fst (listEmpty m l))"

subsection \<open>Linking and unlinking\<close>

definition listLinkNodeHead :: "'v store \<Rightarrow> 'v alist \<Rightarrow> nat \<Rightarrow> ('v store \<times> 'v alist) option" where
  "listLinkNodeHead m l node = do {
     (m, l) \<leftarrow> (if list_len l = 0 then do {
         m \<leftarrow> set_next m (Some node) None;
         m \<leftarrow> set_prev m (Some node) None;
         Some (m, l\<lparr>list_head := Some node, list_tail := Some node\<rparr>)
       } else do {
         m \<leftarrow> set_prev m (Some node) None;
         m \<leftarrow> set_next m (Some node) (list_head l);
         m \<leftarrow> set_prev m (list_head l) (Some node);
         Some (m, l\<lparr>list_head := Some node\<rparr>)
       });
     Some (m, l\<lparr>list_len := len_add (list_len l) 1\<rparr>)
   }"

definition listLinkNodeTail :: "'v store \<Rightarrow> 'v alist \<Rightarrow> nat \<Rightarrow> ('v store \<times> 'v alist) option" where
  "listLinkNodeTail m l node = do {
     (m, l) \<leftarrow> (if list_len l = 0 then do {
         m \<leftarrow> set_next m (Some node) None;
         m \<leftarrow> set_prev m (Some node) None;
         Some (m, l\<lparr>list_head := Some node, list_tail := Some node\<rparr>)
       } else do {
         m \<leftarrow> set_prev m (Some node) (list_tail l);
         m \<leftarrow> set_next m (Some node) None;
         m \<leftarrow> set_next m (list_tail l) (Some node);
         Some (m, l\<lparr>list_tail := Some node\<rparr>)
       });
     Some (m, l\<lparr>list_len := len_add (list_len l) 1\<rparr>)
   }"

text \<open>The operations that allocate return whether they succeeded.\<close>

definition listAddNodeHead :: "'v listNode \<Rightarrow> nat \<Rightarrow> 'v store \<Rightarrow> 'v alist \<Rightarrow> 'v \<Rightarrow> ('v store \<times> 'v alist \<times> bool) option" where
  "listAddNodeHead junk a m l value =
     (case zmalloc junk a m of
        (m, None) \<Rightarrow> Some (m, l, False)
      | (m, Some node) \<Rightarrow> do {
          n \<leftarrow> nodes m node;
          let m = put m node (n\<lparr>node_value := value\<rparr>);
          (m, l) \<leftarrow> listLinkNodeHead m l node;
          Some (m, l, True)
        })"

definition listAddNodeTail :: "'v listNode \<Rightarrow> nat \<Rightarrow> 'v store \<Rightarrow> 'v alist \<Rightarrow> 'v \<Rightarrow> ('v store \<times> 'v alist \<times> bool) option" where
  "listAddNodeTail junk a m l value =
     (case zmalloc junk a m of
        (m, None) \<Rightarrow> Some (m, l, False)
      | (m, Some node) \<Rightarrow> do {
          n \<leftarrow> nodes m node;
          let m = put m node (n\<lparr>node_value := value\<rparr>);
          (m, l) \<leftarrow> listLinkNodeTail m l node;
          Some (m, l, True)
        })"

definition listInsertNode :: "'v listNode \<Rightarrow> nat \<Rightarrow> 'v store \<Rightarrow> 'v alist \<Rightarrow> nat \<Rightarrow> 'v \<Rightarrow> bool \<Rightarrow> ('v store \<times> 'v alist \<times> bool) option" where
  "listInsertNode junk a m l old_node value after =
     (case zmalloc junk a m of
        (m, None) \<Rightarrow> Some (m, l, False)
      | (m, Some node) \<Rightarrow> do {
          n \<leftarrow> nodes m node;
          let m = put m node (n\<lparr>node_value := value\<rparr>);
          (m, l) \<leftarrow> (if after then do {
              m \<leftarrow> set_prev m (Some node) (Some old_node);
              old \<leftarrow> nodes m old_node;
              m \<leftarrow> set_next m (Some node) (node_next old);
              Some (m, if list_tail l = Some old_node then l\<lparr>list_tail := Some node\<rparr> else l)
            } else do {
              m \<leftarrow> set_next m (Some node) (Some old_node);
              old \<leftarrow> nodes m old_node;
              m \<leftarrow> set_prev m (Some node) (node_prev old);
              Some (m, if list_head l = Some old_node then l\<lparr>list_head := Some node\<rparr> else l)
            });
          n \<leftarrow> nodes m node;
          m \<leftarrow> (if node_prev n \<noteq> None then set_next m (node_prev n) (Some node) else Some m);
          n \<leftarrow> nodes m node;
          m \<leftarrow> (if node_next n \<noteq> None then set_prev m (node_next n) (Some node) else Some m);
          Some (m, l\<lparr>list_len := len_add (list_len l) 1\<rparr>, True)
        })"

definition listUnlinkNode :: "'v store \<Rightarrow> 'v alist \<Rightarrow> nat \<Rightarrow> ('v store \<times> 'v alist) option" where
  "listUnlinkNode m l node = do {
     n \<leftarrow> nodes m node;
     (m, l) \<leftarrow> (if node_prev n \<noteq> None then do { m \<leftarrow> set_next m (node_prev n) (node_next n); Some (m, l) }
               else Some (m, l\<lparr>list_head := node_next n\<rparr>));
     n \<leftarrow> nodes m node;
     (m, l) \<leftarrow> (if node_next n \<noteq> None then do { m \<leftarrow> set_prev m (node_next n) (node_prev n); Some (m, l) }
               else Some (m, l\<lparr>list_tail := node_prev n\<rparr>));
     m \<leftarrow> set_next m (Some node) None;
     m \<leftarrow> set_prev m (Some node) None;
     Some (m, l\<lparr>list_len := len_add (list_len l) (-1)\<rparr>)
   }"

definition listDelNode :: "'v store \<Rightarrow> 'v alist \<Rightarrow> nat \<Rightarrow> ('v store \<times> 'v alist) option" where
  "listDelNode m l node = do {
     (m, l) \<leftarrow> listUnlinkNode m l node;
     n \<leftarrow> nodes m node;
     m \<leftarrow> zfree (free_value l m (node_value n)) node;
     Some (m, l)
   }"

subsection \<open>Iteration\<close>

datatype direction = AL_START_HEAD | AL_START_TAIL

record listIter =
  iter_next :: ptr
  iter_direction :: direction

definition listGetIterator :: "bool \<Rightarrow> 'v alist \<Rightarrow> direction \<Rightarrow> listIter option" where
  "listGetIterator mem l dir =
     (if \<not> mem then None
      else Some \<lparr>iter_next = (if dir = AL_START_HEAD then list_head l else list_tail l), iter_direction = dir\<rparr>)"

definition listRewind :: "'v alist \<Rightarrow> listIter" where
  "listRewind l = \<lparr>iter_next = list_head l, iter_direction = AL_START_HEAD\<rparr>"

definition listRewindTail :: "'v alist \<Rightarrow> listIter" where
  "listRewindTail l = \<lparr>iter_next = list_tail l, iter_direction = AL_START_TAIL\<rparr>"

definition listNext :: "'v store \<Rightarrow> listIter \<Rightarrow> (listIter \<times> ptr) option" where
  "listNext m iter =
     (case iter_next iter of
        None \<Rightarrow> Some (iter, None)
      | Some current \<Rightarrow> do {
          n \<leftarrow> nodes m current;
          Some (iter\<lparr>iter_next := (if iter_direction iter = AL_START_HEAD then node_next n else node_prev n)\<rparr>, Some current)
        })"

subsection \<open>Copying and searching\<close>

text \<open>The addresses are those the allocator returns for the nodes of the copy; it returns NULL when there are no more.\<close>

partial_function (option) dup_loop :: "'v listNode \<Rightarrow> nat list \<Rightarrow> 'v store \<Rightarrow> 'v alist \<Rightarrow> listIter \<Rightarrow> ('v store \<times> 'v alist option) option" where
  "dup_loop junk addrs m copy iter = do {
     (iter, node) \<leftarrow> listNext m iter;
     case node of
       None \<Rightarrow> Some (m, Some copy)
     | Some node \<Rightarrow> do {
         n \<leftarrow> nodes m node;
         case (case list_dup copy of None \<Rightarrow> Some (node_value n) | Some dup \<Rightarrow> dup (node_value n)) of
           None \<Rightarrow> do { m \<leftarrow> listRelease m (Some copy); Some (m, None) }
         | Some value \<Rightarrow> do {
             (m, copy, ok) \<leftarrow> listAddNodeTail junk (case addrs of [] \<Rightarrow> 0 | a # _ \<Rightarrow> a) m copy value;
             if \<not> ok then do { m \<leftarrow> listRelease (free_value copy m value) (Some copy); Some (m, None) }
             else dup_loop junk (tl addrs) m copy iter
           }
       }
   }"

definition listDup :: "bool \<Rightarrow> 'v listNode \<Rightarrow> nat list \<Rightarrow> 'v store \<Rightarrow> 'v alist \<Rightarrow> ('v store \<times> 'v alist option) option" where
  "listDup mem junk addrs m orig =
     (case listCreate mem of
        None \<Rightarrow> Some (m, None)
      | Some copy \<Rightarrow>
          let copy = copy\<lparr>list_dup := list_dup orig, list_free := list_free orig, list_match := list_match orig\<rparr>
          in dup_loop junk addrs m copy (listRewind orig))"

partial_function (option) search_loop :: "'v store \<Rightarrow> 'v alist \<Rightarrow> 'v \<Rightarrow> listIter \<Rightarrow> ptr option" where
  "search_loop m l key iter = do {
     (iter, node) \<leftarrow> listNext m iter;
     case node of
       None \<Rightarrow> Some None
     | Some node \<Rightarrow> do {
         n \<leftarrow> nodes m node;
         if (case list_match l of Some match \<Rightarrow> match (node_value n) key | None \<Rightarrow> key = node_value n) then Some (Some node)
         else search_loop m l key iter
       }
   }"

definition listSearchKey :: "'v store \<Rightarrow> 'v alist \<Rightarrow> 'v \<Rightarrow> ptr option" where
  "listSearchKey m l key = search_loop m l key (listRewind l)"

fun walk_prev :: "'v store \<Rightarrow> nat \<Rightarrow> ptr \<Rightarrow> ptr option" where
  "walk_prev m 0 n = Some n"
| "walk_prev m (Suc index) None = Some None"
| "walk_prev m (Suc index) (Some a) = do { n \<leftarrow> nodes m a; walk_prev m index (node_prev n) }"

fun walk_next :: "'v store \<Rightarrow> nat \<Rightarrow> ptr \<Rightarrow> ptr option" where
  "walk_next m 0 n = Some n"
| "walk_next m (Suc index) None = Some None"
| "walk_next m (Suc index) (Some a) = do { n \<leftarrow> nodes m a; walk_next m index (node_next n) }"

text \<open>The index is a signed 64-bit number, and negating the least one is an overflow.\<close>

definition listIndex :: "'v store \<Rightarrow> 'v alist \<Rightarrow> int \<Rightarrow> ptr option" where
  "listIndex m l index =
     (if index < 0 then do {
        c_assert (index \<noteq> - (2 ^ 63));
        walk_prev m (nat (- index - 1)) (list_tail l)
      } else walk_next m (nat index) (list_head l))"

subsection \<open>Rotation and joining\<close>

definition listRotateTailToHead :: "'v store \<Rightarrow> 'v alist \<Rightarrow> ('v store \<times> 'v alist) option" where
  "listRotateTailToHead m l =
     (if list_len l \<le> 1 then Some (m, l)
      else do {
        let tail = list_tail l;
        n \<leftarrow> deref m tail;
        let l = l\<lparr>list_tail := node_prev n\<rparr>;
        m \<leftarrow> set_next m (list_tail l) None;
        m \<leftarrow> set_prev m (list_head l) tail;
        m \<leftarrow> set_prev m tail None;
        m \<leftarrow> set_next m tail (list_head l);
        Some (m, l\<lparr>list_head := tail\<rparr>)
      })"

definition listRotateHeadToTail :: "'v store \<Rightarrow> 'v alist \<Rightarrow> ('v store \<times> 'v alist) option" where
  "listRotateHeadToTail m l =
     (if list_len l \<le> 1 then Some (m, l)
      else do {
        let head = list_head l;
        n \<leftarrow> deref m head;
        let l = l\<lparr>list_head := node_next n\<rparr>;
        m \<leftarrow> set_prev m (list_head l) None;
        m \<leftarrow> set_next m (list_tail l) head;
        m \<leftarrow> set_next m head None;
        m \<leftarrow> set_prev m head (list_tail l);
        Some (m, l\<lparr>list_tail := head\<rparr>)
      })"

definition listJoin :: "'v store \<Rightarrow> 'v alist \<Rightarrow> 'v alist \<Rightarrow> ('v store \<times> 'v alist \<times> 'v alist) option" where
  "listJoin m l oth =
     (if list_len oth = 0 then Some (m, l, oth)
      else do {
        m \<leftarrow> set_prev m (list_head oth) (list_tail l);
        (m, l) \<leftarrow> (if list_tail l \<noteq> None then do { m \<leftarrow> set_next m (list_tail l) (list_head oth); Some (m, l) }
                  else Some (m, l\<lparr>list_head := list_head oth\<rparr>));
        let l = l\<lparr>list_tail := list_tail oth, list_len := len_add (list_len l) (int (list_len oth))\<rparr>;
        Some (m, l, oth\<lparr>list_head := None, list_tail := None, list_len := 0\<rparr>)
      })"

definition listInitNode :: "'v store \<Rightarrow> nat \<Rightarrow> 'v \<Rightarrow> 'v store option" where
  "listInitNode m node value = do {
     n \<leftarrow> nodes m node;
     Some (put m node (n\<lparr>node_prev := None, node_next := None, node_value := value\<rparr>))
   }"

end
