(* ===== verification/Adlist_Inv.thy ===== *)
theory Adlist_Inv
  imports Adlist
begin

text \<open>
  The contract of the linked list: a list of nodes, each with its address and its value. The operations relink exactly the
  neighbours, leave the rest of the store alone, and never touch a node that is not allocated.
\<close>

subsection \<open>Chains of nodes\<close>

fun first_of :: "(nat \<times> 'v) list \<Rightarrow> ptr \<Rightarrow> ptr" where
  "first_of [] n = n"
| "first_of (x # xs) n = Some (fst x)"

fun last_of :: "(nat \<times> 'v) list \<Rightarrow> ptr \<Rightarrow> ptr" where
  "last_of [] p = p"
| "last_of (x # xs) p = last_of xs (Some (fst x))"

text \<open>The nodes from \<open>p\<close> to \<open>n\<close>, both excluded, linked in both directions.\<close>

fun linked :: "(nat \<rightharpoonup> 'v listNode) \<Rightarrow> ptr \<Rightarrow> (nat \<times> 'v) list \<Rightarrow> ptr \<Rightarrow> bool" where
  "linked h p [] n \<longleftrightarrow> True"
| "linked h p (x # xs) n \<longleftrightarrow>
     h (fst x) = Some \<lparr>node_prev = p, node_next = first_of xs n, node_value = snd x\<rparr> \<and> linked h (Some (fst x)) xs n"

lemma first_of_append [simp]: "first_of (xs @ ys) n = first_of xs (first_of ys n)"
  by (cases xs) simp_all

lemma last_of_append [simp]: "last_of (xs @ ys) p = last_of ys (last_of xs p)"
  by (induction xs arbitrary: p) simp_all

lemma last_of_in: "xs \<noteq> [] \<Longrightarrow> \<exists>a\<in>fst ` set xs. last_of xs p = Some a"
  by (cases xs rule: rev_cases) auto

lemma first_of_in: "xs \<noteq> [] \<Longrightarrow> \<exists>a\<in>fst ` set xs. first_of xs n = Some a"
  by (cases xs) auto

lemma linked_append [simp]: "linked h p (xs @ ys) n \<longleftrightarrow> linked h p xs (first_of ys n) \<and> linked h (last_of xs p) ys n"
  by (induction xs arbitrary: p) auto

lemma linked_frame [simp]: "a \<notin> fst ` set xs \<Longrightarrow> linked (h(a := v)) p xs n = linked h p xs n"
  by (induction xs arbitrary: p) auto

lemma linked_cong: "(\<And>a. a \<in> fst ` set xs \<Longrightarrow> h' a = h a) \<Longrightarrow> linked h' p xs n = linked h p xs n"
  by (induction xs arbitrary: p) auto

lemma linked_at: "linked h p (xs @ (a, v) # ys) n \<Longrightarrow>
    h a = Some \<lparr>node_prev = last_of xs p, node_next = first_of ys n, node_value = v\<rparr>"
  by simp

lemma linked_allocated: "linked h p xs n \<Longrightarrow> a \<in> fst ` set xs \<Longrightarrow> h a \<noteq> None"
  by (induction xs arbitrary: p) auto

definition addr_ok :: "nat \<Rightarrow> bool" where
  "addr_ok a \<longleftrightarrow> 0 < a \<and> a < 2 ^ 64"

definition dlist :: "'v store \<Rightarrow> 'v alist \<Rightarrow> (nat \<times> 'v) list \<Rightarrow> bool" where
  "dlist m l xs \<longleftrightarrow> linked (nodes m) None xs None \<and> distinct (map fst xs) \<and> list_head l = first_of xs None \<and>
     list_tail l = last_of xs None \<and> list_len l = length xs \<and> list_all addr_ok (map fst xs)"

text \<open>There are not more nodes than addresses, so that the length does not wrap around.\<close>

lemma addr_bound:
  assumes "distinct as" and "list_all addr_ok as"
  shows "length as < 2 ^ 64"
proof -
  have "set as \<subseteq> {1..<2 ^ 64}" using assms(2) by (auto simp: list_all_iff addr_ok_def)
  then have "length as \<le> card {1..<(2 ^ 64 :: nat)}" using card_mono [of "{1..<2 ^ 64}" "set as"] distinct_card [OF assms(1)] by simp
  then show ?thesis by simp
qed

lemma len_incr: "distinct as \<Longrightarrow> list_all addr_ok as \<Longrightarrow> length as = n + k \<Longrightarrow> len_add n (int k) = n + k"
  using addr_bound [of as] by (simp add: len_add_def u64_def nat_add_distrib)

lemma len_decr: "n < 2 ^ 64 \<Longrightarrow> 0 < n \<Longrightarrow> len_add n (-1) = n - 1"
  by (simp add: len_add_def u64_def nat_diff_distrib Suc_leI of_nat_diff)

definition params :: "'v alist \<Rightarrow> 'v alist \<Rightarrow> bool" where
  "params l l' \<longleftrightarrow> list_dup l' = list_dup l \<and> list_free l' = list_free l \<and> list_match l' = list_match l"

text \<open>Only the nodes at the addresses of a set change.\<close>

definition node_frame :: "nat set \<Rightarrow> 'v store \<Rightarrow> 'v store \<Rightarrow> bool" where
  "node_frame A m m' \<longleftrightarrow> (\<forall>b. b \<notin> A \<longrightarrow> nodes m' b = nodes m b)"

lemmas store_simps = set_prev_def set_next_def put_def deref_def

lemma dlist_len0: "dlist m l xs \<Longrightarrow> list_len l = 0 \<longleftrightarrow> xs = []"
  by (simp add: dlist_def)

lemma link_head:
  assumes d: "dlist m l xs" and a: "nodes m a = Some n" "a \<notin> fst ` set xs" "addr_ok a"
  shows "\<exists>m' l'. listLinkNodeHead m l a = Some (m', l') \<and> dlist m' l' ((a, node_value n) # xs) \<and>
    node_frame (insert a (fst ` set xs)) m m' \<and> freed m' = freed m \<and> params l l'"
proof -
  have len: "len_add (length xs) 1 = Suc (length xs)"
    using d a len_incr [of "a # map fst xs" "length xs" 1] by (simp add: dlist_def)
  show ?thesis
  proof (cases xs)
    case Nil
    then show ?thesis using d a len by (simp add: listLinkNodeHead_def dlist_def store_simps node_frame_def params_def)
  next
    case (Cons y ys)
    then show ?thesis using d a len by (auto simp: listLinkNodeHead_def dlist_def store_simps node_frame_def params_def)
  qed
qed

lemma link_tail:
  assumes d: "dlist m l xs" and a: "nodes m a = Some n" "a \<notin> fst ` set xs" "addr_ok a"
  shows "\<exists>m' l'. listLinkNodeTail m l a = Some (m', l') \<and> dlist m' l' (xs @ [(a, node_value n)]) \<and>
    node_frame (insert a (fst ` set xs)) m m' \<and> freed m' = freed m \<and> params l l'"
proof -
  have len: "len_add (length xs) 1 = Suc (length xs)"
    using d a len_incr [of "a # map fst xs" "length xs" 1] by (simp add: dlist_def)
  show ?thesis
  proof (cases xs rule: rev_cases)
    case Nil
    then show ?thesis using d a len by (simp add: listLinkNodeTail_def dlist_def store_simps node_frame_def params_def)
  next
    case (snoc ys y)
    then show ?thesis using d a len by (auto simp: listLinkNodeTail_def dlist_def store_simps node_frame_def params_def)
  qed
qed

subsection \<open>Adding and removing nodes\<close>

definition fresh_addr :: "'v store \<Rightarrow> nat \<Rightarrow> bool" where
  "fresh_addr m a \<longleftrightarrow> addr_ok a \<and> nodes m a = None"

lemma zmalloc_fresh: "zmalloc junk a m = (if fresh_addr m a then (put m a junk, Some a) else (m, None))"
  by (simp add: zmalloc_def fresh_addr_def addr_ok_def)

lemma dlist_fresh: "dlist m l xs \<Longrightarrow> fresh_addr m a \<Longrightarrow> a \<notin> fst ` set xs"
  using linked_allocated [of "nodes m" None xs None a] by (auto simp: dlist_def fresh_addr_def)

lemma dlist_put: "a \<notin> fst ` set xs \<Longrightarrow> dlist (put m a n) l xs = dlist m l xs"
  by (simp add: dlist_def put_def)

lemma node_frame_put: "node_frame (insert a A) (put m a n) m' \<Longrightarrow> node_frame (insert a A) m m'"
  by (auto simp: node_frame_def put_def)

lemma add_head_spec:
  assumes "dlist m l xs" and "fresh_addr m a"
  shows "\<exists>m' l'. listAddNodeHead junk a m l v = Some (m', l', True) \<and> dlist m' l' ((a, v) # xs) \<and>
    node_frame (insert a (fst ` set xs)) m m' \<and> freed m' = freed m \<and> params l l'"
proof -
  let ?n = "junk\<lparr>node_value := v\<rparr>"
  have a: "a \<notin> fst ` set xs" "addr_ok a" using dlist_fresh [OF assms] assms(2) by (simp_all add: fresh_addr_def)
  have "dlist (put m a ?n) l xs" "nodes (put m a ?n) a = Some ?n" using assms(1) a(1) by (simp_all add: dlist_put) (simp add: put_def)
  then obtain m' l' where "listLinkNodeHead (put m a ?n) l a = Some (m', l')" "dlist m' l' ((a, v) # xs)"
    "node_frame (insert a (fst ` set xs)) (put m a ?n) m'" "freed m' = freed m" "params l l'"
    using link_head [of "put m a ?n" l xs a ?n] a by (auto simp: put_def)
  moreover have "put (put m a junk) a ?n = put m a ?n" by (simp add: put_def)
  ultimately show ?thesis
    using assms(2) node_frame_put by (fastforce simp: listAddNodeHead_def zmalloc_fresh Let_def put_def)
qed

lemma add_tail_spec:
  assumes "dlist m l xs" and "fresh_addr m a"
  shows "\<exists>m' l'. listAddNodeTail junk a m l v = Some (m', l', True) \<and> dlist m' l' (xs @ [(a, v)]) \<and>
    node_frame (insert a (fst ` set xs)) m m' \<and> freed m' = freed m \<and> params l l'"
proof -
  let ?n = "junk\<lparr>node_value := v\<rparr>"
  have a: "a \<notin> fst ` set xs" "addr_ok a" using dlist_fresh [OF assms] assms(2) by (simp_all add: fresh_addr_def)
  have "dlist (put m a ?n) l xs" "nodes (put m a ?n) a = Some ?n" using assms(1) a(1) by (simp_all add: dlist_put) (simp add: put_def)
  then obtain m' l' where "listLinkNodeTail (put m a ?n) l a = Some (m', l')" "dlist m' l' (xs @ [(a, v)])"
    "node_frame (insert a (fst ` set xs)) (put m a ?n) m'" "freed m' = freed m" "params l l'"
    using link_tail [of "put m a ?n" l xs a ?n] a by (auto simp: put_def)
  moreover have "put (put m a junk) a ?n = put m a ?n" by (simp add: put_def)
  ultimately show ?thesis
    using assms(2) node_frame_put by (fastforce simp: listAddNodeTail_def zmalloc_fresh Let_def put_def)
qed

lemma alloc_fails:
  assumes "\<not> fresh_addr m a"
  shows "listAddNodeHead junk a m l v = Some (m, l, False)" and "listAddNodeTail junk a m l v = Some (m, l, False)"
    and "listInsertNode junk a m l old v after = Some (m, l, False)"
  using assms by (simp_all add: listAddNodeHead_def listAddNodeTail_def listInsertNode_def zmalloc_fresh)

lemma unlink_spec:
  assumes d: "dlist m l (xs @ (a, v) # ys)"
  shows "\<exists>m' l'. listUnlinkNode m l a = Some (m', l') \<and> dlist m' l' (xs @ ys) \<and>
    nodes m' a = Some \<lparr>node_prev = None, node_next = None, node_value = v\<rparr> \<and>
    node_frame (insert a (fst ` set (xs @ ys))) m m' \<and> freed m' = freed m \<and> params l l'"
proof -
  have "length (map fst (xs @ (a, v) # ys)) < 2 ^ 64" using d by (intro addr_bound) (simp_all add: dlist_def)
  then have len: "len_add (Suc (length xs + length ys)) (-1) = length xs + length ys" by (subst len_decr) auto
  show ?thesis
  proof (cases xs rule: rev_cases; cases ys)
    assume "xs = []" "ys = []"
    then show ?thesis using d len by (auto simp: listUnlinkNode_def dlist_def store_simps node_frame_def params_def)
  next
    fix y zs
    assume "xs = []" "ys = y # zs"
    then show ?thesis using d len by (auto simp: listUnlinkNode_def dlist_def store_simps node_frame_def params_def)
  next
    fix zs y
    assume "xs = zs @ [y]" "ys = []"
    then show ?thesis using d len by (auto simp: listUnlinkNode_def dlist_def store_simps node_frame_def params_def)
  next
    fix zs y y' zs'
    assume "xs = zs @ [y]" "ys = y' # zs'"
    then show ?thesis using d len by (auto simp: listUnlinkNode_def dlist_def store_simps node_frame_def params_def)
  qed
qed

definition freed_by :: "'v alist \<Rightarrow> 'v list \<Rightarrow> 'v list" where
  "freed_by l vs = (if list_free l then vs else [])"

lemma del_spec:
  assumes d: "dlist m l (xs @ (a, v) # ys)"
  shows "\<exists>m' l'. listDelNode m l a = Some (m', l') \<and> dlist m' l' (xs @ ys) \<and> nodes m' a = None \<and>
    node_frame (insert a (fst ` set (xs @ ys))) m m' \<and> freed m' = freed m @ freed_by l [v] \<and> params l l'"
proof -
  obtain m1 l1 where u: "listUnlinkNode m l a = Some (m1, l1)" "dlist m1 l1 (xs @ ys)"
    "nodes m1 a = Some \<lparr>node_prev = None, node_next = None, node_value = v\<rparr>"
    "node_frame (insert a (fst ` set (xs @ ys))) m m1" "freed m1 = freed m" "params l l1"
    using unlink_spec [OF d] by blast
  have a: "a \<notin> fst ` set (xs @ ys)" using d by (auto simp: dlist_def)
  let ?m = "(free_value l1 m1 v)\<lparr>nodes := (nodes m1)(a := None)\<rparr>"
  have "listDelNode m l a = Some (?m, l1)" using u(1,3) by (simp add: listDelNode_def zfree_def free_value_def)
  moreover have "dlist ?m l1 (xs @ ys)" using u(2) a by (simp add: dlist_def image_Un)
  ultimately show ?thesis using u by (auto simp: node_frame_def freed_by_def free_value_def params_def)
qed

lemma node_after_spec:
  assumes d: "dlist m l (xs @ (b, w) # ys)" and a: "fresh_addr m a"
  shows "\<exists>m' l'. listInsertNode junk a m l b v True = Some (m', l', True) \<and> dlist m' l' (xs @ (b, w) # (a, v) # ys) \<and>
    node_frame (insert a (fst ` set (xs @ (b, w) # ys))) m m' \<and> freed m' = freed m \<and> params l l'"
proof -
  have ax: "a \<notin> fst ` set (xs @ (b, w) # ys)" using dlist_fresh [OF d a] .
  have ok: "addr_ok a" "nodes m a = None" using a by (simp_all add: fresh_addr_def)
  have len: "len_add (Suc (length xs + length ys)) 1 = Suc (Suc (length xs + length ys))"
    using d ax ok len_incr [of "a # map fst (xs @ (b, w) # ys)" "Suc (length xs + length ys)" 1] by (simp add: dlist_def image_Un)
  show ?thesis
  proof (cases ys)
    case Nil
    then show ?thesis
      using d ax ok a len by (auto simp: listInsertNode_def zmalloc_fresh dlist_def store_simps node_frame_def params_def Let_def image_Un)
  next
    case (Cons y zs)
    then have "last_of ys (Some b) \<noteq> Some b" using d last_of_in [of ys "Some b"] by (force simp: dlist_def)
    then show ?thesis
      using d ax ok a len Cons by (auto simp: listInsertNode_def zmalloc_fresh dlist_def store_simps node_frame_def params_def Let_def image_Un)
  qed
qed

lemma node_before_spec:
  assumes d: "dlist m l (xs @ (b, w) # ys)" and a: "fresh_addr m a"
  shows "\<exists>m' l'. listInsertNode junk a m l b v False = Some (m', l', True) \<and> dlist m' l' (xs @ (a, v) # (b, w) # ys) \<and>
    node_frame (insert a (fst ` set (xs @ (b, w) # ys))) m m' \<and> freed m' = freed m \<and> params l l'"
proof -
  have ax: "a \<notin> fst ` set (xs @ (b, w) # ys)" using dlist_fresh [OF d a] .
  have ok: "addr_ok a" "nodes m a = None" using a by (simp_all add: fresh_addr_def)
  have len: "len_add (Suc (length xs + length ys)) 1 = Suc (Suc (length xs + length ys))"
    using d ax ok len_incr [of "a # map fst (xs @ (b, w) # ys)" "Suc (length xs + length ys)" 1] by (simp add: dlist_def image_Un)
  show ?thesis
  proof (cases xs rule: rev_cases)
    case Nil
    then show ?thesis
      using d ax ok a len by (auto simp: listInsertNode_def zmalloc_fresh dlist_def store_simps node_frame_def params_def Let_def image_Un)
  next
    case (snoc zs y)
    then have "first_of xs (Some b) \<noteq> Some b" using d first_of_in [of xs "Some b"] by (force simp: dlist_def)
    then show ?thesis
      using d ax ok a len snoc by (auto simp: listInsertNode_def zmalloc_fresh dlist_def store_simps node_frame_def params_def Let_def image_Un)
  qed
qed

subsection \<open>Emptying, rotating and joining\<close>

lemma empty_loop_spec:
  assumes "linked (nodes m) p xs None" and "distinct (map fst xs)"
  shows "\<exists>m'. empty_loop l (length xs) m (first_of xs None) = Some m' \<and>
    (\<forall>b. nodes m' b = (if b \<in> fst ` set xs then None else nodes m b)) \<and> freed m' = freed m @ freed_by l (map snd xs)"
  using assms
proof (induction xs arbitrary: m p)
  case Nil
  then show ?case by (simp add: freed_by_def)
next
  case (Cons x xs)
  let ?m = "(free_value l m (snd x))\<lparr>nodes := (nodes m)(fst x := None)\<rparr>"
  have z: "zfree (free_value l m (snd x)) (fst x) = Some ?m" using Cons.prems(1) by (auto simp: zfree_def free_value_def)
  have "linked (nodes ?m) (Some (fst x)) xs None" "distinct (map fst xs)" using Cons.prems by simp_all
  then obtain m' where "empty_loop l (length xs) ?m (first_of xs None) = Some m'"
    "\<forall>b. nodes m' b = (if b \<in> fst ` set xs then None else nodes ?m b)" "freed m' = freed ?m @ freed_by l (map snd xs)"
    using Cons.IH by blast
  then show ?case using z Cons.prems(1) by (auto simp: freed_by_def free_value_def)
qed

lemma empty_spec:
  assumes "dlist m l xs"
  shows "\<exists>m' l'. listEmpty m l = Some (m', l') \<and> dlist m' l' [] \<and> (\<forall>b. nodes m' b = (if b \<in> fst ` set xs then None else nodes m b)) \<and>
    freed m' = freed m @ freed_by l (map snd xs) \<and> params l l'"
  using empty_loop_spec [of m None xs l] assms by (auto simp: dlist_def listEmpty_def params_def)

lemma two_ends:
  assumes "2 \<le> length xs"
  obtains x ys y where "xs = x # ys @ [y]"
  using assms by (cases xs; cases "tl xs" rule: rev_cases) auto

lemma rotate_tail_spec:
  assumes d: "dlist m l xs"
  shows "\<exists>m' l'. listRotateTailToHead m l = Some (m', l') \<and> dlist m' l' (if xs = [] then [] else last xs # butlast xs) \<and>
    node_frame (fst ` set xs) m m' \<and> freed m' = freed m \<and> params l l'"
proof (cases "length xs \<le> 1")
  case True
  then have "(if xs = [] then [] else last xs # butlast xs) = xs" by (cases xs) auto
  then show ?thesis using d True by (auto simp: listRotateTailToHead_def dlist_def node_frame_def params_def)
next
  case False
  then have "2 \<le> length xs" by simp
  then obtain x ys y where xs: "xs = x # ys @ [y]" by (rule two_ends)
  then have e: "(if xs = [] then [] else last xs # butlast xs) = y # x # ys" by (simp add: butlast_append)
  show ?thesis
  proof (cases ys rule: rev_cases)
    case Nil
    then show ?thesis unfolding e using d xs by (auto simp: listRotateTailToHead_def dlist_def store_simps node_frame_def params_def Let_def)
  next
    case (snoc zs z)
    then show ?thesis unfolding e using d xs by (auto simp: listRotateTailToHead_def dlist_def store_simps node_frame_def params_def Let_def)
  qed
qed

lemma rotate_head_spec:
  assumes d: "dlist m l xs"
  shows "\<exists>m' l'. listRotateHeadToTail m l = Some (m', l') \<and> dlist m' l' (rotate1 xs) \<and>
    node_frame (fst ` set xs) m m' \<and> freed m' = freed m \<and> params l l'"
proof (cases "length xs \<le> 1")
  case True
  then have "rotate1 xs = xs" by (cases xs) auto
  then show ?thesis using d True by (auto simp: listRotateHeadToTail_def dlist_def node_frame_def params_def)
next
  case False
  then have "2 \<le> length xs" by simp
  then obtain x ys y where xs: "xs = x # ys @ [y]" by (rule two_ends)
  then have e: "rotate1 xs = ys @ [y, x]" by simp
  show ?thesis
  proof (cases ys)
    case Nil
    then show ?thesis unfolding e using d xs by (auto simp: listRotateHeadToTail_def dlist_def store_simps node_frame_def params_def Let_def)
  next
    case (Cons z zs)
    then show ?thesis unfolding e using d xs by (auto simp: listRotateHeadToTail_def dlist_def store_simps node_frame_def params_def Let_def)
  qed
qed

lemma join_spec:
  assumes d: "dlist m l xs" and e: "dlist m k ys" and dis: "fst ` set xs \<inter> fst ` set ys = {}"
  shows "\<exists>m' l' k'. listJoin m l k = Some (m', l', k') \<and> dlist m' l' (xs @ ys) \<and> dlist m' k' [] \<and>
    node_frame (fst ` set (xs @ ys)) m m' \<and> freed m' = freed m \<and> params l l' \<and> params k k'"
proof (cases ys)
  case Nil
  then show ?thesis using d e by (auto simp: listJoin_def dlist_def node_frame_def params_def)
next
  case (Cons y zs)
  have dd: "distinct (map fst (xs @ ys))" "list_all addr_ok (map fst (xs @ ys))" using d e dis by (auto simp: dlist_def)
  then have len: "len_add (length xs) (int (length ys)) = length xs + length ys" using len_incr [OF dd] by simp
  show ?thesis
  proof (cases xs rule: rev_cases)
    case Nil
    then show ?thesis using d e Cons len dd by (auto simp: listJoin_def dlist_def store_simps node_frame_def params_def Let_def)
  next
    case (snoc ws w)
    then show ?thesis using d e dis Cons len dd by (auto simp: listJoin_def dlist_def store_simps node_frame_def params_def Let_def)
  qed
qed

subsection \<open>Indexing and searching\<close>

lemma walk_next_spec: "linked (nodes m) p xs None \<Longrightarrow>
    walk_next m k (first_of xs None) = Some (if k < length xs then Some (fst (xs ! k)) else None)"
proof (induction xs arbitrary: k p)
  case Nil
  then show ?case by (cases k) simp_all
next
  case (Cons x xs)
  then show ?case using Cons.IH [of "Some (fst x)"] by (cases k) simp_all
qed

lemma walk_prev_spec: "linked (nodes m) None xs n \<Longrightarrow>
    walk_prev m k (last_of xs None) = Some (if k < length xs then Some (fst (rev xs ! k)) else None)"
proof (induction xs arbitrary: k n rule: rev_induct)
  case Nil
  then show ?case by (cases k) simp_all
next
  case (snoc x xs)
  then show ?case using snoc.IH [of "Some (fst x)"] by (cases k) simp_all
qed

text \<open>The position that an index from either end stands for.\<close>

definition alist_pos :: "nat \<Rightarrow> int \<Rightarrow> nat option" where
  "alist_pos n i =
     (if 0 \<le> i then (if nat i < n then Some (nat i) else None)
      else if nat (- i) \<le> n then Some (n - nat (- i)) else None)"

lemma alist_pos_less: "alist_pos n i = Some k \<Longrightarrow> k < n"
  by (auto simp: alist_pos_def split: if_splits)

lemma index_spec:
  assumes "dlist m l xs" and "- (2 ^ 63) < i"
  shows "listIndex m l i = Some (map_option (\<lambda>k. fst (xs ! k)) (alist_pos (length xs) i))"
proof (cases "i < 0")
  case True
  then have "nat (- i - 1) < length xs \<longleftrightarrow> nat (- i) \<le> length xs"
    "nat (- i) \<le> length xs \<Longrightarrow> rev xs ! nat (- i - 1) = xs ! (length xs - nat (- i))"
    by (auto simp: rev_nth Suc_nat_eq_nat_zadd1)
  then show ?thesis
    using assms True walk_prev_spec [of m xs None "nat (- i - 1)"] by (auto simp: listIndex_def dlist_def alist_pos_def c_assert_def)
next
  case False
  then show ?thesis using assms walk_next_spec [of m None xs "nat i"] by (auto simp: listIndex_def dlist_def alist_pos_def)
qed

definition key_match :: "('v \<Rightarrow> 'v \<Rightarrow> bool) option \<Rightarrow> 'v \<Rightarrow> 'v \<Rightarrow> bool" where
  "key_match f v key = (case f of Some match \<Rightarrow> match v key | None \<Rightarrow> key = v)"

lemma search_loop_spec: "linked (nodes m) p xs None \<Longrightarrow>
    search_loop m l key \<lparr>iter_next = first_of xs None, iter_direction = AL_START_HEAD\<rparr>
    = Some (map_option fst (find (\<lambda>x. key_match (list_match l) (snd x) key) xs))"
proof (induction xs arbitrary: p)
  case Nil
  then show ?case by (simp add: search_loop.simps listNext_def)
next
  case (Cons x xs)
  then show ?case
    using Cons.IH [of "Some (fst x)"] by (subst search_loop.simps) (simp add: listNext_def key_match_def [symmetric])
qed

lemma search_key_spec: "dlist m l xs \<Longrightarrow>
    listSearchKey m l key = Some (map_option fst (find (\<lambda>x. key_match (list_match l) (snd x) key) xs))"
  by (auto simp: listSearchKey_def listRewind_def dlist_def intro: search_loop_spec)

subsection \<open>Iterating\<close>

text \<open>The documented loop over an iterator, deleting the current node when \<open>del\<close> holds of its value; it returns the values seen.\<close>

partial_function (option) visit_loop :: "('v \<Rightarrow> bool) \<Rightarrow> 'v store \<Rightarrow> 'v alist \<Rightarrow> listIter \<Rightarrow> ('v store \<times> 'v alist \<times> 'v list) option" where
  "visit_loop del m l iter = do {
     (iter, node) \<leftarrow> listNext m iter;
     case node of
       None \<Rightarrow> Some (m, l, [])
     | Some a \<Rightarrow> do {
         n \<leftarrow> nodes m a;
         (m, l) \<leftarrow> (if del (node_value n) then listDelNode m l a else Some (m, l));
         (m, l, vs) \<leftarrow> visit_loop del m l iter;
         Some (m, l, node_value n # vs)
       }
   }"

lemma params_trans: "params l k \<Longrightarrow> params k j \<Longrightarrow> params l j"
  by (simp add: params_def)

lemma freed_by_params: "params l k \<Longrightarrow> freed_by k vs = freed_by l vs"
  by (simp add: params_def freed_by_def)

lemma freed_by_append: "freed_by l (us @ vs) = freed_by l us @ freed_by l vs"
  by (simp add: freed_by_def)

lemma visit_step:
  assumes d: "dlist m l (xs @ (a, v) # ys)"
  shows "\<exists>m' l'. (if del v then listDelNode m l a else Some (m, l)) = Some (m', l') \<and>
    dlist m' l' ((xs @ (if del v then [] else [(a, v)])) @ ys) \<and> freed m' = freed m @ freed_by l (filter del [v]) \<and> params l l'"
proof (cases "del v")
  case True
  then show ?thesis using del_spec [OF d] by auto
next
  case False
  then show ?thesis using d by (simp add: freed_by_def params_def)
qed

lemma visit_forward: "dlist m l (xs @ ys) \<Longrightarrow>
    \<exists>m' l'. visit_loop del m l \<lparr>iter_next = first_of ys None, iter_direction = AL_START_HEAD\<rparr> = Some (m', l', map snd ys) \<and>
      dlist m' l' (xs @ filter (\<lambda>x. \<not> del (snd x)) ys) \<and> freed m' = freed m @ freed_by l (filter del (map snd ys)) \<and> params l l'"
proof (induction ys arbitrary: m l xs)
  case Nil
  then show ?case by (subst visit_loop.simps) (simp add: listNext_def freed_by_def params_def)
next
  case (Cons y ys)
  obtain a v where y: "y = (a, v)" by (cases y)
  have n: "nodes m a = Some \<lparr>node_prev = last_of xs None, node_next = first_of ys None, node_value = v\<rparr>"
    using Cons.prems y by (simp add: dlist_def)
  obtain m1 l1 where s: "(if del v then listDelNode m l a else Some (m, l)) = Some (m1, l1)"
    "dlist m1 l1 ((xs @ (if del v then [] else [(a, v)])) @ ys)" "freed m1 = freed m @ freed_by l (filter del [v])" "params l l1"
    using visit_step [of m l xs a v ys del] Cons.prems y by blast
  obtain m2 l2 where t: "visit_loop del m1 l1 \<lparr>iter_next = first_of ys None, iter_direction = AL_START_HEAD\<rparr> = Some (m2, l2, map snd ys)"
    "dlist m2 l2 ((xs @ (if del v then [] else [(a, v)])) @ filter (\<lambda>x. \<not> del (snd x)) ys)"
    "freed m2 = freed m1 @ freed_by l1 (filter del (map snd ys))" "params l1 l2"
    using Cons.IH [OF s(2)] by blast
  have "visit_loop del m l \<lparr>iter_next = Some a, iter_direction = AL_START_HEAD\<rparr> = Some (m2, l2, map snd (y # ys))"
    by (subst visit_loop.simps) (simp add: listNext_def n s(1) t(1) y)
  moreover have "freed m2 = freed m @ freed_by l (filter del (map snd (y # ys)))"
    using s(3,4) t(3) y by (simp add: freed_by_params) (simp add: freed_by_def)
  moreover have "dlist m2 l2 (xs @ filter (\<lambda>x. \<not> del (snd x)) (y # ys))" using t(2) y by (simp split: if_splits)
  ultimately show ?case using params_trans [OF s(4) t(4)] y by simp
qed

lemma visit_backward: "dlist m l (ys @ xs) \<Longrightarrow>
    \<exists>m' l'. visit_loop del m l \<lparr>iter_next = last_of ys None, iter_direction = AL_START_TAIL\<rparr> = Some (m', l', rev (map snd ys)) \<and>
      dlist m' l' (filter (\<lambda>x. \<not> del (snd x)) ys @ xs) \<and> freed m' = freed m @ freed_by l (filter del (rev (map snd ys))) \<and> params l l'"
proof (induction ys arbitrary: m l xs rule: rev_induct)
  case Nil
  then show ?case by (subst visit_loop.simps) (simp add: listNext_def freed_by_def params_def)
next
  case (snoc y ys)
  obtain a v where y: "y = (a, v)" by (cases y)
  have n: "nodes m a = Some \<lparr>node_prev = last_of ys None, node_next = first_of xs None, node_value = v\<rparr>"
    using snoc.prems y by (simp add: dlist_def)
  obtain m1 l1 where s: "(if del v then listDelNode m l a else Some (m, l)) = Some (m1, l1)"
    "dlist m1 l1 (ys @ (if del v then [] else [(a, v)]) @ xs)" "freed m1 = freed m @ freed_by l (filter del [v])" "params l l1"
    using visit_step [of m l ys a v xs del] snoc.prems y by auto
  obtain m2 l2 where t: "visit_loop del m1 l1 \<lparr>iter_next = last_of ys None, iter_direction = AL_START_TAIL\<rparr> = Some (m2, l2, rev (map snd ys))"
    "dlist m2 l2 (filter (\<lambda>x. \<not> del (snd x)) ys @ (if del v then [] else [(a, v)]) @ xs)"
    "freed m2 = freed m1 @ freed_by l1 (filter del (rev (map snd ys)))" "params l1 l2"
    using snoc.IH [OF s(2)] by blast
  have "visit_loop del m l \<lparr>iter_next = Some a, iter_direction = AL_START_TAIL\<rparr> = Some (m2, l2, rev (map snd (ys @ [y])))"
    by (subst visit_loop.simps) (simp add: listNext_def n s(1) t(1) y)
  moreover have "freed m2 = freed m @ freed_by l (filter del (rev (map snd (ys @ [y]))))"
    using s(3,4) t(3) y by (simp add: freed_by_params) (simp add: freed_by_def)
  moreover have "dlist m2 l2 (filter (\<lambda>x. \<not> del (snd x)) (ys @ [y]) @ xs)" using t(2) y by (simp split: if_splits)
  ultimately show ?case using params_trans [OF s(4) t(4)] y by simp
qed

subsection \<open>Copying\<close>

definition dup_value :: "'v alist \<Rightarrow> 'v \<Rightarrow> 'v option" where
  "dup_value l v = (case list_dup l of None \<Rightarrow> Some v | Some dup \<Rightarrow> dup v)"

text \<open>The copy is made when every value can be copied and the allocator has an address for every node.\<close>

definition dup_ok :: "'v store \<Rightarrow> 'v alist \<Rightarrow> nat list \<Rightarrow> (nat \<times> 'v) list \<Rightarrow> bool" where
  "dup_ok m l addrs xs \<longleftrightarrow> length xs \<le> length addrs \<and> distinct (take (length xs) addrs) \<and>
     list_all (fresh_addr m) (take (length xs) addrs) \<and> list_all (\<lambda>x. dup_value l (snd x) \<noteq> None) xs"

definition copied :: "'v alist \<Rightarrow> nat list \<Rightarrow> (nat \<times> 'v) list \<Rightarrow> (nat \<times> 'v) list" where
  "copied l addrs xs = zip addrs (map (\<lambda>x. the (dup_value l (snd x))) xs)"

definition dup_done :: "'v store \<Rightarrow> 'v alist \<Rightarrow> (nat \<times> 'v) list \<Rightarrow> nat list \<Rightarrow> (nat \<times> 'v) list \<Rightarrow> 'v store \<Rightarrow> 'v alist option \<Rightarrow> bool" where
  "dup_done m copy cs addrs xs m' r =
     (case r of
        Some c \<Rightarrow> dup_ok m copy addrs xs \<and> dlist m' c (cs @ copied copy addrs xs) \<and>
          node_frame (fst ` set (cs @ copied copy addrs xs)) m m' \<and> freed m' = freed m \<and> params copy c
      | None \<Rightarrow> \<not> dup_ok m copy addrs xs \<and> (\<forall>b. nodes m' b = (if b \<in> fst ` set cs then None else nodes m b)) \<and>
          (\<exists>vs. freed m' = freed m @ vs \<and> (list_dup copy = None \<and> list_free copy \<longrightarrow> set vs \<inter> snd ` set xs \<noteq> {})))"

lemma params_dup_value: "params l k \<Longrightarrow> dup_value k = dup_value l"
  by (simp add: params_def dup_value_def fun_eq_iff)

lemma fresh_after:
  assumes "dlist m l cs" and "dlist m' l' (cs @ [(a, v)])" and "node_frame (insert a (fst ` set cs)) m m'" and "fresh_addr m a"
  shows "fresh_addr m' b \<longleftrightarrow> fresh_addr m b \<and> b \<noteq> a"
proof (cases "b \<in> insert a (fst ` set cs)")
  case True
  then show ?thesis using dlist_fresh [OF assms(2), of b] dlist_fresh [OF assms(1), of b] by auto
next
  case False
  then show ?thesis using assms(3) by (auto simp: node_frame_def fresh_addr_def)
qed

lemma dup_ok_Cons:
  assumes "dlist m copy cs" and "dlist m' copy' (cs @ [(a, v)])" and "node_frame (insert a (fst ` set cs)) m m'" and "fresh_addr m a"
    and "params copy copy'" and "dup_value copy (snd x) \<noteq> None"
  shows "dup_ok m copy (a # addrs) (x # xs) \<longleftrightarrow> dup_ok m' copy' addrs xs"
  using assms(4,6) fresh_after [OF assms(1-4)] params_dup_value [OF assms(5)] by (auto simp: dup_ok_def list_all_iff)

lemma dup_no_addr: "\<not> fresh_addr m (case addrs of [] \<Rightarrow> 0 | a # _ \<Rightarrow> a) \<Longrightarrow> \<not> dup_ok m l addrs (x # xs)"
  by (cases addrs) (auto simp: dup_ok_def)

lemma dup_done_Cons:
  assumes "dlist m copy cs" and "dlist m1 copy1 (cs @ [(a, v)])" and "node_frame (insert a (fst ` set cs)) m m1" and "fresh_addr m a"
    and "params copy copy1" and "freed m1 = freed m" and "dup_value copy (snd x) = Some v"
    and "dup_done m1 copy1 (cs @ [(a, v)]) addrs xs m' r"
  shows "dup_done m copy cs (a # addrs) (x # xs) m' r"
proof -
  have ok: "dup_ok m copy (a # addrs) (x # xs) \<longleftrightarrow> dup_ok m1 copy1 addrs xs" using assms(1-5,7) by (intro dup_ok_Cons) auto
  have cp: "copied copy (a # addrs) (x # xs) = (a, v) # copied copy1 addrs xs"
    using assms(7) params_dup_value [OF assms(5)] by (simp add: copied_def)
  show ?thesis
  proof (cases r)
    case None
    have "nodes m a = None" using assms(4) by (simp add: fresh_addr_def)
    moreover obtain vs where "freed m' = freed m @ vs" "list_dup copy = None \<and> list_free copy \<longrightarrow> set vs \<inter> snd ` set xs \<noteq> {}"
      using None assms(5,6,8) by (auto simp: dup_done_def params_def)
    ultimately show ?thesis using None assms(3,8) ok by (auto simp: dup_done_def node_frame_def)
  next
    case (Some c)
    then show ?thesis
      using assms(3,5,6,8) ok cp params_trans [OF assms(5)] by (auto simp: dup_done_def node_frame_def)
  qed
qed

lemma dup_stops:
  assumes "dlist m copy cs" and "\<not> dup_ok m copy addrs xs" and "nodes m1 = nodes m"
    and "freed m1 = freed m @ us" and "list_dup copy = None \<and> list_free copy \<longrightarrow> set us \<inter> snd ` set xs \<noteq> {}"
  shows "\<exists>m'. listRelease m1 (Some copy) = Some m' \<and> dup_done m copy cs addrs xs m' None"
proof -
  have "dlist m1 copy cs" using assms(1,3) by (simp add: dlist_def)
  then obtain m' l' where e: "listEmpty m1 copy = Some (m', l')" "\<forall>b. nodes m' b = (if b \<in> fst ` set cs then None else nodes m1 b)"
    "freed m' = freed m1 @ freed_by copy (map snd cs)" using empty_spec by blast
  then have "dup_done m copy cs addrs xs m' None" using assms(2-5) by (auto simp: dup_done_def)
  then show ?thesis using e(1) by (simp add: listRelease_def)
qed

lemma node_frame_keep: "node_frame (insert a A) m m' \<Longrightarrow> a \<notin> B \<Longrightarrow> B \<inter> A = {} \<Longrightarrow> b \<in> B \<Longrightarrow> nodes m' b = nodes m b"
  by (auto simp: node_frame_def)

lemma dup_loop_step:
  assumes "nodes m a = Some \<lparr>node_prev = p, node_next = q, node_value = u\<rparr>"
  shows "dup_loop junk addrs m copy \<lparr>iter_next = Some a, iter_direction = AL_START_HEAD\<rparr> =
    (case dup_value copy u of
       None \<Rightarrow> do { m \<leftarrow> listRelease m (Some copy); Some (m, None) }
     | Some value \<Rightarrow> do {
         (m, copy, ok) \<leftarrow> listAddNodeTail junk (case addrs of [] \<Rightarrow> 0 | a # _ \<Rightarrow> a) m copy value;
         if \<not> ok then do { m \<leftarrow> listRelease (free_value copy m value) (Some copy); Some (m, None) }
         else dup_loop junk (tl addrs) m copy \<lparr>iter_next = q, iter_direction = AL_START_HEAD\<rparr>
       })"
  using assms by (subst dup_loop.simps) (simp add: listNext_def dup_value_def cong: option.case_cong)

lemma dup_loop_spec:
  assumes "linked (nodes m) p xs None" and "dlist m copy cs" and "fst ` set xs \<inter> fst ` set cs = {}"
  shows "\<exists>m' r. dup_loop junk addrs m copy \<lparr>iter_next = first_of xs None, iter_direction = AL_START_HEAD\<rparr> = Some (m', r) \<and>
    dup_done m copy cs addrs xs m' r"
  using assms
proof (induction xs arbitrary: m p copy cs addrs)
  case Nil
  then show ?case
    by (subst dup_loop.simps) (simp add: listNext_def dup_done_def dup_ok_def copied_def node_frame_def params_def)
next
  case (Cons x xs)
  let ?a = "case addrs of [] \<Rightarrow> 0 | a # _ \<Rightarrow> a"
  let ?it = "\<lparr>iter_next = first_of xs None, iter_direction = AL_START_HEAD\<rparr>"
  have "nodes m (fst x) = Some \<lparr>node_prev = p, node_next = first_of xs None, node_value = snd x\<rparr>" using Cons.prems(1) by simp
  note unf = dup_loop_step [OF this, of junk addrs copy]
  show ?case
  proof (cases "dup_value copy (snd x)")
    case None
    then have "\<not> dup_ok m copy addrs (x # xs)" "list_dup copy \<noteq> None" by (auto simp: dup_ok_def dup_value_def split: option.splits)
    then show ?thesis
      using dup_stops [OF Cons.prems(2), of addrs "x # xs" m] None by (auto simp: unf)
  next
    case v: (Some v)
    show ?thesis
    proof (cases "fresh_addr m ?a")
      case False
      have "list_dup copy = None \<and> list_free copy \<longrightarrow> set (freed_by copy [v]) \<inter> snd ` set (x # xs) \<noteq> {}"
        using v by (auto simp: dup_value_def freed_by_def)
      moreover have "nodes (free_value copy m v) = nodes m" "freed (free_value copy m v) = freed m @ freed_by copy [v]"
        by (simp_all add: free_value_def freed_by_def)
      ultimately obtain m' where "listRelease (free_value copy m v) (Some copy) = Some m'" "dup_done m copy cs addrs (x # xs) m' None"
        using dup_stops [OF Cons.prems(2) dup_no_addr [OF False, of copy x xs], of "free_value copy m v"] by blast
      then show ?thesis
        using v alloc_fails(2) [OF False] by (simp add: unf)
    next
      case True
      then obtain a as where as: "addrs = a # as" by (cases addrs) (auto simp: fresh_addr_def addr_ok_def)
      then have fr: "fresh_addr m a" using True by simp
      obtain m1 c1 where t: "listAddNodeTail junk a m copy v = Some (m1, c1, True)" "dlist m1 c1 (cs @ [(a, v)])"
        "node_frame (insert a (fst ` set cs)) m m1" "freed m1 = freed m" "params copy c1"
        using add_tail_spec [OF Cons.prems(2) fr] by blast
      have an: "a \<notin> fst ` set xs"
        using fr linked_allocated [of "nodes m" "Some (fst x)" xs None a] Cons.prems(1) by (auto simp: fresh_addr_def)
      have "fst ` set xs \<inter> fst ` set cs = {}" using Cons.prems(3) by auto
      then have keep: "nodes m1 b = nodes m b" if "b \<in> fst ` set xs" for b by (rule node_frame_keep [OF t(3) an _ that])
      have "linked (nodes m1) (Some (fst x)) xs None = linked (nodes m) (Some (fst x)) xs None"
        using keep by (rule linked_cong)
      then obtain m' r where l: "dup_loop junk as m1 c1 ?it = Some (m', r)" "dup_done m1 c1 (cs @ [(a, v)]) as xs m' r"
        using Cons.IH [OF _ t(2), of "Some (fst x)" as] Cons.prems(1,3) an by auto
      have "dup_done m copy cs (a # as) (x # xs) m' r"
        by (rule dup_done_Cons [OF Cons.prems(2) t(2,3) fr t(5,4) v l(2)])
      then show ?thesis using t(1) v l(1) unfolding as by (simp add: unf [unfolded as])
    qed
  qed
qed

lemma dup_spec:
  assumes d: "dlist m l xs"
  shows "\<exists>m' r. listDup mem junk addrs m l = Some (m', r) \<and> dlist m' l xs \<and>
    (case r of
       Some c \<Rightarrow> mem \<and> dup_ok m l addrs xs \<and> dlist m' c (copied l addrs xs) \<and> node_frame (set (take (length xs) addrs)) m m' \<and>
         freed m' = freed m \<and> params l c
     | None \<Rightarrow> \<not> (mem \<and> dup_ok m l addrs xs) \<and> nodes m' = nodes m \<and>
         (\<exists>vs. freed m' = freed m @ vs \<and> (mem \<and> list_dup l = None \<and> list_free l \<longrightarrow> set vs \<inter> snd ` set xs \<noteq> {})))"
proof (cases mem)
  case False
  then show ?thesis using d by (simp add: listDup_def listCreate_def)
next
  case True
  let ?c = "\<lparr>list_head = None, list_tail = None, list_dup = list_dup l, list_free = list_free l, list_match = list_match l, list_len = 0\<rparr>"
  have "dlist m ?c []" "linked (nodes m) None xs None" using d by (simp_all add: dlist_def)
  then obtain m' r where r: "dup_loop junk addrs m ?c \<lparr>iter_next = first_of xs None, iter_direction = AL_START_HEAD\<rparr> = Some (m', r)"
    "dup_done m ?c [] addrs xs m' r" using dup_loop_spec [of m None xs ?c "[]" junk addrs] by auto
  have p: "params l ?c" by (simp add: params_def)
  have s: "dup_ok m ?c = dup_ok m l" "copied ?c = copied l"
    using params_dup_value [OF p] by (simp_all add: dup_ok_def copied_def fun_eq_iff)
  have run: "listDup mem junk addrs m l = Some (m', r)"
    using True r(1) d by (simp add: listDup_def listCreate_def listRewind_def dlist_def)
  show ?thesis
  proof (cases r)
    case None
    then have "nodes m' = nodes m" using r(2) by (auto simp: dup_done_def)
    then show ?thesis using d None run True r(2) s by (auto simp: dup_done_def dlist_def)
  next
    case (Some c)
    then have *: "dup_ok m l addrs xs" "node_frame (fst ` set (copied l addrs xs)) m m'" "dlist m' c (copied l addrs xs)" "freed m' = freed m" "params l c"
      using r(2) s params_trans [OF p] by (simp_all add: dup_done_def)
    have "map fst (copied l addrs xs) = take (length xs) addrs" using *(1) by (simp add: copied_def map_fst_zip_take dup_ok_def min_def)
    then have A: "fst ` set (copied l addrs xs) = set (take (length xs) addrs)" by (metis set_map)
    have "fst ` set xs \<inter> set (take (length xs) addrs) = {}" using *(1) dlist_fresh [OF d] by (auto simp: dup_ok_def list_all_iff)
    then have "linked (nodes m') None xs None = linked (nodes m) None xs None"
      using *(2) A by (intro linked_cong) (auto simp: node_frame_def)
    then show ?thesis using d Some run True * A by (simp add: dlist_def)
  qed
qed

end
