(* ===== verification/Adlist_Spec.thy ===== *)
theory Adlist_Spec
  imports Adlist_Inv
begin

text \<open>
  The linked list as an abstract data type: the list of its nodes, each with its address and its value, and the values that were
  given to the free method. Clients reach a node by its index or by searching its value, and allocation fails exactly when the
  address that the allocator would return is taken.
\<close>

subsection \<open>Operations and their specification\<close>

datatype 'v alist_op =
    AddHead nat 'v
  | AddTail nat 'v
  | InsertAt int nat 'v bool
  | DelAt int
  | DelKey 'v
  | RotateTailToHead
  | RotateHeadToTail
  | Index int
  | Search 'v
  | Len
  | Empty

datatype alist_reply = Done bool | Node "nat option" | Count nat

definition alist_adm :: "'v alist_op \<Rightarrow> bool" where
  "alist_adm oper =
     (case oper of
        InsertAt i _ _ _ \<Rightarrow> - (2 ^ 63) < i
      | DelAt i \<Rightarrow> - (2 ^ 63) < i
      | Index i \<Rightarrow> - (2 ^ 63) < i
      | _ \<Rightarrow> True)"

fun alist_step :: "'v listNode \<Rightarrow> 'v alist_op \<Rightarrow> 'v store \<times> 'v alist \<Rightarrow> (('v store \<times> 'v alist) \<times> alist_reply) option" where
  "alist_step junk (AddHead a v) (m, l) = do { (m, l, ok) \<leftarrow> listAddNodeHead junk a m l v; Some ((m, l), Done ok) }"
| "alist_step junk (AddTail a v) (m, l) = do { (m, l, ok) \<leftarrow> listAddNodeTail junk a m l v; Some ((m, l), Done ok) }"
| "alist_step junk (InsertAt i a v after) (m, l) = do {
     node \<leftarrow> listIndex m l i;
     case node of
       None \<Rightarrow> Some ((m, l), Done False)
     | Some old \<Rightarrow> do { (m, l, ok) \<leftarrow> listInsertNode junk a m l old v after; Some ((m, l), Done ok) }
   }"
| "alist_step junk (DelAt i) (m, l) = do {
     node \<leftarrow> listIndex m l i;
     case node of
       None \<Rightarrow> Some ((m, l), Done False)
     | Some node \<Rightarrow> do { s \<leftarrow> listDelNode m l node; Some (s, Done True) }
   }"
| "alist_step junk (DelKey key) (m, l) = do {
     node \<leftarrow> listSearchKey m l key;
     case node of
       None \<Rightarrow> Some ((m, l), Done False)
     | Some node \<Rightarrow> do { s \<leftarrow> listDelNode m l node; Some (s, Done True) }
   }"
| "alist_step junk RotateTailToHead (m, l) = do { s \<leftarrow> listRotateTailToHead m l; Some (s, Done True) }"
| "alist_step junk RotateHeadToTail (m, l) = do { s \<leftarrow> listRotateHeadToTail m l; Some (s, Done True) }"
| "alist_step junk (Index i) (m, l) = do { node \<leftarrow> listIndex m l i; Some ((m, l), Node node) }"
| "alist_step junk (Search key) (m, l) = do { node \<leftarrow> listSearchKey m l key; Some ((m, l), Node node) }"
| "alist_step junk Len (m, l) = Some ((m, l), Count (list_len l))"
| "alist_step junk Empty (m, l) = do { s \<leftarrow> listEmpty m l; Some (s, Done True) }"

text \<open>The specification: \<open>fr\<close> says whether the list has a free method, \<open>mt\<close> is its match method.\<close>

type_synonym 'v alist_view = "(nat \<times> 'v) list \<times> 'v list"

definition spec_add :: "nat \<Rightarrow> nat \<Rightarrow> 'v \<Rightarrow> 'v alist_view \<Rightarrow> 'v alist_view \<times> alist_reply" where
  "spec_add j a v = (\<lambda>(xs, out).
     if addr_ok a \<and> a \<notin> set (map fst xs) then ((take j xs @ (a, v) # drop j xs, out), Done True) else ((xs, out), Done False))"

definition spec_del :: "bool \<Rightarrow> nat \<Rightarrow> 'v alist_view \<Rightarrow> 'v alist_view \<times> alist_reply" where
  "spec_del fr k = (\<lambda>(xs, out). ((take k xs @ drop (Suc k) xs, out @ (if fr then [snd (xs ! k)] else [])), Done True))"

fun alist_spec :: "bool \<Rightarrow> ('v \<Rightarrow> 'v \<Rightarrow> bool) option \<Rightarrow> 'v alist_op \<Rightarrow> 'v alist_view \<Rightarrow> 'v alist_view \<times> alist_reply" where
  "alist_spec fr mt (AddHead a v) s = spec_add 0 a v s"
| "alist_spec fr mt (AddTail a v) s = spec_add (length (fst s)) a v s"
| "alist_spec fr mt (InsertAt i a v after) s =
     (case alist_pos (length (fst s)) i of
        None \<Rightarrow> (s, Done False)
      | Some k \<Rightarrow> spec_add (if after then Suc k else k) a v s)"
| "alist_spec fr mt (DelAt i) s =
     (case alist_pos (length (fst s)) i of None \<Rightarrow> (s, Done False) | Some k \<Rightarrow> spec_del fr k s)"
| "alist_spec fr mt (DelKey key) s =
     (let k = length (takeWhile (\<lambda>x. \<not> key_match mt (snd x) key) (fst s))
      in if k = length (fst s) then (s, Done False) else spec_del fr k s)"
| "alist_spec fr mt RotateTailToHead (xs, out) = ((if xs = [] then [] else last xs # butlast xs, out), Done True)"
| "alist_spec fr mt RotateHeadToTail (xs, out) = ((rotate1 xs, out), Done True)"
| "alist_spec fr mt (Index i) s = (s, Node (map_option (\<lambda>k. fst (fst s ! k)) (alist_pos (length (fst s)) i)))"
| "alist_spec fr mt (Search key) s = (s, Node (map_option fst (find (\<lambda>x. key_match mt (snd x) key) (fst s))))"
| "alist_spec fr mt Len s = (s, Count (length (fst s)))"
| "alist_spec fr mt Empty (xs, out) = (([], out @ (if fr then map snd xs else [])), Done True)"

subsection \<open>The abstraction and its invariant\<close>

fun node_chain :: "'v store \<Rightarrow> nat \<Rightarrow> ptr \<Rightarrow> (nat \<times> 'v) list" where
  "node_chain m (Suc k) (Some a) = (case nodes m a of None \<Rightarrow> [] | Some n \<Rightarrow> (a, node_value n) # node_chain m k (node_next n))"
| "node_chain m _ _ = []"

definition alist_abs :: "'v store \<times> 'v alist \<Rightarrow> 'v alist_view" where
  "alist_abs = (\<lambda>(m, l). (node_chain m (list_len l) (list_head l), freed m))"

text \<open>The store holds exactly the nodes of the list, each once.\<close>

definition alist_rep :: "bool \<Rightarrow> ('v \<Rightarrow> 'v \<Rightarrow> bool) option \<Rightarrow> 'v store \<times> 'v alist \<Rightarrow> 'v alist_view \<Rightarrow> bool" where
  "alist_rep fr mt = (\<lambda>(m, l) (xs, out).
     dlist m l xs \<and> dom (nodes m) = fst ` set xs \<and> list_free l = fr \<and> list_match l = mt \<and> freed m = out)"

definition alist_wf :: "bool \<Rightarrow> ('v \<Rightarrow> 'v \<Rightarrow> bool) option \<Rightarrow> 'v store \<times> 'v alist \<Rightarrow> bool" where
  "alist_wf fr mt s \<longleftrightarrow> alist_rep fr mt s (alist_abs s)"

lemma node_chain_linked: "linked (nodes m) p xs None \<Longrightarrow> node_chain m (length xs) (first_of xs None) = xs"
  by (induction xs arbitrary: p) auto

lemma alist_rep_abs: "alist_rep fr mt s v \<Longrightarrow> alist_abs s = v"
  using node_chain_linked [of "fst s" None "fst v"] by (auto simp: alist_rep_def alist_abs_def dlist_def)

lemma alist_rep_wf: "alist_rep fr mt s v \<Longrightarrow> alist_wf fr mt s"
  using alist_rep_abs [of fr mt s v] by (simp add: alist_wf_def)

lemma fresh_dom: "alist_rep fr mt (m, l) (xs, out) \<Longrightarrow> fresh_addr m a \<longleftrightarrow> addr_ok a \<and> a \<notin> set (map fst xs)"
  by (auto simp: fresh_addr_def alist_rep_def)

lemma alist_repI:
  assumes "alist_rep fr mt (m, l) (xs, out)" and "dlist m' l' ys" and "node_frame A m m'" and "fst ` set xs \<subseteq> A"
    and "\<And>b. b \<in> A \<Longrightarrow> b \<notin> fst ` set ys \<Longrightarrow> nodes m' b = None" and "params l l'" and "freed m' = out'"
  shows "alist_rep fr mt (m', l') (ys, out')"
proof -
  have "dom (nodes m') \<subseteq> fst ` set ys"
  proof
    fix b
    assume b: "b \<in> dom (nodes m')"
    show "b \<in> fst ` set ys"
    proof (cases "b \<in> A")
      case True
      then show ?thesis using assms(5) b by (meson domIff)
    next
      case False
      then have "b \<in> dom (nodes m)" using assms(3) b by (auto simp: node_frame_def)
      then show ?thesis using assms(1,4) False by (auto simp: alist_rep_def)
    qed
  qed
  moreover have "fst ` set ys \<subseteq> dom (nodes m')" using assms(2) linked_allocated [of "nodes m'" None ys None] by (auto simp: dlist_def)
  ultimately show ?thesis using assms(1,2,6,7) by (auto simp: alist_rep_def params_def)
qed

subsection \<open>Every operation implements its specification\<close>

lemma add_refines:
  assumes rep: "alist_rep fr mt (m, l) (xs, out)"
    and ok: "fresh_addr m a \<Longrightarrow> \<exists>m' l'. oper = Some (m', l', True) \<and> dlist m' l' (take j xs @ (a, v) # drop j xs) \<and>
      node_frame (insert a (fst ` set xs)) m m' \<and> freed m' = freed m \<and> params l l'"
    and fails: "\<not> fresh_addr m a \<Longrightarrow> oper = Some (m, l, False)"
  shows "\<exists>s' r. do { (m, l, ok) \<leftarrow> oper; Some ((m, l), Done ok) } = Some (s', r) \<and>
    alist_rep fr mt s' (fst (spec_add j a v (xs, out))) \<and> r = snd (spec_add j a v (xs, out))"
proof (cases "fresh_addr m a")
  case True
  obtain m' l' where t: "oper = Some (m', l', True)" "dlist m' l' (take j xs @ (a, v) # drop j xs)"
      "node_frame (insert a (fst ` set xs)) m m'" "freed m' = freed m" "params l l'" using ok [OF True] by blast
  have "set (take j xs) \<union> set (drop j xs) = set xs" by (metis append_take_drop_id set_append)
  then have all: "fst ` set (take j xs @ (a, v) # drop j xs) = insert a (fst ` set xs)" by auto
  have "alist_rep fr mt (m', l') (take j xs @ (a, v) # drop j xs, out)"
    using rep t(4) by (intro alist_repI [OF rep t(2,3) _ _ t(5)]) (simp_all only: all, auto simp: alist_rep_def)
  then show ?thesis using t(1) True fresh_dom [OF rep] by (simp add: spec_add_def)
next
  case False
  then show ?thesis using rep fails fresh_dom [OF rep] by (auto simp: spec_add_def)
qed

lemma del_refines:
  assumes rep: "alist_rep fr mt (m, l) (xs, out)" and k: "k < length xs"
  shows "\<exists>s' r. do { s \<leftarrow> listDelNode m l (fst (xs ! k)); Some (s, Done True) } = Some (s', r) \<and>
    alist_rep fr mt s' (fst (spec_del fr k (xs, out))) \<and> r = snd (spec_del fr k (xs, out))"
proof -
  let ?a = "fst (xs ! k)"
  have xs: "xs = take k xs @ (?a, snd (xs ! k)) # drop (Suc k) xs" using id_take_nth_drop [OF k] by simp
  then have "dlist m l (take k xs @ (?a, snd (xs ! k)) # drop (Suc k) xs)" using rep by (simp add: alist_rep_def)
  from del_spec [OF this] obtain m' l' where t: "listDelNode m l ?a = Some (m', l')" "dlist m' l' (take k xs @ drop (Suc k) xs)"
    "nodes m' ?a = None" "node_frame (insert ?a (fst ` set (take k xs @ drop (Suc k) xs))) m m'"
    "freed m' = freed m @ freed_by l [snd (xs ! k)]" "params l l'" by blast
  have sub: "fst ` set xs \<subseteq> insert ?a (fst ` set (take k xs @ drop (Suc k) xs))" by (subst (1) xs) auto
  have "alist_rep fr mt (m', l') (take k xs @ drop (Suc k) xs, out @ (if fr then [snd (xs ! k)] else []))"
    using rep t(3,5) by (intro alist_repI [OF rep t(2,4) sub _ t(6)]) (auto simp: alist_rep_def freed_by_def)
  then show ?thesis using t(1) by (simp add: spec_del_def)
qed

lemma find_takeWhile:
  "find P xs = (let k = length (takeWhile (\<lambda>x. \<not> P x) xs) in if k = length xs then None else Some (xs ! k))"
  by (induction xs) (auto simp: Let_def)

lemma pos_split: "k < length xs \<Longrightarrow> xs = take k xs @ (fst (xs ! k), snd (xs ! k)) # drop (Suc k) xs"
  using id_take_nth_drop [of k xs] by simp

lemma insert_refines:
  assumes rep: "alist_rep fr mt (m, l) (xs, out)" and k: "k < length xs"
  shows "\<exists>s' r. do { (m, l, ok) \<leftarrow> listInsertNode junk a m l (fst (xs ! k)) v after; Some ((m, l), Done ok) } = Some (s', r) \<and>
    alist_rep fr mt s' (fst (spec_add (if after then Suc k else k) a v (xs, out))) \<and>
    r = snd (spec_add (if after then Suc k else k) a v (xs, out))"
proof (rule add_refines [OF rep])
  assume a: "fresh_addr m a"
  note xs = pos_split [OF k]
  have d: "dlist m l (take k xs @ (fst (xs ! k), snd (xs ! k)) # drop (Suc k) xs)" using rep xs by (simp add: alist_rep_def)
  have e: "take (Suc k) xs @ (a, v) # drop (Suc k) xs = take k xs @ (fst (xs ! k), snd (xs ! k)) # (a, v) # drop (Suc k) xs"
    "take k xs @ (a, v) # drop k xs = take k xs @ (a, v) # (fst (xs ! k), snd (xs ! k)) # drop (Suc k) xs"
    using k by (simp_all add: take_Suc_conv_app_nth Cons_nth_drop_Suc)
  show "\<exists>m' l'. listInsertNode junk a m l (fst (xs ! k)) v after = Some (m', l', True) \<and>
      dlist m' l' (take (if after then Suc k else k) xs @ (a, v) # drop (if after then Suc k else k) xs) \<and>
      node_frame (insert a (fst ` set xs)) m m' \<and> freed m' = freed m \<and> params l l'"
    using node_after_spec [OF d a, of junk v, unfolded xs [symmetric]] node_before_spec [OF d a, of junk v, unfolded xs [symmetric]]
    by (cases after) (simp_all add: e [simplified])
next
  assume "\<not> fresh_addr m a"
  then show "listInsertNode junk a m l (fst (xs ! k)) v after = Some (m, l, False)" by (rule alloc_fails(3))
qed

lemma keep_refines:
  assumes rep: "alist_rep fr mt (m, l) (xs, out)" and "set ys = set xs"
    and "\<exists>m' l'. oper = Some (m', l') \<and> dlist m' l' ys \<and> node_frame (fst ` set xs) m m' \<and> freed m' = freed m \<and> params l l'"
  shows "\<exists>s' r. do { s \<leftarrow> oper; Some (s, Done True) } = Some (s', r) \<and> alist_rep fr mt s' (ys, out) \<and> r = Done True"
proof -
  obtain m' l' where t: "oper = Some (m', l')" "dlist m' l' ys" "node_frame (fst ` set xs) m m'" "freed m' = freed m" "params l l'"
    using assms(3) by blast
  have "alist_rep fr mt (m', l') (ys, out)"
    using rep t(4) assms(2) by (intro alist_repI [OF rep t(2,3) _ _ t(5)]) (auto simp: alist_rep_def)
  then show ?thesis using t(1) by simp
qed

lemma empty_refines:
  assumes rep: "alist_rep fr mt (m, l) (xs, out)"
  shows "\<exists>s' r. do { s \<leftarrow> listEmpty m l; Some (s, Done True) } = Some (s', r) \<and>
    alist_rep fr mt s' ([], out @ (if fr then map snd xs else [])) \<and> r = Done True"
proof -
  have d: "dlist m l xs" using rep by (simp add: alist_rep_def)
  obtain m' l' where t: "listEmpty m l = Some (m', l')" "dlist m' l' []"
    "\<forall>b. nodes m' b = (if b \<in> fst ` set xs then None else nodes m b)" "freed m' = freed m @ freed_by l (map snd xs)" "params l l'"
    using empty_spec [OF d] by blast
  have fr: "node_frame (fst ` set xs) m m'" using t(3) by (simp add: node_frame_def)
  have "alist_rep fr mt (m', l') ([], out @ (if fr then map snd xs else []))"
    using rep t(3,4) by (intro alist_repI [OF rep t(2) fr _ _ t(5)]) (auto simp: alist_rep_def freed_by_def)
  then show ?thesis using t(1) by simp
qed

lemma alist_step_refines:
  assumes adm: "alist_adm oper" and rep: "alist_rep fr mt (m, l) (xs, out)"
  shows "\<exists>s' r. alist_step junk oper (m, l) = Some (s', r) \<and>
    alist_rep fr mt s' (fst (alist_spec fr mt oper (xs, out))) \<and> r = snd (alist_spec fr mt oper (xs, out))"
proof -
  have d: "dlist m l xs" "list_match l = mt" "list_len l = length xs" using rep by (simp_all add: alist_rep_def dlist_def)
  show ?thesis
  proof (cases oper)
    case (AddHead a v)
    then show ?thesis using add_refines [OF rep, of a "listAddNodeHead junk a m l v" 0 v] add_head_spec [OF d(1), of a junk v]
        alloc_fails(1) [of m a junk l v] by simp
  next
    case (AddTail a v)
    then show ?thesis
      using add_refines [OF rep, of a "listAddNodeTail junk a m l v" "length xs" v] add_tail_spec [OF d(1), of a junk v]
        alloc_fails(2) [of m a junk l v] by simp
  next
    case (InsertAt i a v after)
    then show ?thesis
      using index_spec [OF d(1), of i] adm rep insert_refines [OF rep alist_pos_less]
      by (cases "alist_pos (length xs) i") (auto simp: alist_adm_def)
  next
    case (DelAt i)
    then show ?thesis
      using index_spec [OF d(1), of i] adm rep del_refines [OF rep alist_pos_less]
      by (cases "alist_pos (length xs) i") (auto simp: alist_adm_def)
  next
    case (DelKey key)
    let ?k = "length (takeWhile (\<lambda>x. \<not> key_match mt (snd x) key) xs)"
    have "?k \<le> length xs" by (rule length_takeWhile_le)
    then show ?thesis
      using DelKey search_key_spec [OF d(1), of key] d(2) rep del_refines [OF rep, of ?k] find_takeWhile [of "\<lambda>x. key_match mt (snd x) key" xs]
      by (cases "?k = length xs") (simp_all add: Let_def)
  next
    case RotateTailToHead
    have "set (if xs = [] then [] else last xs # butlast xs) = set xs" by (cases xs rule: rev_cases) auto
    from keep_refines [OF rep this rotate_tail_spec [OF d(1)]] show ?thesis using RotateTailToHead by simp
  next
    case RotateHeadToTail
    from keep_refines [OF rep set_rotate1 rotate_head_spec [OF d(1)]] show ?thesis using RotateHeadToTail by simp
  next
    case Empty
    then show ?thesis using empty_refines [OF rep] by simp
  qed (use rep d index_spec [OF d(1)] search_key_spec [OF d(1)] adm in \<open>auto simp: alist_adm_def\<close>)
qed

interpretation node_list: guarded_refinement alist_adm "alist_wf fr mt" alist_abs "alist_step junk" "alist_spec fr mt" for fr mt junk
proof
  fix oper :: "'a alist_op" and s
  assume adm: "alist_adm oper" and "alist_wf fr mt s"
  then have "alist_rep fr mt (fst s, snd s) (fst (alist_abs s), snd (alist_abs s))" by (simp add: alist_wf_def)
  from alist_step_refines [OF adm this, of junk] obtain s' where s': "alist_step junk oper s = Some (s', snd (alist_spec fr mt oper (alist_abs s)))"
    "alist_rep fr mt s' (fst (alist_spec fr mt oper (alist_abs s)))" by auto
  show "\<exists>s' r. alist_step junk oper s = Some (s', r) \<and> alist_wf fr mt s' \<and> alist_spec fr mt oper (alist_abs s) = (alist_abs s', r)"
    using s'(1) alist_rep_wf [OF s'(2)] alist_rep_abs [OF s'(2)] by (auto simp: prod_eq_iff)
qed

subsection \<open>Properties\<close>

definition alist_new :: "bool \<Rightarrow> ('v \<Rightarrow> 'v \<Rightarrow> bool) option \<Rightarrow> ('v store \<times> 'v alist) option" where
  "alist_new fr mt = do {
     l \<leftarrow> listCreate True;
     Some (\<lparr>nodes = Map.empty, freed = []\<rparr>, l\<lparr>list_free := fr, list_match := mt\<rparr>)
   }"

lemma alist_new_rep: "\<exists>s. alist_new fr mt = Some s \<and> alist_rep fr mt s ([], [])"
  by (simp add: alist_new_def listCreate_def alist_rep_def dlist_def)

text \<open>C9: The linked list behaves as a list. Whatever sequence of additions at either end, insertions before or after a node,
  deletions by index or by key, rotations, index and key lookups and emptyings is run on a new list, no pointer that is NULL or
  freed is followed, every reply is that of the list of nodes, allocation failures included, every value that leaves the list is
  given to the free method once, and at the end the store holds the nodes of the list and no others.\<close>

theorem adlist_refines_list:
  assumes "list_all alist_adm opers"
  shows "\<exists>s s' rs. alist_new fr mt = Some s \<and> run_ops (alist_step junk) opers s = Some (s', rs) \<and> alist_wf fr mt s' \<and>
    run_spec (alist_spec fr mt) opers ([], []) = (alist_abs s', rs)"
proof -
  obtain s where s: "alist_new fr mt = Some s" "alist_rep fr mt s ([], [])" using alist_new_rep by blast
  then show ?thesis using node_list.guarded_run [OF assms alist_rep_wf [OF s(2)]] alist_rep_abs [OF s(2)] by auto
qed

theorem adlist_refines_list_witness:
  "\<exists>s s'. alist_new True None = Some s \<and>
     run_ops (alist_step \<lparr>node_prev = None, node_next = None, node_value = 0\<rparr>)
       [AddTail 8 (1 :: nat), AddHead 16 2, AddTail 8 3, InsertAt (- 1) 24 4 True, DelKey 1, RotateHeadToTail, Search 4, Index (- 1), Len]
       s = Some (s', [Done True, Done True, Done False, Done True, Done True, Done True, Node (Some 24), Node (Some 16), Count 2]) \<and>
     alist_abs s' = ([(24, 4), (16, 2)], [1])"
proof -
  let ?opers = "[AddTail 8 (1 :: nat), AddHead 16 2, AddTail 8 3, InsertAt (- 1) 24 4 True, DelKey 1, RotateHeadToTail, Search 4, Index (- 1), Len]"
  have "run_spec (alist_spec True None) ?opers ([], []) =
    (([(24, 4), (16, 2)], [1]), [Done True, Done True, Done False, Done True, Done True, Done True, Node (Some 24), Node (Some 16), Count 2])"
    by (simp add: spec_add_def spec_del_def addr_ok_def alist_pos_def key_match_def)
  moreover have "list_all alist_adm ?opers" by (simp add: alist_adm_def)
  ultimately show ?thesis using adlist_refines_list [of ?opers True None] by fastforce
qed

definition sample_store :: "nat store" where
  "sample_store =
     \<lparr>nodes = [8 \<mapsto> \<lparr>node_prev = None, node_next = Some 16, node_value = 1\<rparr>, 16 \<mapsto> \<lparr>node_prev = Some 8, node_next = None, node_value = 2\<rparr>],
      freed = []\<rparr>"

definition sample_list :: "(nat \<Rightarrow> nat option) option \<Rightarrow> nat alist" where
  "sample_list f = \<lparr>list_head = Some 8, list_tail = Some 16, list_dup = f, list_free = True, list_match = None, list_len = 2\<rparr>"

lemma sample_dlist: "dlist sample_store (sample_list f) [(8, 1), (16, 2)]"
  by (simp add: dlist_def sample_store_def sample_list_def addr_ok_def)

text \<open>C26: The current node may be deleted while iterating, as the comment of listNext promises. In either direction the loop ends
  after every value was returned once and in order, whatever nodes are deleted on the way; exactly the others remain, and the
  deleted values are given to the free method in the order of the visit.\<close>

theorem iteration_may_delete_current:
  assumes "dlist m l xs"
  shows "(\<exists>m' l'. visit_loop del m l (listRewind l) = Some (m', l', map snd xs) \<and> dlist m' l' (filter (\<lambda>x. \<not> del (snd x)) xs) \<and>
      freed m' = freed m @ freed_by l (filter del (map snd xs))) \<and>
    (\<exists>m' l'. visit_loop del m l (listRewindTail l) = Some (m', l', rev (map snd xs)) \<and> dlist m' l' (filter (\<lambda>x. \<not> del (snd x)) xs) \<and>
      freed m' = freed m @ freed_by l (filter del (rev (map snd xs))))"
proof -
  have "listRewind l = \<lparr>iter_next = first_of xs None, iter_direction = AL_START_HEAD\<rparr>"
    "listRewindTail l = \<lparr>iter_next = last_of xs None, iter_direction = AL_START_TAIL\<rparr>"
    using assms by (simp_all add: listRewind_def listRewindTail_def dlist_def)
  then show ?thesis using visit_forward [of m l "[]" xs del] visit_backward [of m l xs "[]" del] assms by auto
qed

theorem iteration_may_delete_current_witness:
  "\<exists>m' l'. visit_loop (\<lambda>v. v = 2) sample_store (sample_list None) (listRewindTail (sample_list None)) = Some (m', l', [2, 1]) \<and>
     dlist m' l' [(8, 1)] \<and> freed m' = [2]"
  using iteration_may_delete_current [OF sample_dlist [of None], of "\<lambda>v. v = 2"]
  by (simp add: freed_by_def sample_list_def sample_store_def)

text \<open>C27: Copying a list always returns, and the nodes of the original stay as they are. The copy is made exactly when there is
  memory for the header and for every node and every value can be copied; it then holds the copied values in order in nodes of its
  own, and nothing was freed. Otherwise NULL is returned and no node of the unfinished copy is left in the store.\<close>

theorem listDup_copies:
  assumes "dlist m l xs"
  shows "\<exists>m' r. listDup mem junk addrs m l = Some (m', r) \<and> dlist m' l xs \<and>
    (case r of
       Some c \<Rightarrow> mem \<and> dup_ok m l addrs xs \<and> dlist m' c (copied l addrs xs) \<and> node_frame (set (take (length xs) addrs)) m m' \<and>
         freed m' = freed m \<and> params l c
     | None \<Rightarrow> \<not> (mem \<and> dup_ok m l addrs xs) \<and> nodes m' = nodes m)"
  using dup_spec [OF assms, of mem junk addrs] by (fastforce split: option.splits)

theorem listDup_copies_witness:
  "\<exists>m' c. listDup True \<lparr>node_prev = None, node_next = None, node_value = 0\<rparr> [24, 32] sample_store (sample_list (Some (\<lambda>v. Some (v + 10)))) = Some (m', Some c) \<and>
     dlist m' c [(24, 11), (32, 12)] \<and> dlist m' (sample_list (Some (\<lambda>v. Some (v + 10)))) [(8, 1), (16, 2)]"
proof -
  let ?l = "sample_list (Some (\<lambda>v. Some (v + 10)))"
  have "dup_ok sample_store ?l [24, 32] [(8, 1), (16, 2)]" "copied ?l [24, 32] [(8, 1), (16, 2)] = [(24, 11), (32, 12)]"
    by (simp_all add: dup_ok_def copied_def dup_value_def sample_list_def sample_store_def fresh_addr_def addr_ok_def)
  then show ?thesis
    using listDup_copies [OF sample_dlist [of "Some (\<lambda>v. Some (v + 10))"], of True "\<lparr>node_prev = None, node_next = None, node_value = 0\<rparr>" "[24, 32]"] by (auto split: option.splits)
qed

text \<open>C32: Joining two lists without a common node, each of which may be empty, appends the nodes of the second to the first and
  leaves the second an empty list; no node is copied or freed.\<close>

theorem listJoin_concatenates:
  assumes "dlist m l xs" and "dlist m k ys" and "fst ` set xs \<inter> fst ` set ys = {}"
  shows "\<exists>m' l' k'. listJoin m l k = Some (m', l', k') \<and> dlist m' l' (xs @ ys) \<and> dlist m' k' [] \<and>
    node_frame (fst ` set (xs @ ys)) m m' \<and> freed m' = freed m"
  using join_spec [OF assms] by blast

theorem listJoin_concatenates_witness:
  "\<exists>m' l' k'. listJoin (put sample_store 24 \<lparr>node_prev = None, node_next = None, node_value = 3\<rparr>) (sample_list None)
      \<lparr>list_head = Some 24, list_tail = Some 24, list_dup = None, list_free = True, list_match = None, list_len = 1\<rparr> = Some (m', l', k') \<and>
     dlist m' l' [(8, 1), (16, 2), (24, 3)] \<and> dlist m' k' []"
proof -
  let ?m = "put sample_store 24 \<lparr>node_prev = None, node_next = None, node_value = 3\<rparr>"
  let ?k = "\<lparr>list_head = Some 24, list_tail = Some 24, list_dup = None, list_free = True, list_match = None, list_len = 1\<rparr>"
  have "dlist ?m (sample_list None) [(8, 1), (16, 2)]" "dlist ?m ?k [(24, 3)]"
    using sample_dlist [of None] by (simp_all add: dlist_put) (simp add: dlist_def put_def addr_ok_def)
  from listJoin_concatenates [OF this] show ?thesis by auto
qed

end
