(* ===== verification/Lzf.thy ===== *)
theory Lzf
  imports Util_Numbers
begin

text \<open>
  The LZF compression of \<^verbatim>\<open>lzf_c.c\<close> and \<^verbatim>\<open>lzf_d.c\<close>, in the configuration of \<^verbatim>\<open>lzfP.h\<close>: 65536 hash slots that are not
  initialised and hold pointers, very fast hashing, input checks on. Positions are relative to the start of their buffer; the
  hash slots hold absolute addresses, the input being at the address \<open>base\<close>.
\<close>

unbundle bit_operations_syntax

subsection \<open>Decompression\<close>

datatype lzf_errno = E2BIG | EINVAL

text \<open>Copying bytes one at a time: from the input, and within the output, where the regions may overlap.\<close>

primrec literal_copy :: "nat \<Rightarrow> buffer \<Rightarrow> nat \<Rightarrow> buffer \<Rightarrow> nat \<Rightarrow> (nat \<times> buffer \<times> nat) option" where
  "literal_copy 0 inp ip out oppos = Some (ip, out, oppos)"
| "literal_copy (Suc n) inp ip out oppos = do {
     b \<leftarrow> rd_byte inp ip;
     out \<leftarrow> wr out oppos [b];
     literal_copy n inp (ip + 1) out (oppos + 1)
   }"

primrec ref_copy :: "nat \<Rightarrow> nat \<Rightarrow> buffer \<Rightarrow> nat \<Rightarrow> (buffer \<times> nat) option" where
  "ref_copy 0 ref out oppos = Some (out, oppos)"
| "ref_copy (Suc n) ref out oppos = do {
     b \<leftarrow> rd_byte out ref;
     out \<leftarrow> wr out oppos [b];
     ref_copy n (ref + 1) out (oppos + 1)
   }"

definition copy_match :: "nat \<Rightarrow> nat \<Rightarrow> buffer \<Rightarrow> nat \<Rightarrow> (buffer \<times> nat) option" where
  "copy_match len ref out oppos =
     (if len \<le> 9 then ref_copy (len + 2) ref out oppos
      else let len = len + 2 in
        if ref + len \<le> oppos then do { out \<leftarrow> memmove out oppos ref len; Some (out, oppos + len) }
        else ref_copy len ref out oppos)"

text \<open>The end of a back reference: its last byte, the checks and the copy.\<close>

definition back_reference :: "buffer \<Rightarrow> nat \<Rightarrow> buffer \<Rightarrow> nat \<Rightarrow> nat \<Rightarrow> int \<Rightarrow> (lzf_errno + (nat \<times> buffer \<times> nat)) option" where
  "back_reference inp ip out oppos len ref = do {
     b \<leftarrow> rd_byte inp ip;
     let ref = ref - int (unat b);
     if oppos + len + 2 > length out then Some (Inl E2BIG)
     else if ref < 0 then Some (Inl EINVAL)
     else do {
       (out, oppos) \<leftarrow> copy_match len (nat ref) out oppos;
       Some (Inr (ip + 1, out, oppos))
     }
   }"

text \<open>One turn of the loop: an error, or the new positions and output.\<close>

definition decompress_step :: "buffer \<Rightarrow> nat \<Rightarrow> buffer \<Rightarrow> nat \<Rightarrow> (lzf_errno + (nat \<times> buffer \<times> nat)) option" where
  "decompress_step inp ip out oppos = do {
     c \<leftarrow> rd_byte inp ip;
     let ip = ip + 1;
     let ctrl = unat c;
     if ctrl < 32 then
       let ctrl = ctrl + 1 in
       if oppos + ctrl > length out then Some (Inl E2BIG)
       else if ip + ctrl > length inp then Some (Inl EINVAL)
       else map_option Inr (literal_copy ctrl inp ip out oppos)
     else
       let len = ctrl div 32; ref = int oppos - int ((ctrl mod 32) * 256) - 1 in
       if ip \<ge> length inp then Some (Inl EINVAL)
       else if len = 7 then do {
         b \<leftarrow> rd_byte inp ip;
         let len = len + unat b;
         let ip = ip + 1;
         if ip \<ge> length inp then Some (Inl EINVAL)
         else back_reference inp ip out oppos len ref
       }
       else back_reference inp ip out oppos len ref
   }"

text \<open>The result is the output, the number of bytes written (0 on an error) and the error.\<close>

partial_function (option) decompress_loop :: "buffer \<Rightarrow> nat \<Rightarrow> buffer \<Rightarrow> nat \<Rightarrow> (buffer \<times> nat \<times> lzf_errno option) option" where
  "decompress_loop inp ip out oppos =
     (if ip < length inp then do {
        r \<leftarrow> decompress_step inp ip out oppos;
        case r of
          Inl e \<Rightarrow> Some (out, 0, Some e)
        | Inr (ip, out, oppos) \<Rightarrow> decompress_loop inp ip out oppos
      } else Some (out, oppos, None))"

definition lzf_decompress :: "buffer \<Rightarrow> buffer \<Rightarrow> (buffer \<times> nat \<times> lzf_errno option) option" where
  "lzf_decompress inp out = decompress_loop inp 0 out 0"

subsection \<open>Compression\<close>

definition MAX_LIT :: nat where "MAX_LIT = 32"
definition MAX_OFF :: nat where "MAX_OFF = 8192"
definition MAX_REF :: nat where "MAX_REF = 264"

definition FRST :: "buffer \<Rightarrow> nat \<Rightarrow> 32 word option" where
  "FRST b p = do { x \<leftarrow> rd_byte b p; y \<leftarrow> rd_byte b (p + 1); Some (push_bit 8 (ucast x) OR ucast y) }"

definition NEXT :: "32 word \<Rightarrow> buffer \<Rightarrow> nat \<Rightarrow> 32 word option" where
  "NEXT v b p = do { x \<leftarrow> rd_byte b (p + 2); Some (push_bit 8 v OR ucast x) }"

definition IDX :: "32 word \<Rightarrow> nat" where
  "IDX h = unat ((drop_bit 8 h - h * 5) AND 65535)"

record lzf_state =
  c_ip :: nat
  c_op :: nat
  c_lit :: nat
  c_hval :: "32 word"
  c_htab :: "nat \<Rightarrow> nat"
  c_out :: buffer

text \<open>The test whether the slot refers to an earlier occurrence of the next three bytes; \<open>ref\<close> is an address.\<close>

definition is_match :: "nat \<Rightarrow> buffer \<Rightarrow> nat \<Rightarrow> nat \<Rightarrow> bool option" where
  "is_match base inp ip ref =
     (if u64 (int (base + ip) - int ref - 1) < MAX_OFF \<and> base < ref then do {
        x \<leftarrow> rd_byte inp (ref - base + 2);
        y \<leftarrow> rd_byte inp (ip + 2);
        if x \<noteq> y then Some False
        else do {
          xs \<leftarrow> rd inp (ref - base) 2;
          ys \<leftarrow> rd inp ip 2;
          Some (xs = ys)
        }
      } else Some False)"

text \<open>The length of a match: up to 16 comparisons in a row, which end the search at a difference, and then a loop.\<close>

primrec unrolled :: "nat \<Rightarrow> buffer \<Rightarrow> nat \<Rightarrow> nat \<Rightarrow> nat \<Rightarrow> (nat \<times> bool) option" where
  "unrolled 0 inp ref ip len = Some (len, False)"
| "unrolled (Suc n) inp ref ip len = do {
     let len = len + 1;
     x \<leftarrow> rd_byte inp (ref + len);
     y \<leftarrow> rd_byte inp (ip + len);
     if x \<noteq> y then Some (len, True) else unrolled n inp ref ip len
   }"

function extend_match :: "buffer \<Rightarrow> nat \<Rightarrow> nat \<Rightarrow> nat \<Rightarrow> nat \<Rightarrow> nat option" where
  "extend_match inp ref ip maxlen len =
     (if len + 1 < maxlen then do {
        x \<leftarrow> rd_byte inp (ref + (len + 1));
        y \<leftarrow> rd_byte inp (ip + (len + 1));
        if x = y then extend_match inp ref ip maxlen (len + 1) else Some (len + 1)
      } else Some (len + 1))"
  by pat_completeness auto
termination by (relation "measure (\<lambda>(inp, ref, ip, maxlen, len). maxlen - len)") auto

definition match_length :: "buffer \<Rightarrow> nat \<Rightarrow> nat \<Rightarrow> nat option" where
  "match_length inp ref ip = do {
     let maxlen = length inp - ip - 2;
     let maxlen = (if maxlen > MAX_REF then MAX_REF else maxlen);
     (len, differs) \<leftarrow> (if maxlen > 16 then unrolled 16 inp ref ip 2 else Some (2, False));
     if differs then Some len else extend_match inp ref ip maxlen len
   }"

text \<open>The byte in front of the current run of literals.\<close>

definition stop_run :: "lzf_state \<Rightarrow> lzf_state option" where
  "stop_run st = do {
     c_assert (c_lit st + 1 \<le> c_op st);
     out \<leftarrow> wr (c_out st) (c_op st - c_lit st - 1) [word_of_int (int (c_lit st) - 1)];
     Some (st\<lparr>c_out := out\<rparr>)
   }"

definition start_run :: "lzf_state \<Rightarrow> lzf_state" where
  "start_run st = st\<lparr>c_lit := 0, c_op := c_op st + 1\<rparr>"

definition undo_run :: "lzf_state \<Rightarrow> lzf_state" where
  "undo_run st = st\<lparr>c_op := c_op st - (if c_lit st = 0 then 1 else 0)\<rparr>"

definition put_byte :: "nat \<Rightarrow> lzf_state \<Rightarrow> lzf_state option" where
  "put_byte v st = do {
     out \<leftarrow> wr (c_out st) (c_op st) [word_of_nat v];
     Some (st\<lparr>c_out := out, c_op := c_op st + 1\<rparr>)
   }"

definition put_reference :: "nat \<Rightarrow> nat \<Rightarrow> lzf_state \<Rightarrow> lzf_state option" where
  "put_reference len off st = do {
     st \<leftarrow> (if len < 7 then put_byte (off div 256 + len * 32) st
           else do { st \<leftarrow> put_byte (off div 256 + 7 * 32) st; put_byte (len - 7) st });
     put_byte off st
   }"

text \<open>How the body of the loop ends: with a return of 0, at the break, or with the next turn.\<close>

datatype lzf_flow = Return0 buffer | Break lzf_state | Continue lzf_state

definition hash_at :: "nat \<Rightarrow> buffer \<Rightarrow> lzf_state \<Rightarrow> lzf_state option" where
  "hash_at base inp st = do {
     hval \<leftarrow> NEXT (c_hval st) inp (c_ip st);
     Some (st\<lparr>c_hval := hval, c_htab := (c_htab st)(IDX hval := base + c_ip st), c_ip := c_ip st + 1\<rparr>)
   }"

definition compress_match :: "nat \<Rightarrow> buffer \<Rightarrow> nat \<Rightarrow> lzf_state \<Rightarrow> lzf_flow option" where
  "compress_match base inp ref st = do {
     let off = u64 (int (base + c_ip st) - int ref - 1);
     if c_op st + 3 + 1 \<ge> length (c_out st) \<and> c_op st - (if c_lit st = 0 then 1 else 0) + 3 + 1 \<ge> length (c_out st)
     then Some (Return0 (c_out st))
     else do {
       st \<leftarrow> stop_run st;
       let st = undo_run st;
       len \<leftarrow> match_length inp (ref - base) (c_ip st);
       let len = len - 2;
       let st = st\<lparr>c_ip := c_ip st + 1\<rparr>;
       st \<leftarrow> put_reference len off st;
       let st = start_run st;
       let st = st\<lparr>c_ip := c_ip st + (len + 1)\<rparr>;
       if int (c_ip st) \<ge> int (length inp) - 2 then Some (Break st)
       else do {
         let st = st\<lparr>c_ip := c_ip st - 2\<rparr>;
         hval \<leftarrow> FRST inp (c_ip st);
         st \<leftarrow> hash_at base inp (st\<lparr>c_hval := hval\<rparr>);
         st \<leftarrow> hash_at base inp st;
         Some (Continue st)
       }
     }
   }"

text \<open>One literal byte, with the end of a run that became too long.\<close>

definition put_literal :: "buffer \<Rightarrow> lzf_state \<Rightarrow> lzf_state option" where
  "put_literal inp st = do {
     b \<leftarrow> rd_byte inp (c_ip st);
     out \<leftarrow> wr (c_out st) (c_op st) [b];
     let st = st\<lparr>c_lit := c_lit st + 1, c_out := out, c_op := c_op st + 1, c_ip := c_ip st + 1\<rparr>;
     if c_lit st = MAX_LIT then do { st \<leftarrow> stop_run st; Some (start_run st) } else Some st
   }"

definition compress_step :: "nat \<Rightarrow> buffer \<Rightarrow> lzf_state \<Rightarrow> lzf_flow option" where
  "compress_step base inp st = do {
     hval \<leftarrow> NEXT (c_hval st) inp (c_ip st);
     let ref = c_htab st (IDX hval);
     let st = st\<lparr>c_hval := hval, c_htab := (c_htab st)(IDX hval := base + c_ip st)\<rparr>;
     found \<leftarrow> is_match base inp (c_ip st) ref;
     if found then compress_match base inp ref st
     else if c_op st \<ge> length (c_out st) then Some (Return0 (c_out st))
     else do { st \<leftarrow> put_literal inp st; Some (Continue st) }
   }"

text \<open>The loop ends with the output of a return of 0, or with the state behind the loop.\<close>

partial_function (option) compress_loop :: "nat \<Rightarrow> buffer \<Rightarrow> lzf_state \<Rightarrow> (buffer + lzf_state) option" where
  "compress_loop base inp st =
     (if int (c_ip st) < int (length inp) - 2 then do {
        flow \<leftarrow> compress_step base inp st;
        case flow of
          Return0 out \<Rightarrow> Some (Inl out)
        | Break st \<Rightarrow> Some (Inr st)
        | Continue st \<Rightarrow> compress_loop base inp st
      } else Some (Inr st))"

partial_function (option) tail_loop :: "buffer \<Rightarrow> lzf_state \<Rightarrow> lzf_state option" where
  "tail_loop inp st =
     (if c_ip st < length inp then do { st \<leftarrow> put_literal inp st; tail_loop inp st } else Some st)"

definition lzf_compress :: "nat \<Rightarrow> (nat \<Rightarrow> nat) \<Rightarrow> buffer \<Rightarrow> buffer \<Rightarrow> (buffer \<times> nat) option" where
  "lzf_compress base htab inp out =
     (if length inp = 0 \<or> length out = 0 then Some (out, 0)
      else do {
        hval \<leftarrow> FRST inp 0;
        r \<leftarrow> compress_loop base inp \<lparr>c_ip = 0, c_op = 1, c_lit = 0, c_hval = hval, c_htab = htab, c_out = out\<rparr>;
        case r of
          Inl out \<Rightarrow> Some (out, 0)
        | Inr st \<Rightarrow>
            if c_op st + 3 > length (c_out st) then Some (c_out st, 0)
            else do {
              st \<leftarrow> tail_loop inp st;
              st \<leftarrow> stop_run st;
              Some (c_out st, c_op (undo_run st))
            }
      })"

end
