(* ===== verification/Lzf_Format.thy ===== *)
theory Lzf_Format
  imports Lzf
begin

text \<open>
  The compressed format as a sequence of tokens with a meaning, and the decompressor against it: it expands the encoding of any
  sequence of tokens, and on arbitrary input it ends without leaving its buffers.
\<close>

subsection \<open>Tokens\<close>

datatype token = Literal "byte list" | Backref nat nat

fun encode_token :: "token \<Rightarrow> byte list" where
  "encode_token (Literal bs) = word_of_nat (length bs - 1) # bs"
| "encode_token (Backref n d) =
     (let len = n - 2; off = d - 1 in
      if len < 7 then [word_of_nat (off div 256 + len * 32), word_of_nat off]
      else [word_of_nat (off div 256 + 7 * 32), word_of_nat (len - 7), word_of_nat off])"

text \<open>A back reference of \<open>n\<close> bytes at distance \<open>d\<close>; the copy may reach into what it writes.\<close>

primrec copy_ref :: "nat \<Rightarrow> nat \<Rightarrow> byte list \<Rightarrow> byte list" where
  "copy_ref 0 d acc = acc"
| "copy_ref (Suc n) d acc = copy_ref n d (acc @ [acc ! (length acc - d)])"

fun apply_token :: "byte list \<Rightarrow> token \<Rightarrow> byte list" where
  "apply_token acc (Literal bs) = acc @ bs"
| "apply_token acc (Backref n d) = copy_ref n d acc"

fun token_ok :: "byte list \<Rightarrow> token \<Rightarrow> bool" where
  "token_ok acc (Literal bs) \<longleftrightarrow> bs \<noteq> [] \<and> length bs \<le> 32"
| "token_ok acc (Backref n d) \<longleftrightarrow> 3 \<le> n \<and> n \<le> 264 \<and> 1 \<le> d \<and> d \<le> 8192 \<and> d \<le> length acc"

primrec tokens_ok :: "byte list \<Rightarrow> token list \<Rightarrow> bool" where
  "tokens_ok acc [] \<longleftrightarrow> True"
| "tokens_ok acc (t # ts) \<longleftrightarrow> token_ok acc t \<and> tokens_ok (apply_token acc t) ts"

definition expand :: "byte list \<Rightarrow> token list \<Rightarrow> byte list" where
  "expand acc ts = foldl apply_token acc ts"

definition encode :: "token list \<Rightarrow> byte list" where
  "encode ts = concat (map encode_token ts)"

lemma expand_simps [simp]: "expand acc [] = acc" "expand acc (t # ts) = expand (apply_token acc t) ts"
  "expand acc (ts @ us) = expand (expand acc ts) us"
  by (simp_all add: expand_def)

lemma encode_simps [simp]: "encode [] = []" "encode (t # ts) = encode_token t @ encode ts" "encode (ts @ us) = encode ts @ encode us"
  by (simp_all add: encode_def)

lemma tokens_ok_append [simp]: "tokens_ok acc (ts @ us) \<longleftrightarrow> tokens_ok acc ts \<and> tokens_ok (expand acc ts) us"
  by (induction ts arbitrary: acc) auto

lemma length_copy_ref [simp]: "length (copy_ref n d acc) = length acc + n"
  by (induction n arbitrary: acc) auto

lemma copy_ref_prefix: "\<exists>xs. copy_ref n d acc = acc @ xs"
proof (induction n arbitrary: acc)
  case (Suc n)
  from this [of "acc @ [acc ! (length acc - d)]"] show ?case by auto
qed simp

lemma apply_token_prefix: "\<exists>xs. apply_token acc t = acc @ xs"
  using copy_ref_prefix by (cases t) auto

lemma expand_prefix: "\<exists>xs. expand acc ts = acc @ xs"
proof (induction ts arbitrary: acc)
  case (Cons t ts)
  obtain xs where "apply_token acc t = acc @ xs" using apply_token_prefix by blast
  then show ?case using Cons [of "acc @ xs"] by auto
qed simp

lemma length_expand_ge: "length acc \<le> length (expand acc ts)"
  using expand_prefix [of acc ts] by auto

subsection \<open>The copies of the decompressor\<close>

lemma wr1: "length a = k \<Longrightarrow> wr (a @ x # c) k [y] = Some (a @ y # c)"
  by (auto simp: wr_def)

lemma literal_copy_spec:
  "inp = pre @ bs @ post \<Longrightarrow> ip = length pre \<Longrightarrow> length hole = length bs \<Longrightarrow> oppos = length acc \<Longrightarrow>
   literal_copy (length bs) inp ip (acc @ hole @ rest) oppos = Some (ip + length bs, (acc @ bs) @ rest, oppos + length bs)"
proof (induction bs arbitrary: pre ip hole acc oppos)
  case (Cons b bs)
  then obtain h hs where hole: "hole = h # hs" "length hs = length bs" by (cases hole) auto
  have "rd_byte inp ip = Some b" using Cons.prems by (simp add: rd_byte_def nth_append)
  then show ?case
    using Cons.IH [of "pre @ [b]" "Suc ip" hs "Suc oppos" "acc @ [b]"] Cons.prems hole by (simp add: wr1)
qed simp

lemma ref_copy_spec:
  "oppos = length acc \<Longrightarrow> length hole = n \<Longrightarrow> 1 \<le> d \<Longrightarrow> d \<le> length acc \<Longrightarrow>
   ref_copy n (length acc - d) (acc @ hole @ rest) oppos = Some (copy_ref n d acc @ rest, oppos + n)"
proof (induction n arbitrary: acc hole oppos)
  case (Suc n)
  then obtain h hs where hole: "hole = h # hs" "length hs = n" by (cases hole) auto
  let ?b = "acc ! (length acc - d)"
  have "length acc - d < length acc" using Suc.prems by arith
  then have "rd_byte (acc @ hole @ rest) (length acc - d) = Some ?b" by (simp add: rd_byte_def nth_append)
  then show ?case
    using Suc.IH [of "Suc oppos" "acc @ [?b]" hs] Suc.prems hole by (simp add: wr1 Suc_diff_le)
qed simp

text \<open>Where the regions do not overlap, copying them at once is the same.\<close>

lemma copy_ref_disjoint: "n \<le> d \<Longrightarrow> d \<le> length acc \<Longrightarrow> copy_ref n d acc = acc @ take n (drop (length acc - d) acc)"
proof (induction n arbitrary: acc)
  case (Suc n)
  let ?b = "acc ! (length acc - d)"
  have lt: "length acc - d < length acc" using Suc.prems by simp
  have "drop (length acc - d) acc = ?b # drop (Suc (length acc - d)) acc" using lt by (simp add: Cons_nth_drop_Suc)
  moreover have "take n (drop (Suc (length acc) - d) (acc @ [?b])) = take n (drop (Suc (length acc - d)) acc)"
    using Suc.prems by (simp add: Suc_diff_le)
  moreover have "copy_ref n d (acc @ [?b]) = (acc @ [?b]) @ take n (drop (length (acc @ [?b]) - d) (acc @ [?b]))"
    using Suc.prems by (intro Suc.IH) auto
  ultimately show ?case using Suc.prems by simp
qed simp

lemma copy_match_spec:
  assumes "oppos = length acc" and "length hole = len + 2" and "1 \<le> d" and "d \<le> length acc"
  shows "copy_match len (length acc - d) (acc @ hole @ rest) oppos = Some (copy_ref (len + 2) d acc @ rest, oppos + (len + 2))"
proof (cases "len \<le> 9 \<or> \<not> len + 2 \<le> d")
  case True
  then show ?thesis
    using ref_copy_spec [OF assms, of rest] assms by (auto simp: copy_match_def Let_def)
next
  case False
  let ?x = "take (len + 2) (drop (length acc - d) acc)"
  have "rd (acc @ hole @ rest) (length acc - d) (len + 2) = Some ?x" using False assms by (simp add: rd_def)
  moreover have "wr (acc @ hole @ rest) oppos ?x = Some (acc @ ?x @ rest)" using False assms by (intro wr_append) auto
  ultimately show ?thesis
    using False assms copy_ref_disjoint [of "len + 2" d acc] by (auto simp: copy_match_def Let_def memmove_def)
qed

subsection \<open>Decompressing a sequence of tokens\<close>

lemma byte_of: "v < 256 \<Longrightarrow> unat (word_of_nat v :: byte) = v"
  by (simp add: unat_of_nat)

lemma back_reference_spec:
  assumes "rd_byte inp ip = Some b" and "unat b = (d - 1) mod 256" and "1 \<le> d" and "d \<le> length acc"
    and "ref = int (length acc) - int ((d - 1) div 256 * 256) - 1"
  shows "back_reference inp ip (acc @ rest) (length acc) len ref =
    Some (if length acc + (len + 2) \<le> length (acc @ rest)
          then Inr (ip + 1, copy_ref (len + 2) d acc @ drop (len + 2) rest, length acc + (len + 2))
          else Inl E2BIG)"
proof -
  have "(d - 1) div 256 * 256 + (d - 1) mod 256 = d - 1" by simp
  then have ref: "ref - int (unat b) = int (length acc - d)" using assms(2-5) by linarith
  then have ge: "\<not> ref < int (unat b)" by linarith
  show ?thesis
  proof (cases "len + 2 \<le> length rest")
    case True
    then have "copy_match len (length acc - d) (acc @ take (len + 2) rest @ drop (len + 2) rest) (length acc) =
        Some (copy_ref (len + 2) d acc @ drop (len + 2) rest, length acc + (len + 2))"
      using assms by (intro copy_match_spec) auto
    then show ?thesis using True by (simp add: back_reference_def Let_def assms(1) ref ge del: copy_ref.simps of_nat_unat)
  next
    case False
    then show ?thesis using assms(1) by (simp add: back_reference_def Let_def)
  qed
qed

lemma step_literal:
  assumes c: "unat c = length bs - 1" and bs: "bs \<noteq> []" "length bs \<le> 32"
  shows "decompress_step (pre @ c # bs @ post) (length pre) (acc @ rest) (length acc) =
    Some (if length (acc @ bs) \<le> length (acc @ rest)
          then Inr (length (pre @ c # bs), (acc @ bs) @ drop (length bs) rest, length (acc @ bs)) else Inl E2BIG)"
proof -
  have c': "unat c < 32" "Suc (unat c) = length bs" using c bs by (auto simp: Suc_le_eq)
  have r: "rd_byte (pre @ c # bs @ post) (length pre) = Some c" by (simp add: rd_byte_def)
  show ?thesis
  proof (cases "length bs \<le> length rest")
    case True
    have "literal_copy (length bs) (pre @ c # bs @ post) (length (pre @ [c])) (acc @ take (length bs) rest @ drop (length bs) rest)
        (length acc) = Some (length (pre @ [c]) + length bs, (acc @ bs) @ drop (length bs) rest, length acc + length bs)"
      using True by (intro literal_copy_spec [of _ "pre @ [c]"]) auto
    then show ?thesis using True by (simp add: decompress_step_def Let_def r c' del: literal_copy.simps)
  next
    case False
    then show ?thesis using r c' by (simp add: decompress_step_def Let_def)
  qed
qed

lemma ctrl_byte:
  fixes off len :: nat
  assumes "off < 8192" and "1 \<le> len" and "unat (c :: byte) = off div 256 + len * 32"
  shows "\<not> unat c < 32" and "unat c div 32 = len" and "unat c mod 32 = off div 256"
proof -
  have "off div 256 < 32" using assms(1) by (simp add: div_less_iff_less_mult)
  then show "\<not> unat c < 32" "unat c div 32 = len" "unat c mod 32 = off div 256" using assms(2,3) by auto
qed

lemma step_short:
  assumes t: "token_ok acc (Backref n d)" and n: "n - 2 < 7"
    and c: "unat c = (d - 1) div 256 + (n - 2) * 32" and b: "unat b = (d - 1) mod 256"
  shows "decompress_step (pre @ [c, b] @ post) (length pre) (acc @ rest) (length acc) =
    Some (if length (copy_ref n d acc) \<le> length (acc @ rest)
          then Inr (length (pre @ [c, b]), copy_ref n d acc @ drop n rest, length (copy_ref n d acc)) else Inl E2BIG)"
proof -
  let ?inp = "pre @ [c, b] @ post"
  have d: "d - 1 < 8192" "1 \<le> n - 2" using t by auto
  have cc: "\<not> unat c < 32" "unat c div 32 = n - 2" "unat c mod 32 = (d - 1) div 256"
    by (rule ctrl_byte [OF d c])+
  have r: "rd_byte ?inp (length pre) = Some c" "rd_byte ?inp (length pre + 1) = Some b"
    by (simp_all add: rd_byte_def nth_append)
  have n2: "n - 2 + 2 = n" "n - 2 \<noteq> 7" using t n by auto
  have "back_reference ?inp (length pre + 1) (acc @ rest) (length acc) (n - 2) (int (length acc) - int ((d - 1) div 256 * 256) - 1) =
    Some (if length acc + (n - 2 + 2) \<le> length (acc @ rest)
          then Inr (length pre + 1 + 1, copy_ref (n - 2 + 2) d acc @ drop (n - 2 + 2) rest, length acc + (n - 2 + 2)) else Inl E2BIG)"
    using t by (intro back_reference_spec [OF r(2) b]) auto
  then show ?thesis
    unfolding decompress_step_def r(1) Let_def bind.bind_lunit cc n2(1) using cc(1) n2(2) r(1) by simp
qed

lemma step_long:
  assumes t: "token_ok acc (Backref n d)" and n: "\<not> n - 2 < 7"
    and c: "unat c = (d - 1) div 256 + 7 * 32" and l: "unat l = n - 2 - 7" and b: "unat b = (d - 1) mod 256"
  shows "decompress_step (pre @ [c, l, b] @ post) (length pre) (acc @ rest) (length acc) =
    Some (if length (copy_ref n d acc) \<le> length (acc @ rest)
          then Inr (length (pre @ [c, l, b]), copy_ref n d acc @ drop n rest, length (copy_ref n d acc)) else Inl E2BIG)"
proof -
  let ?inp = "pre @ [c, l, b] @ post"
  have d: "d - 1 < 8192" "1 \<le> (7 :: nat)" using t by auto
  have cc: "\<not> unat c < 32" "unat c div 32 = 7" "unat c mod 32 = (d - 1) div 256"
    by (rule ctrl_byte [OF d c])+
  have r: "rd_byte ?inp (length pre) = Some c" "rd_byte ?inp (length pre + 1) = Some l" "rd_byte ?inp (length pre + 1 + 1) = Some b"
    by (simp_all add: rd_byte_def nth_append)
  have n2: "7 + unat l + 2 = n" using n l by auto
  have "back_reference ?inp (length pre + 1 + 1) (acc @ rest) (length acc) (7 + unat l) (int (length acc) - int ((d - 1) div 256 * 256) - 1) =
    Some (if length acc + (7 + unat l + 2) \<le> length (acc @ rest)
          then Inr (length pre + 1 + 1 + 1, copy_ref (7 + unat l + 2) d acc @ drop (7 + unat l + 2) rest, length acc + (7 + unat l + 2)) else Inl E2BIG)"
    using t by (intro back_reference_spec [OF r(3) b]) auto
  then show ?thesis
    unfolding decompress_step_def r(1) Let_def n2 using cc r by (simp cong: if_cong)
qed

lemma step_token:
  assumes "token_ok acc t"
  shows "decompress_step (pre @ encode_token t @ post) (length pre) (acc @ rest) (length acc) =
    Some (if length (apply_token acc t) \<le> length (acc @ rest)
          then Inr (length (pre @ encode_token t), apply_token acc t @ drop (length (apply_token acc t) - length acc) rest,
                    length (apply_token acc t))
          else Inl E2BIG)"
proof (cases t)
  case (Literal bs)
  let ?c = "word_of_nat (length bs - 1) :: byte"
  have "unat ?c = length bs - 1" using assms Literal by (intro byte_of) auto
  from step_literal [OF this] show ?thesis using assms Literal by simp
next
  case (Backref n d)
  have b: "unat (word_of_nat (d - 1) :: byte) = (d - 1) mod 256" by (simp add: unat_of_nat)
  have "d - 1 < 8192" using assms Backref by auto
  then have o: "(d - 1) div 256 < 32" by (simp add: div_less_iff_less_mult)
  show ?thesis
  proof (cases "n - 2 < 7")
    case True
    then have "(d - 1) div 256 + (n - 2) * 32 < 256" using o by linarith
    from step_short [OF _ True byte_of [OF this] b] show ?thesis using assms Backref True by (simp add: Let_def)
  next
    case False
    have "(d - 1) div 256 + 7 * 32 < 256" "n - 2 - 7 < 256" using o assms Backref by auto
    from step_long [OF _ False byte_of [OF this(1)] byte_of [OF this(2)] b] show ?thesis using assms Backref False by (simp add: Let_def)
  qed
qed

lemma decompress_tokens:
  "tokens_ok acc ts \<Longrightarrow>
   \<exists>out'. decompress_loop (pre @ encode ts) (length pre) (acc @ rest) (length acc) =
     Some (if length (expand acc ts) \<le> length (acc @ rest)
           then (expand acc ts @ drop (length (expand acc ts) - length acc) rest, length (expand acc ts), None)
           else (out', 0, Some E2BIG))"
proof (induction ts arbitrary: pre acc rest)
  case Nil
  then show ?case by (subst decompress_loop.simps) simp
next
  case (Cons t ts)
  let ?acc = "apply_token acc t"
  let ?r = "drop (length ?acc - length acc) rest"
  have ne: "length pre < length (pre @ encode (t # ts))" by (cases t) (simp_all add: Let_def)
  have step: "decompress_step (pre @ encode (t # ts)) (length pre) (acc @ rest) (length acc) =
    Some (if length ?acc \<le> length (acc @ rest) then Inr (length (pre @ encode_token t), ?acc @ ?r, length ?acc) else Inl E2BIG)"
    using step_token [of acc t pre "encode ts" rest] Cons.prems by simp
  have ge: "length acc \<le> length ?acc" "length ?acc \<le> length (expand ?acc ts)"
    using apply_token_prefix [of acc t] length_expand_ge by auto
  show ?case
  proof (cases "length ?acc \<le> length (acc @ rest)")
    case True
    obtain out' where "decompress_loop ((pre @ encode_token t) @ encode ts) (length (pre @ encode_token t)) (?acc @ ?r) (length ?acc) =
     Some (if length (expand ?acc ts) \<le> length (?acc @ ?r)
           then (expand ?acc ts @ drop (length (expand ?acc ts) - length ?acc) ?r, length (expand ?acc ts), None)
           else (out', 0, Some E2BIG))" using Cons.IH Cons.prems by fastforce
    moreover have "length (?acc @ ?r) = length (acc @ rest)" using True ge by simp
    moreover have "drop (length (expand ?acc ts) - length ?acc) ?r = drop (length (expand ?acc ts) - length acc) rest" using ge by simp
    ultimately show ?thesis using step True ne by (subst decompress_loop.simps) simp
  next
    case False
    then show ?thesis using step ne ge by (subst decompress_loop.simps) simp
  qed
qed

subsection \<open>Decompressing arbitrary input\<close>

lemma literal_copy_safe: "ip + n \<le> length inp \<Longrightarrow> oppos + n \<le> length out \<Longrightarrow>
    \<exists>out'. literal_copy n inp ip out oppos = Some (ip + n, out', oppos + n) \<and> length out' = length out"
proof (induction n arbitrary: ip out oppos)
  case (Suc n)
  then obtain b out1 where "rd_byte inp ip = Some b" "wr out oppos [b] = Some out1" "length out1 = length out"
    by (simp add: rd_byte_def wr_def)
  then show ?case using Suc.IH [of "ip + 1" "oppos + 1" out1] Suc.prems by simp
qed simp

lemma ref_copy_safe: "ref < oppos \<Longrightarrow> oppos + n \<le> length out \<Longrightarrow>
    \<exists>out'. ref_copy n ref out oppos = Some (out', oppos + n) \<and> length out' = length out"
proof (induction n arbitrary: ref out oppos)
  case (Suc n)
  then obtain b out1 where "rd_byte out ref = Some b" "wr out oppos [b] = Some out1" "length out1 = length out"
    by (simp add: rd_byte_def wr_def)
  then show ?case using Suc.IH [of "ref + 1" "oppos + 1" out1] Suc.prems by simp
qed simp

lemma copy_match_safe:
  assumes "ref < oppos" and "oppos + len + 2 \<le> length out"
  shows "\<exists>out'. copy_match len ref out oppos = Some (out', oppos + (len + 2)) \<and> length out' = length out"
proof -
  have "\<exists>out'. memmove out oppos ref (len + 2) = Some out' \<and> length out' = length out"
    using assms by (simp add: memmove_def rd_def wr_def)
  then show ?thesis using ref_copy_safe [of ref oppos "len + 2" out] assms by (auto simp: copy_match_def Let_def)
qed

text \<open>A turn of the loop advances in the input and stays in both buffers.\<close>

definition step_fine :: "nat \<Rightarrow> buffer \<Rightarrow> (lzf_errno + (nat \<times> buffer \<times> nat)) \<Rightarrow> bool" where
  "step_fine ip out r = (case r of Inl e \<Rightarrow> True | Inr (ip', out', oppos') \<Rightarrow> ip < ip' \<and> length out' = length out \<and> oppos' \<le> length out)"

lemma back_reference_safe:
  assumes "ip < length inp" and "ref < int oppos" and "i < ip"
  shows "\<exists>r. back_reference inp ip out oppos len ref = Some r \<and> step_fine i out r"
proof -
  let ?ref = "ref - int (unat (inp ! ip))"
  have b: "rd_byte inp ip = Some (inp ! ip)" using assms(1) by (simp add: rd_byte_def)
  show ?thesis
  proof (cases "oppos + len + 2 \<le> length out \<and> 0 \<le> ?ref")
    case True
    then have "nat ?ref < oppos" using assms(2) by linarith
    then obtain out' where "copy_match len (nat ?ref) out oppos = Some (out', oppos + (len + 2))" "length out' = length out"
      using copy_match_safe True by blast
    then show ?thesis using b True assms(3) by (simp add: back_reference_def Let_def step_fine_def)
  next
    case False
    then show ?thesis using b by (auto simp: back_reference_def Let_def step_fine_def)
  qed
qed

lemma decompress_step_safe:
  assumes "ip < length inp" and "oppos \<le> length out"
  shows "\<exists>r. decompress_step inp ip out oppos = Some r \<and> step_fine ip out r"
proof -
  let ?c = "unat (inp ! ip)"
  have c: "rd_byte inp ip = Some (inp ! ip)" using assms(1) by (simp add: rd_byte_def)
  have b: "ip + 1 < length inp \<Longrightarrow> rd_byte inp (ip + 1) = Some (inp ! (ip + 1))" by (simp add: rd_byte_def)
  let ?ref = "int oppos - int (?c mod 32 * 256) - 1"
  have br: "\<exists>r. back_reference inp j out oppos len ?ref = Some r \<and> step_fine ip out r" if "ip < j" "j < length inp" for j len
    using that by (intro back_reference_safe) auto
  have lit: "\<exists>r. map_option Inr (literal_copy (?c + 1) inp (ip + 1) out oppos) = Some r \<and> step_fine ip out (r :: lzf_errno + _)"
    if "oppos + (?c + 1) \<le> length out" "ip + 1 + (?c + 1) \<le> length inp"
    using literal_copy_safe [OF that(2,1)] that by (auto simp: step_fine_def simp del: literal_copy.simps)
  show ?thesis
    using c b lit br [of "ip + 1"] br [of "ip + 2"] by (auto simp: decompress_step_def Let_def step_fine_def simp del: literal_copy.simps)
qed

lemma decompress_loop_safe:
  assumes "oppos \<le> length out"
  shows "\<exists>out' n e. decompress_loop inp ip out oppos = Some (out', n, e) \<and> length out' = length out \<and> n \<le> length out \<and> (e \<noteq> None \<longrightarrow> n = 0)"
  using assms
proof (induction "length inp - ip" arbitrary: ip out oppos rule: less_induct)
  case less
  show ?case
  proof (cases "ip < length inp")
    case True
    obtain r where r: "decompress_step inp ip out oppos = Some r" "step_fine ip out r"
      using decompress_step_safe [OF True less.prems] by blast
    show ?thesis
    proof (cases r)
      case (Inl e)
      then show ?thesis using r True by (subst decompress_loop.simps) simp
    next
      case (Inr x)
      obtain ip' out' oppos' where x: "x = (ip', out', oppos')" by (cases x)
      then have n: "length inp - ip' < length inp - ip" "oppos' \<le> length out'" "length out' = length out"
        using r Inr True by (auto simp: step_fine_def)
      then show ?thesis using less.hyps [OF n(1,2)] r Inr x True by (subst decompress_loop.simps) simp
    qed
  next
    case False
    then show ?thesis using less.prems by (subst decompress_loop.simps) simp
  qed
qed

end
