(* ===== verification/Lzf_Spec.thy ===== *)
theory Lzf_Spec
  imports Lzf_Format
begin

text \<open>
  The compressor: what it returns is the encoding of tokens that expand to its input, whatever the uninitialised hash table
  holds, and it stays in its buffers. Together with the decompressor this gives the round trip.
\<close>

subsection \<open>Matches\<close>

text \<open>The address in a slot that passes the test is that of an earlier position in the input, where the same three bytes are.\<close>

lemma is_match_spec:
  assumes "MAX_OFF \<le> base" and "base + length inp < 2 ^ 64" and "ref < 2 ^ 64" and "ip + 2 < length inp"
  obtains f where "is_match base inp ip ref = Some f"
    and "f \<Longrightarrow> base < ref \<and> ref < base + ip \<and> base + ip - ref \<le> 8192 \<and> (\<forall>i<3. inp ! (ref - base + i) = inp ! (ip + i))"
proof -
  define x where "x = int (base + ip) - int ref - 1"
  show thesis
  proof (cases "u64 x < MAX_OFF \<and> base < ref")
    case False
    then show thesis using that [of False] by (auto simp: is_match_def x_def)
  next
    case True
    have "0 \<le> x"
    proof (rule ccontr)
      assume "\<not> 0 \<le> x"
      then have "x mod 2 ^ 64 = x + 2 ^ 64" using assms True x_def by (intro int_mod_pos_eq [where q = "-1"]) auto
      moreover have "int MAX_OFF \<le> x + 2 ^ 64" using assms(1,3) x_def by simp
      ultimately have "MAX_OFF \<le> u64 x" by (simp add: u64_def le_nat_iff)
      then show False using True by simp
    qed
    moreover have "x < 2 ^ 64" using assms x_def by simp
    ultimately have "u64 x = nat x" by (simp add: u64_def)
    then have p: "ref < base + ip" "base + ip - ref \<le> 8192" using True \<open>0 \<le> x\<close> by (auto simp: x_def MAX_OFF_def)
    let ?r = "ref - base"
    have "?r + 2 < length inp" using p assms True by linarith
    moreover have two: "take 2 (drop k inp) = [inp ! k, inp ! (k + 1)]" if "k + 1 < length inp" for k
      using that by (simp add: numeral_2_eq_2 take_Suc_conv_app_nth hd_drop_conv_nth)
    ultimately have "is_match base inp ip ref =
        Some (inp ! (?r + 2) = inp ! (ip + 2) \<and> inp ! ?r = inp ! ip \<and> inp ! (?r + 1) = inp ! (ip + 1))"
      using True assms unfolding is_match_def x_def [symmetric] by (simp add: rd_byte_def rd_def two)
    moreover have "(\<forall>i<3. inp ! (?r + i) = inp ! (ip + i)) \<longleftrightarrow>
        inp ! ?r = inp ! ip \<and> inp ! (?r + 1) = inp ! (ip + 1) \<and> inp ! (?r + 2) = inp ! (ip + 2)"
      by (auto simp: numeral_3_eq_3 numeral_2_eq_2 less_Suc_eq)
    ultimately show thesis using that [of "inp ! (?r + 2) = inp ! (ip + 2) \<and> inp ! ?r = inp ! ip \<and> inp ! (?r + 1) = inp ! (ip + 1)"] p True by auto
  qed
qed

declare extend_match.simps [simp del]

definition same_bytes :: "buffer \<Rightarrow> nat \<Rightarrow> nat \<Rightarrow> nat \<Rightarrow> bool" where
  "same_bytes inp ref ip n \<longleftrightarrow> (\<forall>i<n. inp ! (ref + i) = inp ! (ip + i))"

lemma same_bytes_Suc: "same_bytes inp ref ip (Suc n) \<longleftrightarrow> same_bytes inp ref ip n \<and> inp ! (ref + n) = inp ! (ip + n)"
  by (auto simp: same_bytes_def less_Suc_eq)

lemma unrolled_spec:
  "ref < ip \<Longrightarrow> ip + len + n < length inp \<Longrightarrow> same_bytes inp ref ip (len + 1) \<Longrightarrow>
   \<exists>len' f. unrolled n inp ref ip len = Some (len', f) \<and> len \<le> len' \<and> len' \<le> len + n \<and> (f \<longrightarrow> len < len' \<and> same_bytes inp ref ip len') \<and>
     (\<not> f \<longrightarrow> len' = len + n \<and> same_bytes inp ref ip (len' + 1))"
proof (induction n arbitrary: len)
  case (Suc n)
  have r: "rd_byte inp (ref + (len + 1)) = Some (inp ! (ref + (len + 1)))" "rd_byte inp (ip + (len + 1)) = Some (inp ! (ip + (len + 1)))"
    using Suc.prems by (simp_all add: rd_byte_def)
  show ?case
  proof (cases "inp ! (ref + (len + 1)) = inp ! (ip + (len + 1))")
    case True
    then have "same_bytes inp ref ip (len + 1 + 1)" using Suc.prems(3) same_bytes_Suc by simp
    then obtain len' f where "unrolled n inp ref ip (len + 1) = Some (len', f)" "len + 1 \<le> len'" "len' \<le> len + 1 + n"
      "f \<longrightarrow> len + 1 < len' \<and> same_bytes inp ref ip len'" "\<not> f \<longrightarrow> len' = len + 1 + n \<and> same_bytes inp ref ip (len' + 1)"
      using Suc.IH [of "len + 1"] Suc.prems by auto
    then show ?thesis using r True by auto
  next
    case False
    then show ?thesis using r Suc.prems(3) by auto
  qed
qed simp

lemma extend_match_spec:
  "ref < ip \<Longrightarrow> ip + maxlen \<le> length inp \<Longrightarrow> same_bytes inp ref ip (len + 1) \<Longrightarrow>
   \<exists>n. extend_match inp ref ip maxlen len = Some n \<and> len < n \<and> n \<le> max (len + 1) maxlen \<and> same_bytes inp ref ip n"
proof (induction inp ref ip maxlen len rule: extend_match.induct)
  case (1 inp ref ip maxlen len)
  show ?case
  proof (cases "len + 1 < maxlen")
    case True
    then have r: "rd_byte inp (ref + (len + 1)) = Some (inp ! (ref + (len + 1)))" "rd_byte inp (ip + (len + 1)) = Some (inp ! (ip + (len + 1)))"
      using 1(2,3) by (simp_all add: rd_byte_def)
    show ?thesis
    proof (cases "inp ! (ref + (len + 1)) = inp ! (ip + (len + 1))")
      case eq: True
      then have "same_bytes inp ref ip (len + 1 + 1)" using 1(4) same_bytes_Suc by simp
      then obtain n where "extend_match inp ref ip maxlen (len + 1) = Some n" "len + 1 < n" "n \<le> max (len + 1 + 1) maxlen" "same_bytes inp ref ip n"
        using 1(1) [OF True r eq 1(2,3)] by blast
      then show ?thesis using True r eq by (subst extend_match.simps) (auto simp: max_def split: if_splits)
    next
      case False
      then show ?thesis using True r 1(4) by (subst extend_match.simps) auto
    qed
  next
    case False
    then show ?thesis using 1(4) by (subst extend_match.simps) auto
  qed
qed

lemma match_length_spec:
  assumes "ref < ip" and "ip + 2 < length inp" and "same_bytes inp ref ip 3"
  shows "\<exists>n. match_length inp ref ip = Some n \<and> 3 \<le> n \<and> n \<le> 264 \<and> ip + n \<le> length inp \<and> same_bytes inp ref ip n"
proof -
  define maxlen where "maxlen = min 264 (length inp - ip - 2)"
  have m: "(if length inp - ip - 2 > MAX_REF then MAX_REF else length inp - ip - 2) = maxlen" by (auto simp: MAX_REF_def maxlen_def)
  then have ml: "match_length inp ref ip = do {
      (len, differs) \<leftarrow> (if maxlen > 16 then unrolled 16 inp ref ip 2 else Some (2, False));
      if differs then Some len else extend_match inp ref ip maxlen len }" unfolding match_length_def Let_def by (simp only: refl)
  show ?thesis
  proof (cases "maxlen > 16")
    case True
    then have "ip + 2 + 16 < length inp" "ip + maxlen \<le> length inp" "maxlen \<le> 264" by (auto simp: maxlen_def)
    moreover from this obtain len f where u: "unrolled 16 inp ref ip 2 = Some (len, f)" "2 \<le> len" "len \<le> 2 + 16"
      "f \<longrightarrow> 2 < len \<and> same_bytes inp ref ip len" "\<not> f \<longrightarrow> len = 2 + 16 \<and> same_bytes inp ref ip (len + 1)"
      using unrolled_spec [of ref ip 2 16 inp] assms by auto
    ultimately show ?thesis
      using extend_match_spec [of ref ip maxlen inp len] assms(1) ml True by (cases f) (auto simp: max_def split: if_splits)
  next
    case False
    have "ip + maxlen \<le> length inp" using assms(2) unfolding maxlen_def by linarith
    then show ?thesis
      using extend_match_spec [of ref ip maxlen inp 2] assms ml False by (auto simp: max_def split: if_splits)
  qed
qed

text \<open>A match at an earlier position is a back reference.\<close>

lemma copy_ref_match:
  "ref < ip \<Longrightarrow> ip + n \<le> length inp \<Longrightarrow> same_bytes inp ref ip n \<Longrightarrow> copy_ref n (ip - ref) (take ip inp) = take (ip + n) inp"
proof (induction n arbitrary: ref ip)
  case (Suc n)
  have "inp ! ref = inp ! ip" "\<forall>i<n. inp ! (Suc ref + i) = inp ! (Suc ip + i)" using Suc.prems(3) unfolding same_bytes_def by (auto dest: spec [of _ 0])
  moreover have "take ip inp @ [inp ! ip] = take (Suc ip) inp" using Suc.prems(2) by (simp add: take_Suc_conv_app_nth)
  moreover have "take ip inp ! (ip - (ip - ref)) = inp ! ref" using Suc.prems(1) by simp
  ultimately show ?case using Suc.IH [of "Suc ref" "Suc ip"] Suc.prems by (simp add: same_bytes_def)
qed simp

subsection \<open>The invariant of the compressor\<close>

text \<open>The output holds the tokens \<open>ts\<close>, a byte for the length of the current run, and its literals \<open>L\<close>.\<close>

definition run_at :: "token list \<Rightarrow> byte list \<Rightarrow> lzf_state \<Rightarrow> bool" where
  "run_at ts L st \<longleftrightarrow> c_lit st = length L \<and> c_op st = length (encode ts) + 1 + length L \<and>
     take (length (encode ts)) (c_out st) = encode ts \<and> take (length L) (drop (length (encode ts) + 1) (c_out st)) = L"

definition comp_inv :: "buffer \<Rightarrow> nat \<Rightarrow> lzf_state \<Rightarrow> token list \<Rightarrow> byte list \<Rightarrow> bool" where
  "comp_inv inp N st ts L \<longleftrightarrow> run_at ts L st \<and> length L < 32 \<and> c_ip st \<le> length inp \<and> tokens_ok [] ts \<and>
     expand [] ts @ L = take (c_ip st) inp \<and> length (c_out st) = N \<and> (\<forall>i. c_htab st i < 2 ^ 64) \<and>
     32 * length (encode ts) + 33 * length L \<le> 33 * c_ip st"

lemma run_split:
  assumes "run_at ts L st" and "length (encode ts) + 1 + length L \<le> length (c_out st)"
  shows "\<exists>h rest. c_out st = encode ts @ h # L @ rest"
proof -
  let ?n = "length (encode ts)"
  have "c_out st = take ?n (c_out st) @ drop ?n (c_out st)" by simp
  moreover have "drop ?n (c_out st) = c_out st ! ?n # drop (Suc ?n) (c_out st)" using assms(2) by (simp add: Cons_nth_drop_Suc)
  moreover have "drop (Suc ?n) (c_out st) = take (length L) (drop (Suc ?n) (c_out st)) @ drop (length L) (drop (Suc ?n) (c_out st))"
    by (rule append_take_drop_id [symmetric])
  ultimately show ?thesis using assms(1) unfolding run_at_def by (metis Suc_eq_plus1)
qed

lemma stop_run_spec:
  assumes "run_at ts L st" and "length (encode ts) + 1 + length L \<le> length (c_out st)" and "length L \<le> 32"
  shows "\<exists>out. stop_run st = Some (st\<lparr>c_out := out\<rparr>) \<and> length out = length (c_out st) \<and>
    take (length (encode (ts @ (if L = [] then [] else [Literal L])))) out = encode (ts @ (if L = [] then [] else [Literal L]))"
proof -
  obtain h rest where o: "c_out st = encode ts @ h # L @ rest" using run_split [OF assms(1,2)] by blast
  let ?b = "word_of_int (int (length L) - 1) :: byte"
  have "stop_run st = Some (st\<lparr>c_out := encode ts @ ?b # L @ rest\<rparr>)"
    using assms(1) o by (simp add: stop_run_def run_at_def wr1)
  moreover have "L \<noteq> [] \<Longrightarrow> ?b = word_of_nat (length L - 1)" by (cases L) simp_all
  ultimately show ?thesis using o by auto
qed

lemma put_byte_spec:
  assumes "take n (c_out st) = E" and "length E = n" and "c_op st = n" and "n < length (c_out st)"
  shows "\<exists>out. put_byte v st = Some (st\<lparr>c_out := out, c_op := Suc n\<rparr>) \<and> length out = length (c_out st) \<and> take (Suc n) out = E @ [word_of_nat v]"
proof -
  have "c_out st = E @ c_out st ! n # drop (Suc n) (c_out st)"
    using assms id_take_nth_drop [of n "c_out st"] by simp
  then have "wr (c_out st) n [word_of_nat v] = Some (E @ word_of_nat v # drop (Suc n) (c_out st))" using wr1 [OF assms(2)] by metis
  then show ?thesis using assms by (intro exI [of _ "E @ word_of_nat v # drop (Suc n) (c_out st)"]) (simp add: put_byte_def)
qed

lemma put_literal_spec:
  assumes inv: "comp_inv inp N st ts L" and ip: "c_ip st < length inp" and room: "c_op st < N"
  shows "\<exists>st' ts' L'. put_literal inp st = Some st' \<and> comp_inv inp N st' ts' L' \<and> c_ip st' = c_ip st + 1 \<and> 
    (if length L = 31 then L' = [] \<and> c_op st' = c_op st + 2 else length L' = length L + 1 \<and> c_op st' = c_op st + 1)"
proof -
  let ?n = "length (encode ts)" and ?b = "inp ! c_ip st"
  have I: "run_at ts L st" "length L < 32" "tokens_ok [] ts" "expand [] ts @ L = take (c_ip st) inp" "length (c_out st) = N"
    "32 * ?n + 33 * length L \<le> 33 * c_ip st" "\<forall>i. c_htab st i < 2 ^ 64" using inv by (auto simp: comp_inv_def)
  have op: "c_op st = ?n + 1 + length L" "c_lit st = length L" using I(1) by (simp_all add: run_at_def)
  then obtain h rest where o: "c_out st = encode ts @ h # L @ rest" using run_split [OF I(1)] room I(5) by auto
  then obtain x rest' where rest: "rest = x # rest'" using room I(5) op(1) by (cases rest) auto
  let ?out = "encode ts @ h # (L @ [?b]) @ rest'"
  have w: "wr (c_out st) (c_op st) [?b] = Some ?out"
    using wr1 [of "encode ts @ h # L" "c_op st" x rest' ?b] o rest op(1) by simp
  define st1 where "st1 = st\<lparr>c_lit := c_lit st + 1, c_out := ?out, c_op := c_op st + 1, c_ip := c_ip st + 1\<rparr>"
  have run: "put_literal inp st = (if length L = 31 then do { st \<leftarrow> stop_run st1; Some (start_run st) } else Some st1)"
    using ip w op by (simp add: put_literal_def rd_byte_def st1_def MAX_LIT_def)
  have r1: "run_at ts (L @ [?b]) st1" using op by (simp add: run_at_def st1_def)
  have ex: "expand [] ts @ L @ [?b] = take (c_ip st + 1) inp" using I(4) ip by (simp add: take_Suc_conv_app_nth)
  have len: "length ?out = N" using o rest I(5) by simp
  show ?thesis
  proof (cases "length L = 31")
    case False
    then have "comp_inv inp N st1 ts (L @ [?b])" using r1 ex len I ip by (auto simp: comp_inv_def st1_def)
    then show ?thesis using run False by (intro exI [of _ st1] exI [of _ ts] exI [of _ "L @ [?b]"]) (simp add: st1_def)
  next
    case True
    obtain out where s: "stop_run st1 = Some (st1\<lparr>c_out := out\<rparr>)" "length out = N"
      "take (length (encode (ts @ [Literal (L @ [?b])]))) out = encode (ts @ [Literal (L @ [?b])])"
      using stop_run_spec [OF r1] I(2) o rest len by (auto simp: st1_def)
    have "comp_inv inp N (start_run (st1\<lparr>c_out := out\<rparr>)) (ts @ [Literal (L @ [?b])]) []"
      using s(2,3) op ex I ip True by (auto simp: comp_inv_def run_at_def start_run_def st1_def)
    then show ?thesis using run s(1) True op by (auto simp: start_run_def st1_def)
  qed
qed

subsection \<open>A match\<close>

lemma hash_at_spec:
  assumes "c_ip st + 2 < length inp" and "base + length inp < 2 ^ 64" and "\<forall>i. c_htab st i < 2 ^ 64"
  shows "\<exists>st'. hash_at base inp st = Some st' \<and> c_ip st' = c_ip st + 1 \<and> (\<forall>i. c_htab st' i < 2 ^ 64) \<and>
    c_op st' = c_op st \<and> c_lit st' = c_lit st \<and> c_out st' = c_out st"
  using assms by (simp add: hash_at_def NEXT_def rd_byte_def)

text \<open>The bytes of a back reference.\<close>

lemma put_backref:
  assumes "take n (c_out st) = E" and "length E = n" and "c_op st = n" and "n + 3 < length (c_out st)"
  shows "\<exists>out. put_reference (k - 2) (d - 1) st = Some (st\<lparr>c_out := out, c_op := n + length (encode_token (Backref k d))\<rparr>) \<and>
    length out = length (c_out st) \<and> take (n + length (encode_token (Backref k d))) out = E @ encode_token (Backref k d)"
proof (cases "k - 2 < 7")
  case True
  obtain o1 where 1: "put_byte ((d - 1) div 256 + (k - 2) * 32) st = Some (st\<lparr>c_out := o1, c_op := Suc n\<rparr>)" "length o1 = length (c_out st)"
    "take (Suc n) o1 = E @ [word_of_nat ((d - 1) div 256 + (k - 2) * 32)]" using put_byte_spec [OF assms(1-3)] assms(4) by fastforce
  obtain o2 where 2: "put_byte (d - 1) (st\<lparr>c_out := o1, c_op := Suc n\<rparr>) = Some (st\<lparr>c_out := o2, c_op := Suc (Suc n)\<rparr>)" "length o2 = length o1"
    "take (Suc (Suc n)) o2 = (E @ [word_of_nat ((d - 1) div 256 + (k - 2) * 32)]) @ [word_of_nat (d - 1)]"
    using put_byte_spec [of "Suc n" "st\<lparr>c_out := o1, c_op := Suc n\<rparr>" _ "d - 1"] 1 assms(2,4) by fastforce
  show ?thesis using True 1(1,2) 2 by (intro exI [of _ o2]) (simp add: put_reference_def Let_def)
next
  case False
  let ?c = "(d - 1) div 256 + 7 * 32"
  obtain o1 where 1: "put_byte ?c st = Some (st\<lparr>c_out := o1, c_op := Suc n\<rparr>)" "length o1 = length (c_out st)"
    "take (Suc n) o1 = E @ [word_of_nat ?c]" using put_byte_spec [OF assms(1-3)] assms(4) by fastforce
  obtain o2 where 2: "put_byte (k - 2 - 7) (st\<lparr>c_out := o1, c_op := Suc n\<rparr>) = Some (st\<lparr>c_out := o2, c_op := Suc (Suc n)\<rparr>)" "length o2 = length o1"
    "take (Suc (Suc n)) o2 = (E @ [word_of_nat ?c]) @ [word_of_nat (k - 2 - 7)]"
    using put_byte_spec [of "Suc n" "st\<lparr>c_out := o1, c_op := Suc n\<rparr>" _ "k - 2 - 7"] 1 assms(2,4) by fastforce
  obtain o3 where 3: "put_byte (d - 1) (st\<lparr>c_out := o2, c_op := Suc (Suc n)\<rparr>) = Some (st\<lparr>c_out := o3, c_op := Suc (Suc (Suc n))\<rparr>)" "length o3 = length o2"
    "take (Suc (Suc (Suc n))) o3 = ((E @ [word_of_nat ?c]) @ [word_of_nat (k - 2 - 7)]) @ [word_of_nat (d - 1)]"
    using put_byte_spec [of "Suc (Suc n)" "st\<lparr>c_out := o2, c_op := Suc (Suc n)\<rparr>" _ "d - 1"] 2 1(2) assms(2,4) by fastforce
  show ?thesis using False 1(1,2) 2(1,2) 3 by (intro exI [of _ o3]) (simp add: put_reference_def Let_def)
qed

text \<open>How a turn of the loop may end: a return of 0 only when the output is nearly full.\<close>

definition flow_ok :: "buffer \<Rightarrow> nat \<Rightarrow> lzf_state \<Rightarrow> lzf_flow \<Rightarrow> bool" where
  "flow_ok inp N st flow =
     (case flow of
        Return0 out \<Rightarrow> length out = N \<and> N \<le> c_op st + 4
      | Break st' \<Rightarrow> (\<exists>ts' L'. comp_inv inp N st' ts' L') \<and> length inp \<le> c_ip st' + 2
      | Continue st' \<Rightarrow> (\<exists>ts' L'. comp_inv inp N st' ts' L') \<and> c_ip st < c_ip st')"

lemma comp_inv_match:
  assumes inv: "comp_inv inp N st ts L" and r: "r < c_ip st" "c_ip st - r \<le> 8192"
    and k: "3 \<le> k" "k \<le> 264" "c_ip st + k \<le> length inp" "same_bytes inp r (c_ip st) k"
    and T: "T = ts @ (if L = [] then [] else [Literal L]) @ [Backref k (c_ip st - r)]"
    and out: "length out = N" "take (length (encode T)) out = encode T" and h: "\<forall>i. htab i < 2 ^ 64"
  shows "comp_inv inp N \<lparr>c_ip = c_ip st + k, c_op = length (encode T) + 1, c_lit = 0, c_hval = hv, c_htab = htab, c_out = out\<rparr> T []"
proof -
  let ?U = "ts @ (if L = [] then [] else [Literal L])"
  have I: "length L < 32" "tokens_ok [] ts" "expand [] ts @ L = take (c_ip st) inp" "32 * length (encode ts) + 33 * length L \<le> 33 * c_ip st"
    using inv by (auto simp: comp_inv_def)
  have U: "expand [] ?U = take (c_ip st) inp" "tokens_ok [] ?U" using I by auto
  have "token_ok (take (c_ip st) inp) (Backref k (c_ip st - r))" using r k by auto
  then have ok: "tokens_ok [] T" using U T by simp
  have ex: "expand [] T = take (c_ip st + k) inp" using U(1) T copy_ref_match [OF r(1) k(3,4)] by simp
  have "length (encode_token (Backref k (c_ip st - r))) \<le> (if k - 2 < 7 then 2 else 3)" by (simp add: Let_def)
  then have "length (encode_token (Backref k (c_ip st - r))) + 1 \<le> k" using k(1) by (auto split: if_splits)
  moreover have "length (encode ?U) \<le> length (encode ts) + 1 + length L" "L = [] \<Longrightarrow> length (encode ?U) = length (encode ts)" by auto
  ultimately have "32 * length (encode T) \<le> 33 * (c_ip st + k)" using I(4) T by simp
  then show ?thesis using ok ex out h k(3) by (simp add: comp_inv_def run_at_def)
qed

lemma comp_inv_cong:
  assumes "comp_inv inp N st ts L" and "c_ip st' = c_ip st" "c_op st' = c_op st" "c_lit st' = c_lit st" "c_out st' = c_out st"
    and "\<forall>i. c_htab st' i < 2 ^ 64"
  shows "comp_inv inp N st' ts L"
  using assms by (simp add: comp_inv_def run_at_def)

text \<open>The end of the run and the bytes of the reference, up to the start of the next run.\<close>

lemma emit_match:
  assumes inv: "comp_inv inp N st ts L" and room: "c_op st - (if c_lit st = 0 then 1 else 0) + 4 < N"
    and T: "T = ts @ (if L = [] then [] else [Literal L]) @ [Backref k d]"
  shows "\<exists>out1 out. stop_run st = Some (st\<lparr>c_out := out1\<rparr>) \<and>
    put_reference (k - 2) (d - 1) ((undo_run (st\<lparr>c_out := out1\<rparr>))\<lparr>c_ip := c_ip st + 1\<rparr>) =
      Some (st\<lparr>c_out := out, c_op := length (encode T), c_ip := c_ip st + 1\<rparr>) \<and>
    length out = N \<and> take (length (encode T)) out = encode T"
proof -
  let ?U = "ts @ (if L = [] then [] else [Literal L])"
  have I: "run_at ts L st" "length L < 32" "length (c_out st) = N" using inv by (simp_all add: comp_inv_def)
  have op: "c_op st = length (encode ts) + 1 + length L" "c_lit st = length L" using I(1) by (simp_all add: run_at_def)
  have U: "c_op st - (if c_lit st = 0 then 1 else 0) = length (encode ?U)" using op by simp
  have "length (encode ts) + 1 + length L \<le> length (c_out st)" using room op I(3) by (auto split: if_splits)
  then obtain out1 where s: "stop_run st = Some (st\<lparr>c_out := out1\<rparr>)" "length out1 = N" "take (length (encode ?U)) out1 = encode ?U"
    using stop_run_spec [OF I(1)] I(2,3) by auto
  let ?st = "(undo_run (st\<lparr>c_out := out1\<rparr>))\<lparr>c_ip := c_ip st + 1\<rparr>"
  have st: "c_out ?st = out1" "c_op ?st = length (encode ?U)" using U by (simp_all add: undo_run_def)
  have "length (encode ?U) + 4 < N" using room unfolding U .
  then have "length (encode ?U) + 3 < length (c_out ?st)" unfolding st(1) s(2) by simp
  moreover have "take (length (encode ?U)) (c_out ?st) = encode ?U" unfolding st(1) by (rule s(3))
  ultimately obtain out where p0: "put_reference (k - 2) (d - 1) ?st = Some (?st\<lparr>c_out := out, c_op := length (encode ?U) + length (encode_token (Backref k d))\<rparr>)"
    "length out = length (c_out ?st)" "take (length (encode ?U) + length (encode_token (Backref k d))) out = encode ?U @ encode_token (Backref k d)"
    using put_backref [OF _ refl st(2), of k d] by blast
  have e: "encode T = encode ?U @ encode_token (Backref k d)" unfolding T by (simp del: encode_token.simps)
  have p: "put_reference (k - 2) (d - 1) ?st = Some (?st\<lparr>c_out := out, c_op := length (encode T)\<rparr>)"
    "length out = N" "take (length (encode T)) out = encode T"
    using p0 unfolding e length_append st(1) s(2) by blast+
  have "?st\<lparr>c_out := out, c_op := length (encode T)\<rparr> = st\<lparr>c_out := out, c_op := length (encode T), c_ip := c_ip st + 1\<rparr>"
    by (simp add: undo_run_def)
  then show ?thesis using s(1) p by (intro exI [of _ out1] exI [of _ out]) simp
qed

lemma c_ip_undo_run [simp]: "c_ip (undo_run st) = c_ip st"
  by (simp add: undo_run_def)

lemma compress_match_run:
  assumes off: "u64 (int (base + c_ip st) - int ref - 1) = off" and room: "\<not> length (c_out st) \<le> c_op st - (if c_lit st = 0 then 1 else 0) + 4"
    and k: "match_length inp (ref - base) (c_ip st) = Some k" "3 \<le> k" and stop: "stop_run st = Some (st\<lparr>c_out := out1\<rparr>)"
    and pr: "put_reference (k - 2) off ((undo_run (st\<lparr>c_out := out1\<rparr>))\<lparr>c_ip := c_ip st + 1\<rparr>) =
        Some (st\<lparr>c_out := out, c_op := n, c_ip := c_ip st + 1\<rparr>)"
    and st2: "st2 = st\<lparr>c_out := out, c_op := n + 1, c_lit := 0, c_ip := c_ip st + k\<rparr>"
  shows "compress_match base inp ref st =
    (if int (c_ip st2) \<ge> int (length inp) - 2 then Some (Break st2)
     else do {
       hval \<leftarrow> FRST inp (c_ip st2 - 2);
       st \<leftarrow> hash_at base inp (st2\<lparr>c_ip := c_ip st2 - 2, c_hval := hval\<rparr>);
       st \<leftarrow> hash_at base inp st;
       Some (Continue st) })"
proof -
  have "c_ip st + 1 + (k - 2 + 1) = c_ip st + k" using k(2) by simp
  then have s: "(start_run (st\<lparr>c_out := out, c_op := n, c_ip := c_ip st + 1\<rparr>))\<lparr>c_ip := c_ip (start_run (st\<lparr>c_out := out, c_op := n, c_ip := c_ip st + 1\<rparr>)) + (k - 2 + 1)\<rparr> = st2"
    by (simp add: start_run_def st2)
  have A: "\<not> (c_op st + 3 + 1 \<ge> length (c_out st) \<and> c_op st - (if c_lit st = 0 then 1 else 0) + 3 + 1 \<ge> length (c_out st))"
    using room by simp
  have m: "c_ip (undo_run (st\<lparr>c_out := out1\<rparr>)) = c_ip st" by simp
  show ?thesis
    unfolding compress_match_def Let_def off if_not_P [OF A] stop Option.bind.bind_lunit m k(1) pr s by simp
qed

lemma compress_match_spec:
  assumes inv: "comp_inv inp N st ts L" and ip: "c_ip st + 2 < length inp" and base: "base + length inp < 2 ^ 64"
    and ref: "base < ref" "ref < base + c_ip st" "base + c_ip st - ref \<le> 8192" "same_bytes inp (ref - base) (c_ip st) 3"
  shows "\<exists>flow. compress_match base inp ref st = Some flow \<and> flow_ok inp N st flow"
proof -
  define r where "r = ref - base"
  have r: "r < c_ip st" "c_ip st - r \<le> 8192" using ref by (auto simp: r_def)
  have "int (base + c_ip st) - int ref - 1 = int (c_ip st - r - 1)" using ref r_def by linarith
  then have off: "u64 (int (base + c_ip st) - int ref - 1) = c_ip st - r - 1" using base ip by (simp add: u64_def)
  have N: "length (c_out st) = N" "\<forall>i. c_htab st i < 2 ^ 64" using inv by (simp_all add: comp_inv_def)
  obtain k where k: "match_length inp r (c_ip st) = Some k" "3 \<le> k" "k \<le> 264" "c_ip st + k \<le> length inp" "same_bytes inp r (c_ip st) k"
    using match_length_spec [OF r(1) ip] ref(4) r_def by blast
  show ?thesis
  proof (cases "N \<le> c_op st - (if c_lit st = 0 then 1 else 0) + 4")
    case True
    then show ?thesis using N by (auto simp: compress_match_def Let_def flow_ok_def split: if_splits)
  next
    case False
    define T where "T = ts @ (if L = [] then [] else [Literal L]) @ [Backref k (c_ip st - r)]"
    obtain out1 out where e: "stop_run st = Some (st\<lparr>c_out := out1\<rparr>)"
      "put_reference (k - 2) (c_ip st - r - 1) ((undo_run (st\<lparr>c_out := out1\<rparr>))\<lparr>c_ip := c_ip st + 1\<rparr>) =
        Some (st\<lparr>c_out := out, c_op := length (encode T), c_ip := c_ip st + 1\<rparr>)" "length out = N" "take (length (encode T)) out = encode T"
      using emit_match [OF inv _ T_def] False by (meson not_le)
    define st2 where "st2 = st\<lparr>c_out := out, c_op := length (encode T) + 1, c_lit := 0, c_ip := c_ip st + k\<rparr>"
    have inv2: "comp_inv inp N st2 T []"
      using comp_inv_match [OF inv r k(2-5) T_def e(3,4) N(2), of "c_hval st"] by (rule comp_inv_cong) (use N(2) in \<open>simp_all add: st2_def\<close>)
    note run = compress_match_run [OF off _ k(1) [unfolded r_def] k(2) e(1,2) st2_def, unfolded N(1), OF False]
    show ?thesis
    proof (cases "int (c_ip st2) \<ge> int (length inp) - 2")
      case True
      then show ?thesis using run inv2 by (auto simp: flow_ok_def)
    next
      case more: False
      let ?p = "c_ip st2 - 2"
      have p: "?p + 2 < length inp" "?p + 2 = c_ip st2" using more k(2) by (auto simp: st2_def)
      obtain hv where hv: "FRST inp ?p = Some hv" using p by (simp add: FRST_def rd_byte_def)
      obtain st3 where 3: "hash_at base inp (st2\<lparr>c_ip := ?p, c_hval := hv\<rparr>) = Some st3" "c_ip st3 = ?p + 1" "\<forall>i. c_htab st3 i < 2 ^ 64"
        "c_op st3 = c_op st2" "c_lit st3 = c_lit st2" "c_out st3 = c_out st2"
        using hash_at_spec [of "st2\<lparr>c_ip := ?p, c_hval := hv\<rparr>" inp base] p(1) base N(2) by (auto simp: st2_def)
      obtain st4 where 4: "hash_at base inp st3 = Some st4" "c_ip st4 = ?p + 2" "\<forall>i. c_htab st4 i < 2 ^ 64"
        "c_op st4 = c_op st2" "c_lit st4 = c_lit st2" "c_out st4 = c_out st2"
        using hash_at_spec [of st3 inp base] p(2) more base 3 by auto
      have "comp_inv inp N st4 T []" by (rule comp_inv_cong [OF inv2]) (use 4 p in auto)
      moreover have "compress_match base inp ref st = Some (Continue st4)" using run more hv 3(1) 4(1) by simp
      moreover have "c_ip st < c_ip st4" using 4(2) p(2) k(2) by (simp add: st2_def)
      ultimately show ?thesis by (auto simp: flow_ok_def)
    qed
  qed
qed

subsection \<open>The loops\<close>

lemma compress_step_spec:
  assumes inv: "comp_inv inp N st ts L" and ip: "c_ip st + 2 < length inp" and base: "MAX_OFF \<le> base" "base + length inp < 2 ^ 64"
  shows "\<exists>flow. compress_step base inp st = Some flow \<and> flow_ok inp N st flow"
proof -
  obtain hval where h: "NEXT (c_hval st) inp (c_ip st) = Some hval" using ip by (simp add: NEXT_def rd_byte_def)
  let ?ref = "c_htab st (IDX hval)"
  define st1 where "st1 = st\<lparr>c_hval := hval, c_htab := (c_htab st)(IDX hval := base + c_ip st)\<rparr>"
  have tab: "\<forall>i. c_htab st i < 2 ^ 64" "length (c_out st) = N" using inv by (simp_all add: comp_inv_def)
  have inv1: "comp_inv inp N st1 ts L" by (rule comp_inv_cong [OF inv]) (use tab ip base in \<open>auto simp: st1_def\<close>)
  have same: "c_ip st1 = c_ip st" "c_op st1 = c_op st" "c_out st1 = c_out st" by (simp_all add: st1_def)
  obtain f where f: "is_match base inp (c_ip st) ?ref = Some f"
    "f \<Longrightarrow> base < ?ref \<and> ?ref < base + c_ip st \<and> base + c_ip st - ?ref \<le> 8192 \<and> (\<forall>i<3. inp ! (?ref - base + i) = inp ! (c_ip st + i))"
    using is_match_spec [OF base, of ?ref "c_ip st"] tab(1) ip by metis
  have run: "compress_step base inp st =
    (if f then compress_match base inp ?ref st1 else if c_op st1 \<ge> length (c_out st1) then Some (Return0 (c_out st1))
     else do { st \<leftarrow> put_literal inp st1; Some (Continue st) })"
    by (simp add: compress_step_def h f(1) st1_def Let_def)
  show ?thesis
  proof (cases f)
    case True
    then obtain flow where "compress_match base inp ?ref st1 = Some flow" "flow_ok inp N st1 flow"
      using compress_match_spec [OF inv1, of base ?ref] f(2) ip base(2) same by (auto simp: same_bytes_def)
    then show ?thesis using run True same by (auto simp: flow_ok_def split: lzf_flow.splits)
  next
    case False
    show ?thesis
    proof (cases "N \<le> c_op st1")
      case True
      then show ?thesis using run False same tab by (simp add: flow_ok_def)
    next
      case room: False
      then obtain st' ts' L' where "put_literal inp st1 = Some st'" "comp_inv inp N st' ts' L'" "c_ip st' = c_ip st1 + 1"
        using put_literal_spec [OF inv1] ip same by auto
      then show ?thesis using run False room same tab by (auto simp: flow_ok_def)
    qed
  qed
qed

lemma comp_inv_size: "comp_inv inp N st ts L \<Longrightarrow> 32 * c_op st \<le> 33 * c_ip st + 32"
  by (simp add: comp_inv_def run_at_def)

lemma compress_loop_spec:
  assumes "comp_inv inp N st ts L" and base: "MAX_OFF \<le> base" "base + length inp < 2 ^ 64"
  shows "\<exists>r. compress_loop base inp st = Some r \<and>
    (case r of Inl out \<Rightarrow> length out = N \<and> 32 * N \<le> 33 * length inp + 96
     | Inr st' \<Rightarrow> (\<exists>ts' L'. comp_inv inp N st' ts' L') \<and> length inp \<le> c_ip st' + 2)"
  using assms(1)
proof (induction "length inp - c_ip st" arbitrary: st ts L rule: less_induct)
  case less
  show ?case
  proof (cases "int (c_ip st) < int (length inp) - 2")
    case True
    then have ip: "c_ip st + 2 < length inp" by simp
    obtain flow where flow: "compress_step base inp st = Some flow" "flow_ok inp N st flow"
      using compress_step_spec [OF less.prems ip base] by blast
    show ?thesis
    proof (cases flow)
      case (Return0 out)
      then show ?thesis
        using flow True ip comp_inv_size [OF less.prems] by (subst compress_loop.simps) (simp add: flow_ok_def)
    next
      case (Break st')
      then show ?thesis using flow True by (subst compress_loop.simps) (auto simp: flow_ok_def)
    next
      case (Continue st')
      then obtain ts' L' where "comp_inv inp N st' ts' L'" "c_ip st < c_ip st'" using flow(2) by (auto simp: flow_ok_def)
      then show ?thesis
        using less.hyps [of st' ts' L'] flow(1) True Continue ip by (subst compress_loop.simps) auto
    qed
  next
    case False
    then show ?thesis using less.prems by (subst compress_loop.simps) auto
  qed
qed

lemma tail_loop_spec:
  assumes "comp_inv inp N st ts L" and "c_op st + (length inp - c_ip st) \<le> N"
    and "32 \<le> length L + (length inp - c_ip st) \<Longrightarrow> c_op st + (length inp - c_ip st) + 1 \<le> N" and "length inp \<le> c_ip st + 2"
  shows "\<exists>st' ts' L'. tail_loop inp st = Some st' \<and> comp_inv inp N st' ts' L' \<and> c_ip st' = length inp \<and> c_op st' \<le> N"
  using assms
proof (induction "length inp - c_ip st" arbitrary: st ts L)
  case 0
  then have "c_ip st = length inp" by (simp add: comp_inv_def)
  then show ?case using 0 by (subst tail_loop.simps) auto
next
  case (Suc k)
  then have ip: "c_ip st < length inp" and room: "c_op st < N" by auto
  obtain st' ts' L' where p: "put_literal inp st = Some st'" "comp_inv inp N st' ts' L'" "c_ip st' = c_ip st + 1"
    "if length L = 31 then L' = [] \<and> c_op st' = c_op st + 2 else length L' = length L + 1 \<and> c_op st' = c_op st + 1"
    using put_literal_spec [OF Suc.prems(1) ip room] by blast
  have full: "length L = 31 \<Longrightarrow> c_op st + (length inp - c_ip st) + 1 \<le> N" using Suc.prems(3) ip by auto
  have d: "length inp - c_ip st = Suc (length inp - c_ip st')" using ip p(3) by simp
  have a: "c_op st' + (length inp - c_ip st') \<le> N"
  proof (cases "length L = 31")
    case True
    then show ?thesis using full d p(4) by simp
  next
    case False
    then show ?thesis using Suc.prems(2) d p(4) by simp
  qed
  have b: "c_op st' + (length inp - c_ip st') + 1 \<le> N" if "32 \<le> length L' + (length inp - c_ip st')"
    using that Suc.prems(3,4) d p(3,4) by (cases "length L = 31") simp_all
  have "\<exists>st'' ts' L'. tail_loop inp st' = Some st'' \<and> comp_inv inp N st'' ts' L' \<and> c_ip st'' = length inp \<and> c_op st'' \<le> N"
    using Suc.hyps(2) d Suc.prems(4) p(3) by (intro Suc.hyps(1) [OF _ p(2) a b]) auto
  then show ?case using ip p(1) by (subst tail_loop.simps) simp
qed

text \<open>What the compressor returns: the encoding of tokens that expand to the input, or 0 when the output is too small.\<close>

lemma compress_spec:
  assumes "2 \<le> length inp" and base: "MAX_OFF \<le> base" "base + length inp < 2 ^ 64" and tab: "\<forall>i. htab i < 2 ^ 64"
  shows "\<exists>out' n. lzf_compress base htab inp out = Some (out', n) \<and> length out' = length out \<and> n \<le> length out \<and>
    (n = 0 \<longrightarrow> 32 * length out \<le> 33 * length inp + 96) \<and>
    (0 < n \<longrightarrow> (\<exists>ts. tokens_ok [] ts \<and> expand [] ts = inp \<and> take n out' = encode ts))"
proof (cases "out = []")
  case True
  then show ?thesis by (simp add: lzf_compress_def)
next
  case False
  have "0 < length inp" "1 < length inp" using assms(1) by auto
  then obtain hval where h: "FRST inp 0 = Some hval" by (simp add: FRST_def rd_byte_def del: length_greater_0_conv)
  let ?st = "\<lparr>c_ip = 0, c_op = 1, c_lit = 0, c_hval = hval, c_htab = htab, c_out = out\<rparr>"
  have "comp_inv inp (length out) ?st [] []" using tab by (simp add: comp_inv_def run_at_def)
  from compress_loop_spec [OF this base] obtain r where r: "compress_loop base inp ?st = Some r"
    "case r of Inl out' \<Rightarrow> length out' = length out \<and> 32 * length out \<le> 33 * length inp + 96
     | Inr st' \<Rightarrow> (\<exists>ts' L'. comp_inv inp (length out) st' ts' L') \<and> length inp \<le> c_ip st' + 2" by blast
  have ne: "length inp \<noteq> 0" "length out \<noteq> 0" using assms(1) False by auto
  show ?thesis
  proof (cases r)
    case (Inl out')
    then show ?thesis using h r ne by (simp add: lzf_compress_def)
  next
    case (Inr st)
    then obtain ts L where inv: "comp_inv inp (length out) st ts L" and ip: "length inp \<le> c_ip st + 2" using r(2) by auto
    have len: "length (c_out st) = length out" "c_ip st \<le> length inp" using inv by (simp_all add: comp_inv_def)
    show ?thesis
    proof (cases "c_op st + 3 > length out")
      case True
      then show ?thesis using h r(1) ne Inr len comp_inv_size [OF inv] by (simp add: lzf_compress_def)
    next
      case room: False
      have tl: "c_op st + (length inp - c_ip st) \<le> length out" and tl': "c_op st + (length inp - c_ip st) + 1 \<le> length out"
        using room ip by linarith+
      obtain st' ts' L' where t: "tail_loop inp st = Some st'" "comp_inv inp (length out) st' ts' L'" "c_ip st' = length inp" "c_op st' \<le> length out"
        using tail_loop_spec [OF inv tl _ ip] tl' by blast
      define T where "T = ts' @ (if L' = [] then [] else [Literal L'])"
      have I: "run_at ts' L' st'" "length L' < 32" "tokens_ok [] ts'" "expand [] ts' @ L' = inp" "length (c_out st') = length out"
        using t(2,3) by (simp_all add: comp_inv_def)
      have op: "c_op st' = length (encode ts') + 1 + length L'" "c_lit st' = length L'" using I(1) by (simp_all add: run_at_def)
      obtain out' where s: "stop_run st' = Some (st'\<lparr>c_out := out'\<rparr>)" "length out' = length out" "take (length (encode T)) out' = encode T"
        using stop_run_spec [OF I(1)] t(4) I(2,5) op(1) T_def by auto
      have n: "c_op (undo_run (st'\<lparr>c_out := out'\<rparr>)) = length (encode T)" using op by (simp add: undo_run_def T_def)
      have T: "tokens_ok [] T" "expand [] T = inp" using I(2-4) by (auto simp: T_def)
      then have "length (encode T) \<noteq> 0" using ne(1) by (cases T; cases "hd T") (auto simp: Let_def)
      moreover have "length (encode T) \<le> length out" using n t(4) by (simp add: undo_run_def split: if_splits)
      ultimately show ?thesis using h r(1) ne Inr len room t(1) s n T by (auto simp: lzf_compress_def)
    qed
  qed
qed

subsection \<open>Properties\<close>

text \<open>C4: What was compressed is decompressed to the same bytes. Whatever the uninitialised hash table of the compressor holds, when
  it returns a length the decompressor turns that many bytes of its output back into the input, provided its buffer has
  room for it, and reports E2BIG otherwise.\<close>

theorem lzf_roundtrip:
  assumes "2 \<le> length inp" and "MAX_OFF \<le> base" and "base + length inp < 2 ^ 64" and "\<forall>i. htab i < 2 ^ 64"
    and "lzf_compress base htab inp out = Some (out', n)" and "0 < n"
  shows "if length inp \<le> length buf
    then lzf_decompress (take n out') buf = Some (inp @ drop (length inp) buf, length inp, None)
    else \<exists>buf'. lzf_decompress (take n out') buf = Some (buf', 0, Some E2BIG)"
proof -
  obtain ts where ts: "tokens_ok [] ts" "expand [] ts = inp" "take n out' = encode ts"
    using compress_spec [OF assms(1-4), of out] assms(5,6) by auto
  show ?thesis using decompress_tokens [OF ts(1), of "[]" buf] ts(2,3) by (auto simp: lzf_decompress_def)
qed

theorem lzf_roundtrip_witness:
  "\<exists>out' n. lzf_compress 8192 (\<lambda>_. 0) (replicate 40 97) (replicate 46 0) = Some (out', n) \<and> 0 < n \<and>
     lzf_decompress (take n out') (replicate 40 0) = Some (replicate 40 97, 40, None)"
proof -
  obtain out' n where c: "lzf_compress 8192 (\<lambda>_. 0) (replicate 40 97) (replicate 46 0) = Some (out', n)" "0 < n"
    using compress_spec [of "replicate 40 97" 8192 "\<lambda>_. 0" "replicate 46 0"] by (auto simp: MAX_OFF_def)
  have "lzf_decompress (take n out') (replicate 40 0) = Some (replicate 40 97, 40, None)"
    using lzf_roundtrip [of "replicate 40 97" 8192 "\<lambda>_. 0" "replicate 46 0" out' n "replicate 40 0"] c by (simp add: MAX_OFF_def)
  then show ?thesis using c by blast
qed

text \<open>C8: The decompressor is safe on every input: whatever bytes it is given and however small its buffer, it ends, reads only
  its input and its own output, writes only its buffer, and returns at most the size of the buffer; when it reports an error it returns 0.\<close>

theorem lzf_decompress_never_faults:
  "\<exists>out' n e. lzf_decompress inp out = Some (out', n, e) \<and> length out' = length out \<and> n \<le> length out \<and> (e = None \<or> n = 0)"
  using decompress_loop_safe [of 0 out inp 0] by (auto simp: lzf_decompress_def)

text \<open>C15: On every input that is not a single byte and starts behind the first 8192 bytes of memory the compressor returns, stays in its buffers and writes no more than it is
  given. For an empty input it returns 0. For at least two bytes it can only give up on an output that is smaller than the input
  with one byte for every 32 bytes of it and four more.\<close>

theorem lzf_compress_returns:
  assumes "length inp \<noteq> 1" and "MAX_OFF \<le> base" and "base + length inp < 2 ^ 64" and "\<forall>i. htab i < 2 ^ 64"
  shows "\<exists>out' n. lzf_compress base htab inp out = Some (out', n) \<and> length out' = length out \<and> n \<le> length out \<and>
    (if inp = [] then n = 0 else length inp + length inp div 32 + 4 \<le> length out \<longrightarrow> 0 < n)"
proof (cases "inp = []")
  case True
  then show ?thesis by (simp add: lzf_compress_def)
next
  case False
  then have "2 \<le> length inp" using assms(1) by (cases inp; cases "tl inp") auto
  then obtain out' n where c: "lzf_compress base htab inp out = Some (out', n)" "length out' = length out" "n \<le> length out"
    "n = 0 \<longrightarrow> 32 * length out \<le> 33 * length inp + 96" using compress_spec [OF _ assms(2-4)] by blast
  have "length inp < 32 * (length inp div 32) + 32" by (metis div_mult_mod_eq mod_less_divisor mult.commute nat_add_left_cancel_less zero_less_numeral)
  then have "length inp + length inp div 32 + 4 \<le> length out \<longrightarrow> 0 < n" using c(4) by linarith
  then show ?thesis using c False by auto
qed

theorem lzf_compress_returns_witness:
  "\<exists>out' n. lzf_compress 8192 (\<lambda>_. 0) (replicate 40 97) (replicate 46 0) = Some (out', n) \<and> 0 < n \<and> n \<le> 46"
  using lzf_compress_returns [of "replicate 40 97" 8192 "\<lambda>_. 0" "replicate 46 0"] by (auto simp: MAX_OFF_def)

text \<open>For an input of one byte the first hash reads a second byte, behind the end of the input.\<close>

theorem lzf_compress_overreads_one_byte: "out \<noteq> [] \<Longrightarrow> lzf_compress base htab [b] out = None"
  by (simp add: lzf_compress_def FRST_def rd_byte_def)

end
