(* ===== verification/Spec2Isabelle.thy ===== *)
theory Spec2Isabelle
  imports Intset Util_Numbers Glob_Match Kvstore_Spec Listpack_Random Adlist_Spec Lzf_Spec
begin

text \<open>
  Verification of the data structures of the Valkey 8.0.2 server that is vendored under \<^verbatim>\<open>src/valkey-8.0.2/src\<close>.

  \<^bold>\<open>The program.\<close> The server keeps its databases in a key-value store (\<^verbatim>\<open>kvstore.c\<close>), an array of hash tables with one table for each
  cluster slot. A hash table (\<^verbatim>\<open>dict.c\<close>) rehashes incrementally while it is read, written and scanned. Small collections are
  stored compactly: sets of integers as an intset (\<^verbatim>\<open>intset.c\<close>), lists, hashes and sorted sets as a listpack
  (\<^verbatim>\<open>listpack.c\<close>). Both are single buffers that are also written to disk and sent to other servers, so that they are validated
  when they are loaded. Clients, replicas and other bookkeeping are kept in linked lists (\<^verbatim>\<open>adlist.c\<close>). Number formatting and
  parsing and glob patterns (\<^verbatim>\<open>util.c\<close>) are used throughout: the listpack calls \<^verbatim>\<open>ll2string\<close> to return integers as strings,
  and the commands that scan keys match patterns.

  \<^bold>\<open>How C is modelled.\<close> \<^verbatim>\<open>Valkey_Prelude\<close> has the vocabulary. A function is a computation in the option monad: \<open>None\<close> is a failed
  assertion, an access outside a buffer, a pointer that is NULL or freed, an undefined operation, or a loop that does not end. A
  theorem that a result is \<open>Some\<close> therefore states that none of this happens. A NULL that the function returns is an inner option.
  Structs are records with the names of the source, buffers are lists of bytes with checked reads and writes, and wrap-around of
  unsigned integers is written out by \<open>u32\<close> and \<open>u64\<close>. The allocator is an argument that gives the contents of new memory. The hash
  function of a dict, the values of random number generators, and callbacks are arguments too. The locales
  \<open>guarded_refinement\<close> and \<open>component_refinement\<close> say what it means that the operations of a component implement an abstract
  data type; the dict, the key-value store, the listpack, the intset and the linked list are interpretations of them or of the
  interfaces next to the component, and the theorems about runs are proved once in the locales.

  \<^bold>\<open>Numbers and patterns.\<close> \<^verbatim>\<open>Util_Numbers\<close> models \<^verbatim>\<open>digits10\<close>, \<^verbatim>\<open>ull2string\<close>, \<^verbatim>\<open>ll2string\<close>, \<^verbatim>\<open>string2ll\<close>, \<^verbatim>\<open>string2ull\<close>,
  \<^verbatim>\<open>memtoull\<close> and the signal-safe variants: parsing accepts exactly the canonical decimals of 64-bit integers and printing is read back.
  \<^verbatim>\<open>Glob_Match\<close> models \<^verbatim>\<open>stringmatchlen\<close> and proves it equal to a declarative matching relation.

  \<^bold>\<open>Intset.\<close> \<^verbatim>\<open>Int_Array\<close> reads a buffer as an array of integers; \<^verbatim>\<open>Intset\<close> models every operation of \<^verbatim>\<open>intset.c\<close>, with
  the change of the encoding on insertion. Insertion, removal and search are those of a set, and the validation accepts
  exactly the buffers of well-formed sets.

  \<^bold>\<open>Dict.\<close> \<^verbatim>\<open>Dict\<close> models the tables, rehashing, resizing and the operations on entries, \<^verbatim>\<open>Dict_Inv\<close> has the invariant, \<^verbatim>\<open>Dict_Ops\<close>
  the correctness of each operation and \<^verbatim>\<open>Dict_Spec\<close> the refinement of a finite map by any sequence of operations,
  interleaved with rehashing under any resize policy. \<^verbatim>\<open>Dict_Scan\<close> models the cursor of \<^verbatim>\<open>dictScan\<close> and shows that a scan
  returns every entry that stays in the dict while the tables are resized between the calls, and that it ends. \<^verbatim>\<open>Dict_Iter\<close> has
  emptying, iterators with their fingerprint and the time-limited rehash; \<^verbatim>\<open>Dict_Random\<close> has the random selection of entries and the
  statistics of a table.

  \<^bold>\<open>Key-value store.\<close> \<^verbatim>\<open>Fenwick\<close> has the binary indexed tree over the sizes of the dicts, \<^verbatim>\<open>Kvstore\<close> the store,
  \<^verbatim>\<open>Kvstore_Inv\<close> its invariant and \<^verbatim>\<open>Kvstore_Spec\<close> the refinement of one map over all slots, the search for the dict
  that holds the key of a given rank, and the iteration over non-empty dicts.

  \<^bold>\<open>Listpack.\<close> \<^verbatim>\<open>Listpack\<close> is the model; \<^verbatim>\<open>Listpack_Enc\<close> and \<^verbatim>\<open>Listpack_Rep\<close> say what entries and buffers stand for;
  \<^verbatim>\<open>Listpack_Ops\<close>, \<^verbatim>\<open>Listpack_More\<close> and \<^verbatim>\<open>Listpack_Bulk\<close> prove the operations on what the buffer represents, and
  \<^verbatim>\<open>Listpack_Valid\<close> the validation of untrusted buffers. \<^verbatim>\<open>Listpack_Spec\<close> states the contract, a list of strings, and that a
  validated buffer can be walked and read safely. \<^verbatim>\<open>Listpack_Random\<close> has the random selection with repetitions.

  \<^bold>\<open>Linked list.\<close> \<^verbatim>\<open>Adlist\<close> models every operation of \<^verbatim>\<open>adlist.c\<close> over a store of nodes with addresses, \<^verbatim>\<open>Adlist_Inv\<close> relates
  a store to the list of nodes it holds, and \<^verbatim>\<open>Adlist_Spec\<close> states the contract: a list of nodes whose values are freed once,
  iteration that may delete the current node, copies, and joining.

  \<^bold>\<open>Compression.\<close> \<^verbatim>\<open>Lzf\<close> models \<^verbatim>\<open>lzf_compress\<close> and \<^verbatim>\<open>lzf_decompress\<close>, which the persistence and the quicklist use.
  \<^verbatim>\<open>Lzf_Format\<close> gives the format as tokens with a meaning and shows that the decompressor expands them and is safe on any bytes;
  \<^verbatim>\<open>Lzf_Spec\<close> shows that the compressor writes tokens that expand to its input, whatever its uninitialised hash table holds, and
  concludes the round trip. The compressor is assumed to find its input in the address space behind the first 8192 bytes, because
  it compares addresses from uninitialised memory with wrapping arithmetic. The round trip is for inputs of at least two
  bytes; for an empty input the compressor returns 0, and an input of one byte is read past its end.

  \<^bold>\<open>Loops, fuel and bounds.\<close> Loops are structural recursions, functions with a termination proof, or partial functions in the option
  monad; for the latter termination is part of the theorems, which say that the result is \<open>Some\<close>. The only fuel is the recursion
  limit of the pattern matcher, which is that of the source. Theorems about buffers hold up to the sizes that the source can
  represent: the refusal of a listpack beyond 32 bits is part of its contract, and where an intset would outgrow its 32-bit byte
  count the wrap-around is proved as a finding.

  \<^bold>\<open>Idealisations.\<close> Counters that only grow with the number of objects in memory are unbounded: the numbers of entries and the pause
  counters of a dict, the numbers of keys and buckets of a store (their subtractions do wrap), the number of bucket visits of a
  rehashing step, and the size computations of tables other than the one on the bytes of a new table. The assertions that keys
  declared odd are odd and that the metadata of a dict has no bytes, the NULL and identity checks of \<^verbatim>\<open>lpMerge\<close>, and a call of
  \<^verbatim>\<open>lpRandomPairs\<close> without an array for values have no counterpart. The two random number generators of a dict are one sequence
  of numbers. The linked list is allowed to run out of memory at any allocation; the allocator of the server aborts instead, so
  that these branches go beyond what the server runs.

  \<^bold>\<open>Findings.\<close> Several theorems state what the code does where a comment or the intent says otherwise: the counter of non-empty
  dicts that is raised by a deletion which leaves one key, buckets that are counted after their dict is freed, the
  release of an iterator that was never advanced, the 32-bit byte count of a tail move, an overflow and a sign that the number parsers
  accept, a read past the end of a hexadecimal string, a star pattern that does not match the empty string, and a read past an input of one byte by the compressor.

  \<^bold>\<open>Not modelled.\<close> In the modelled files: functions on floating-point numbers (\<^verbatim>\<open>string2d\<close>, \<^verbatim>\<open>lpNextRandom\<close>,
  \<^verbatim>\<open>lpRandomPairsUnique\<close>), printing for debugging, the release of memory, defragmentation callbacks, and functions that
  only call the C library. Of the rest of the server: the commands, the event loop, networking, persistence, replication, cluster,
  scripting and modules are I/O, threads, clocks and global state around these structures; the remaining containers (quicklist,
  radix tree, skip list, streams, ziplist) and the hash and checksum functions are listed as components that are
  not modelled. The Ansible roles and shell scripts outside the server install packages and edit files of the host.
\<close>

end
